(* ===== verification/Prelude.thy ===== *)
theory Prelude
  imports "HOL-Library.Word" "HOL-Library.Signed_Division" "HOL-Library.Multiset" "HOL-Library.Char_ord" "HOL-Library.List_Lexorder"
begin

text \<open>
  Shared vocabulary of the development: Go's \<open>int64\<close> as a 64-bit word read with
  \<^const>\<open>sint\<close>, run-time panics as the left summand of a sum type, Go maps as finite partial
  functions whose iteration order is an explicit enumeration, and the generic list, map and word
  lemmas that the component theories share.
\<close>

section \<open>Hint collections\<close>

named_theorems go_int \<open>signed comparisons unfolded to integers\<close>
named_theorems inv_intro \<open>an operation keeps its component's invariant\<close>
named_theorems frame \<open>what an operation leaves unchanged\<close>

section \<open>Machine integers\<close>

type_synonym int64 = "64 word"
type_synonym uint64 = "64 word"

abbreviation max_int64 :: int where
  "max_int64 \<equiv> 2 ^ 63 - 1"

abbreviation in_int64 :: "int \<Rightarrow> bool" where
  "in_int64 i \<equiv> - (2 ^ 63) \<le> i \<and> i < 2 ^ 63"

declare word_sless_alt [go_int] word_sle_eq [go_int]

lemma sint_range64: "in_int64 (sint (x :: int64))"
  using sint_range_size [of x] by (simp add: word_size)

lemma sint_of_int64:
  assumes "in_int64 i"
  shows "sint (word_of_int i :: int64) = i"
  using assms by (simp add: sint_sbintrunc' signed_take_bit_int_eq_self)

lemma sint_add64:
  fixes a b :: int64
  assumes "in_int64 (sint a + sint b)"
  shows "sint (a + b) = sint a + sint b"
proof -
  have "a + b = word_of_int (sint a + sint b)" by simp
  then show ?thesis using sint_of_int64 [OF assms] by simp
qed

lemma sint_diff64:
  fixes a b :: int64
  assumes "in_int64 (sint a - sint b)"
  shows "sint (a - b) = sint a - sint b"
proof -
  have "a - b = word_of_int (sint a - sint b)" by simp
  then show ?thesis using sint_of_int64 [OF assms] by simp
qed

lemma unat_of_nat64: "n < 2 ^ 64 \<Longrightarrow> unat (of_nat n :: int64) = n"
  by (simp add: unat_of_nat)

lemma sint_of_nat64: "n < 2 ^ 63 \<Longrightarrow> sint (of_nat n :: int64) = int n"
  using sint_of_int64 [of "int n"] by simp

lemma uint_eq_sint64:
  fixes n :: int64
  assumes "0 \<le> sint n"
  shows "uint n = sint n"
  using assms sint_range64 [of n] by (simp add: uint_sint take_bit_int_eq_self)

lemma sint_eq_uint64:
  fixes n :: int64
  assumes "uint n < 2 ^ 63"
  shows "sint n = uint n"
proof -
  have "- (2 ^ 63) \<le> uint n" by (rule order_trans [of _ 0]) simp_all
  then show ?thesis using assms by (simp add: sint_uint signed_take_bit_int_eq_self)
qed

lemma sint_inject64: "sint (a :: int64) = sint b \<longleftrightarrow> a = b"
proof
  assume "sint a = sint b"
  then have "(word_of_int (sint a) :: int64) = word_of_int (sint b)" by simp
  then show "a = b" by simp
qed simp

lemma inj_sint64: "inj (sint :: int64 \<Rightarrow> int)"
  by (rule injI) (simp add: sint_inject64)

lemma sint_numeral64 [simp]: "sint (0 :: int64) = 0" "sint (1 :: int64) = 1"
  by simp_all

section \<open>Panics\<close>

text \<open>
  What Go's runtime raises in the modelled code: integer division by zero, an index outside a
  slice, a slice expression with bounds outside it, \<^verbatim>\<open>make\<close> with a
  negative length, a nil pointer, and the fatal error of a program whose every goroutine waits. A panicking operation
  returns \<open>Inl\<close>.
\<close>

datatype panic = DivideByZero | IndexOutOfRange | SliceBounds | MakeSliceLen | NilDereference | Deadlock

type_synonym 'a go = "panic + 'a"

definition go_bind :: "'a go \<Rightarrow> ('a \<Rightarrow> 'b go) \<Rightarrow> 'b go" where
  "go_bind m f = (case m of Inl e \<Rightarrow> Inl e | Inr x \<Rightarrow> f x)"

lemma go_bind_simps [simp]:
  "go_bind (Inl e) f = Inl e"
  "go_bind (Inr x) f = f x"
  by (simp_all add: go_bind_def)

lemma go_bind_Inr_iff: "go_bind m f = Inr y \<longleftrightarrow> (\<exists>x. m = Inr x \<and> f x = Inr y)"
  by (cases m) auto

lemma go_bind_cong [fundef_cong]:
  "m = m' \<Longrightarrow> (\<And>x. m' = Inr x \<Longrightarrow> f x = g x) \<Longrightarrow> go_bind m f = go_bind m' g"
  by (cases m') simp_all

lemma go_bind_assoc: "go_bind (go_bind m f) g = go_bind m (\<lambda>x. go_bind (f x) g)"
  by (cases m) simp_all

lemma go_bind_InrE:
  assumes "go_bind m f = Inr y"
  obtains x where "m = Inr x" "f x = Inr y"
  using assms by (cases m) auto

text \<open>Go's integer division truncates towards zero and panics on a zero divisor.\<close>

definition go_div :: "int64 \<Rightarrow> int64 \<Rightarrow> int64 go" where
  "go_div a b = (if b = 0 then Inl DivideByZero else Inr (word_of_int (sint a sdiv sint b)))"

definition go_mod :: "int64 \<Rightarrow> int64 \<Rightarrow> int64 go" where
  "go_mod a b = (if b = 0 then Inl DivideByZero else Inr (word_of_int (sint a smod sint b)))"

section \<open>Maps\<close>

text \<open>Reading a missing key of a Go map yields the zero value; \<open>m[k] += d\<close> inserts it.\<close>

definition getd :: "('k \<rightharpoonup> int64) \<Rightarrow> 'k \<Rightarrow> int64" where
  "getd m k = (case m k of None \<Rightarrow> 0 | Some v \<Rightarrow> v)"

definition bump :: "'k \<Rightarrow> int64 \<Rightarrow> ('k \<rightharpoonup> int64) \<Rightarrow> ('k \<rightharpoonup> int64)" where
  "bump k d m = m(k \<mapsto> getd m k + d)"

lemma getd_simps [simp]:
  "getd Map.empty k = 0"
  "getd (m(k \<mapsto> v)) k = v"
  "k \<noteq> k' \<Longrightarrow> getd (m(k' \<mapsto> v)) k = getd m k"
  by (simp_all add: getd_def)

lemma getd_bump: "getd (bump k d m) x = (if x = k then getd m k + d else getd m x)"
  by (simp add: bump_def)

lemma dom_bump [simp]: "dom (bump k d m) = insert k (dom m)"
  by (simp add: bump_def)

text \<open>
  \<^verbatim>\<open>for k, v := range m\<close> visits every entry once, in an order Go leaves
  open. The order is a list that enumerates the domain; every order-sensitive loop takes it as
  an argument, and theorems quantify over it.
\<close>

definition enum_of :: "'k list \<Rightarrow> ('k \<rightharpoonup> 'v) \<Rightarrow> bool" where
  "enum_of ks m \<longleftrightarrow> distinct ks \<and> set ks = dom m"

definition range_fold :: "('k \<Rightarrow> 'v \<Rightarrow> 'a \<Rightarrow> 'a) \<Rightarrow> 'k list \<Rightarrow> ('k \<rightharpoonup> 'v) \<Rightarrow> 'a \<Rightarrow> 'a" where
  "range_fold f ks m a = fold (\<lambda>k a. case m k of None \<Rightarrow> a | Some v \<Rightarrow> f k v a) ks a"

lemma enum_of_finite: "enum_of ks m \<Longrightarrow> finite (dom m)"
  by (metis enum_of_def finite_set)

lemma enum_of_length: "enum_of ks m \<Longrightarrow> length ks = card (dom m)"
  by (metis enum_of_def distinct_card)

lemma enum_of_exists: "finite (dom m) \<Longrightarrow> \<exists>ks. enum_of ks m"
  by (metis enum_of_def finite_distinct_list)

text \<open>
  The loop \<open>for k, d := range deltas { m[k] += d }\<close> touches each key once, so it is
  pointwise addition whatever the order.
\<close>

definition add_all :: "('k \<rightharpoonup> int64) \<Rightarrow> ('k \<rightharpoonup> int64) \<Rightarrow> ('k \<rightharpoonup> int64)" where
  "add_all deltas m = (\<lambda>k. case deltas k of None \<Rightarrow> m k | Some d \<Rightarrow> Some (getd m k + d))"

lemma range_fold_bump_aux:
  "distinct ks \<Longrightarrow> range_fold bump ks deltas m =
     (\<lambda>k. if k \<in> set ks then add_all deltas m k else m k)"
proof (induction ks arbitrary: m)
  case Nil
  then show ?case by (simp add: range_fold_def)
next
  case (Cons a ks)
  have step: "range_fold bump (a # ks) deltas m =
      range_fold bump ks deltas (case deltas a of None \<Rightarrow> m | Some d \<Rightarrow> bump a d m)"
    by (simp add: range_fold_def)
  have "distinct ks" "a \<notin> set ks" using Cons.prems by simp_all
  then show ?case
    unfolding step Cons.IH [OF \<open>distinct ks\<close>]
    by (intro ext) (auto simp: add_all_def bump_def split: option.splits)
qed

lemma range_fold_bump: "enum_of ks deltas \<Longrightarrow> range_fold bump ks deltas m = add_all deltas m"
  by (subst range_fold_bump_aux) (auto simp: enum_of_def add_all_def fun_eq_iff split: option.splits)

text \<open>The loop that appends one element per key.\<close>

lemma range_fold_collect:
  "set ks \<subseteq> dom m \<Longrightarrow> range_fold (\<lambda>k v out. out @ [f k v]) ks m acc = acc @ map (\<lambda>k. f k (the (m k))) ks"
  by (induction ks arbitrary: acc) (auto simp: range_fold_def)

lemma getd_add_all [simp]: "getd (add_all deltas m) k = getd m k + getd deltas k"
  by (simp add: add_all_def getd_def split: option.splits)

lemma dom_add_all [simp]: "dom (add_all deltas m) = dom deltas \<union> dom m"
  by (auto simp: add_all_def split: option.splits)

lemma add_all_empty [simp]: "add_all Map.empty m = m"
  by (simp add: add_all_def fun_eq_iff)

lemma add_all_bump: "add_all (bump k d p) m = bump k d (add_all p m)"
  by (auto simp: add_all_def bump_def getd_def fun_eq_iff add.assoc split: option.splits)

lemma add_all_add_all: "add_all (add_all ds p) m = add_all ds (add_all p m)"
  by (auto simp: add_all_def getd_def fun_eq_iff add.assoc split: option.splits)

lemma dom_map_of_key: "dom (map_of (map (\<lambda>r. (f r, r)) rs)) = f ` set rs"
  by (simp add: dom_map_of_conv_image_fst image_image)

section \<open>sort.Slice\<close>

text \<open>
  \<^verbatim>\<open>sort.Slice\<close> returns a permutation ordered by the key; the order of
  equal keys is left open by Go. The executable model keeps the input order of equal keys, and
  theorems either use distinct keys, where the result is unique, or speak of the permutation and
  its order only.
\<close>

definition sort_slice :: "('a \<Rightarrow> 'b::linorder) \<Rightarrow> 'a list \<Rightarrow> 'a list" where
  "sort_slice key xs = sort_key key xs"

lemma sort_slice_facts [simp]:
  "mset (sort_slice key xs) = mset xs"
  "set (sort_slice key xs) = set xs"
  "length (sort_slice key xs) = length xs"
  "sorted (map key (sort_slice key xs))"
  "distinct (sort_slice key xs) = distinct xs"
  by (simp_all add: sort_slice_def)

lemma sorted_perm_unique:
  assumes "mset xs = mset ys" "sorted (map key xs)" "sorted (map key ys)"
    and "distinct (map key xs)"
  shows "xs = ys"
proof (rule map_sorted_distinct_set_unique [where f = key])
  show "inj_on key (set xs \<union> set ys)"
    using assms(1,4) by (metis distinct_map mset_eq_setD sup.idem)
  show "distinct (map key ys)"
    using assms(1,4) by (metis distinct_map mset_eq_imp_distinct_iff mset_eq_setD)
  show "set xs = set ys" using assms(1) by (rule mset_eq_setD)
qed (use assms in auto)

lemma sort_slice_unique:
  assumes "mset ys = mset xs" "sorted (map key ys)" "distinct (map key xs)"
  shows "ys = sort_slice key xs"
proof -
  have "sort_slice key xs = ys"
  proof (rule sorted_perm_unique [where key = key])
    show "distinct (map key (sort_slice key xs))"
      using assms(3) by (simp add: distinct_map)
  qed (use assms in simp_all)
  then show ?thesis by simp
qed

section \<open>Decimal rendering\<close>

text \<open>The \<^verbatim>\<open>%d\<close> verb and \<^verbatim>\<open>strconv.Itoa\<close>.\<close>

fun show_nat :: "nat \<Rightarrow> string" where
  "show_nat n = (if n < 10 then [char_of (48 + n)]
                 else show_nat (n div 10) @ [char_of (48 + n mod 10)])"

declare show_nat.simps [simp del]

definition show_int64 :: "int64 \<Rightarrow> string" where
  "show_int64 w = (if sint w < 0 then ''-'' @ show_nat (nat (- sint w)) else show_nat (nat (sint w)))"

fun read_nat :: "string \<Rightarrow> nat" where
  "read_nat s = foldl (\<lambda>n c. 10 * n + (of_char c - 48)) 0 s"

lemma read_show_nat: "read_nat (show_nat n) = n"
proof (induction n rule: show_nat.induct)
  case (1 n)
  show ?case
  proof (cases "n < 10")
    case True
    then show ?thesis by (simp add: show_nat.simps [of n])
  next
    case False
    with 1 have "foldl (\<lambda>n c. 10 * n + (of_char c - 48)) 0 (show_nat (n div 10)) = n div 10" by simp
    with False show ?thesis by (simp add: show_nat.simps [of n])
  qed
qed

lemma show_nat_digits: "c \<in> set (show_nat n) \<Longrightarrow> 48 \<le> (of_char c :: nat) \<and> (of_char c :: nat) \<le> 57"
proof (induction n rule: show_nat.induct)
  case (1 n)
  then show ?case by (cases "n < 10") (auto simp: show_nat.simps [of n])
qed

lemma show_nat_inject: "show_nat m = show_nat n \<longleftrightarrow> m = n"
  by (metis read_show_nat)

definition show_int :: "int \<Rightarrow> string" where
  "show_int i = (if i < 0 then ''-'' @ show_nat (nat (- i)) else show_nat (nat i))"

lemma show_int64_int: "show_int64 w = show_int (sint w)"
  by (simp add: show_int64_def show_int_def)

section \<open>strings.Join\<close>

fun join :: "string \<Rightarrow> string list \<Rightarrow> string" where
  "join sep [] = ''''"
| "join sep [x] = x"
| "join sep (x # y # xs) = x @ sep @ join sep (y # xs)"

lemma join_Cons: "join sep (x # xs) = x @ (if xs = [] then [] else sep @ join sep xs)"
  by (cases xs) simp_all

lemma join_append:
  "xs \<noteq> [] \<Longrightarrow> ys \<noteq> [] \<Longrightarrow> join sep (xs @ ys) = join sep xs @ sep @ join sep ys"
proof (induction xs)
  case (Cons x xs)
  then show ?case by (cases "xs = []") (simp_all add: join_Cons)
qed simp

end
