(* ===== verification/Model.thy ===== *)
theory Model
  imports Prelude
begin

text \<open>
  Package \<^verbatim>\<open>internal/model\<close>: events, window identities and lifecycle
  states, window results with their fold operations, the operator state machine, partition
  identities, the engine configuration and the metric counters.
\<close>

section \<open>Events (event.go)\<close>

datatype event_kind = KindData | KindSessionPing | KindControl

record event =
  ev_key :: string
  ev_value :: int64
  ev_timestamp :: int64
  ev_offset :: int64
  ev_kind :: event_kind

definition new_data :: "string \<Rightarrow> int64 \<Rightarrow> int64 \<Rightarrow> int64 \<Rightarrow> event" where
  "new_data key value ts offset =
     \<lparr>ev_key = key, ev_value = value, ev_timestamp = ts, ev_offset = offset, ev_kind = KindData\<rparr>"

definition new_ping :: "string \<Rightarrow> int64 \<Rightarrow> int64 \<Rightarrow> event" where
  "new_ping key ts offset =
     \<lparr>ev_key = key, ev_value = 0, ev_timestamp = ts, ev_offset = offset, ev_kind = KindSessionPing\<rparr>"

lemma new_data_simps [simp]:
  "ev_key (new_data k v t n) = k" "ev_value (new_data k v t n) = v"
  "ev_timestamp (new_data k v t n) = t" "ev_offset (new_data k v t n) = n"
  "ev_kind (new_data k v t n) = KindData"
  by (simp_all add: new_data_def)

lemma new_ping_simps [simp]:
  "ev_key (new_ping k t n) = k" "ev_value (new_ping k t n) = 0"
  "ev_timestamp (new_ping k t n) = t" "ev_offset (new_ping k t n) = n"
  "ev_kind (new_ping k t n) = KindSessionPing"
  by (simp_all add: new_ping_def)

section \<open>Windows (window.go)\<close>

record window_id =
  w_start :: int64
  w_end :: int64
  w_key :: string

definition window_string :: "window_id \<Rightarrow> string" where
  "window_string w =
     (if w_key w = '''' then ''window['' @ show_int64 (w_start w) @ '','' @ show_int64 (w_end w) @ '')''
      else ''session['' @ w_key w @ ''][''
           @ show_int64 (w_start w) @ '','' @ show_int64 (w_end w) @ '')'')"

datatype window_state = WindowOpen | WindowTriggering | WindowClosing | WindowClosed

text \<open>The lifecycle order of the constants.\<close>

fun window_rank :: "window_state \<Rightarrow> nat" where
  "window_rank WindowOpen = 0"
| "window_rank WindowTriggering = 1"
| "window_rank WindowClosing = 2"
| "window_rank WindowClosed = 3"

instantiation window_state :: linorder
begin

definition less_eq_window_state :: "window_state \<Rightarrow> window_state \<Rightarrow> bool" where
  "less_eq_window_state x y \<longleftrightarrow> window_rank x \<le> window_rank y"

definition less_window_state :: "window_state \<Rightarrow> window_state \<Rightarrow> bool" where
  "less_window_state x y \<longleftrightarrow> window_rank x < window_rank y"

instance
proof
  fix x y :: window_state
  show "x \<le> y \<Longrightarrow> y \<le> x \<Longrightarrow> x = y"
    by (cases x; cases y) (simp_all add: less_eq_window_state_def)
qed (auto simp: less_eq_window_state_def less_window_state_def)

end

lemma WindowClosed_top [simp]: "s \<le> WindowClosed"
  by (cases s) (simp_all add: less_eq_window_state_def)

fun window_state_string :: "window_state \<Rightarrow> string" where
  "window_state_string WindowOpen = ''open''"
| "window_state_string WindowTriggering = ''triggering''"
| "window_state_string WindowClosing = ''closing''"
| "window_state_string WindowClosed = ''closed''"

definition can_close :: "window_state \<Rightarrow> bool" where
  "can_close s \<longleftrightarrow> s = WindowOpen \<or> s = WindowTriggering"

datatype window_type = WindowTumbling | WindowSession

definition window_type_string :: "window_type \<Rightarrow> string" where
  "window_type_string t = (if t = WindowSession then ''session'' else ''tumbling'')"

section \<open>Window results (result.go)\<close>

record window_result =
  r_window :: window_id
  r_count :: int64
  r_sum :: int64
  r_min :: int64
  r_max :: int64
  r_emitted :: bool
  r_late_count :: int64
  r_late_sum :: int64

text \<open>The composite literal \<^verbatim>\<open>&model.WindowResult{Window: w}\<close>.\<close>

definition fresh_result :: "window_id \<Rightarrow> window_result" where
  "fresh_result w = \<lparr>r_window = w, r_count = 0, r_sum = 0, r_min = 0, r_max = 0,
     r_emitted = False, r_late_count = 0, r_late_sum = 0\<rparr>"

definition apply_value :: "int64 \<Rightarrow> window_result \<Rightarrow> window_result" where
  "apply_value value r0 =
     (let r1 = r0\<lparr>r_count := r_count r0 + 1\<rparr>;
          r2 = r1\<lparr>r_sum := r_sum r1 + value\<rparr>;
          r3 = (if r_count r2 = 1 \<or> value <s r_min r2 then r2\<lparr>r_min := value\<rparr> else r2)
      in if r_max r3 <s value then r3\<lparr>r_max := value\<rparr> else r3)"

definition apply_late :: "int64 \<Rightarrow> window_result \<Rightarrow> window_result" where
  "apply_late value r =
     r\<lparr>r_late_count := r_late_count r + 1, r_late_sum := r_late_sum r + value\<rparr>"

definition result_snapshot :: "window_result \<Rightarrow> window_result" where
  "result_snapshot r = r"

section \<open>Operators (operator.go)\<close>

datatype operator_state = OperatorRunning | OperatorPausing | OperatorResumed

fun operator_state_string :: "operator_state \<Rightarrow> string" where
  "operator_state_string OperatorRunning = ''running''"
| "operator_state_string OperatorPausing = ''pausing''"
| "operator_state_string OperatorResumed = ''resumed''"

record operator_spec =
  os_name :: string
  os_parallelism :: int64
  os_stateful :: bool

record operator_instance =
  oi_spec :: operator_spec
  oi_state :: operator_state
  oi_buffered :: int64

definition new_operator_instance :: "operator_spec \<Rightarrow> operator_instance" where
  "new_operator_instance spec = \<lparr>oi_spec = spec, oi_state = OperatorRunning, oi_buffered = 0\<rparr>"

definition operator_pause :: "operator_instance \<Rightarrow> operator_instance" where
  "operator_pause i = (if oi_state i = OperatorRunning then i\<lparr>oi_state := OperatorPausing\<rparr> else i)"

definition operator_resume :: "operator_instance \<Rightarrow> operator_instance" where
  "operator_resume i = (if oi_state i = OperatorPausing then i\<lparr>oi_state := OperatorResumed\<rparr> else i)"

section \<open>Partitions (partition.go)\<close>

type_synonym partition_id = int64

definition partition_id_string :: "partition_id \<Rightarrow> string" where
  "partition_id_string p = show_int64 p"

record partition_state =
  ps_id :: partition_id
  ps_count :: int64

section \<open>Engine configuration (config.go)\<close>

record engine_config =
  c_window_size_ms :: int64
  c_session_timeout :: int64
  c_partitions :: int64
  c_buffer_size :: int64
  c_checkpoint_every :: int64
  c_idle_timeout_ms :: int64

definition default_config :: engine_config where
  "default_config = \<lparr>c_window_size_ms = 5000, c_session_timeout = 10000, c_partitions = 4,
     c_buffer_size = 256, c_checkpoint_every = 64, c_idle_timeout_ms = 3000\<rparr>"

text \<open>\<open>None\<close> is the nil error; \<open>Some\<close> carries the error's text.\<close>

definition validate_config :: "engine_config \<Rightarrow> string option" where
  "validate_config c =
     (if c_window_size_ms c \<le>s 0 then Some ''window size must be positive''
      else if c_session_timeout c \<le>s 0 then Some ''session timeout must be positive''
      else if c_partitions c \<le>s 0 then Some ''partition count must be positive''
      else if c_buffer_size c \<le>s 0 then Some ''buffer size must be positive''
      else if c_checkpoint_every c \<le>s 0 then Some ''checkpoint interval must be positive''
      else if c_idle_timeout_ms c \<le>s 0 then Some ''idle timeout must be positive''
      else None)"

definition describe_config :: "engine_config \<Rightarrow> string" where
  "describe_config c =
     ''window='' @ show_int64 (c_window_size_ms c) @ ''ms session='' @ show_int64 (c_session_timeout c)
     @ ''ms partitions='' @ show_int64 (c_partitions c) @ '' buffer='' @ show_int64 (c_buffer_size c)
     @ '' checkpoint_every='' @ show_int64 (c_checkpoint_every c)
     @ '' idle='' @ show_int64 (c_idle_timeout_ms c) @ ''ms''"

text \<open>A \<^verbatim>\<open>time.Duration\<close> is an \<open>int64\<close> of nanoseconds.\<close>

definition duration :: "int64 \<Rightarrow> int64" where
  "duration ms = ms * 1000000"

section \<open>Metrics (metrics.go)\<close>

record metrics =
  m_ingested :: int64
  m_aggregated :: int64
  m_emitted :: int64
  m_late_dropped :: int64
  m_checkpoints :: int64
  m_restores :: int64

definition new_metrics :: metrics where
  "new_metrics = \<lparr>m_ingested = 0, m_aggregated = 0, m_emitted = 0, m_late_dropped = 0,
     m_checkpoints = 0, m_restores = 0\<rparr>"

definition add_ingested :: "metrics \<Rightarrow> metrics" where
  "add_ingested m = m\<lparr>m_ingested := m_ingested m + 1\<rparr>"

definition add_aggregated :: "metrics \<Rightarrow> metrics" where
  "add_aggregated m = m\<lparr>m_aggregated := m_aggregated m + 1\<rparr>"

definition add_emitted :: "metrics \<Rightarrow> metrics" where
  "add_emitted m = m\<lparr>m_emitted := m_emitted m + 1\<rparr>"

definition add_late_dropped :: "metrics \<Rightarrow> metrics" where
  "add_late_dropped m = m\<lparr>m_late_dropped := m_late_dropped m + 1\<rparr>"

definition add_checkpoint :: "metrics \<Rightarrow> metrics" where
  "add_checkpoint m = m\<lparr>m_checkpoints := m_checkpoints m + 1\<rparr>"

definition add_restore :: "metrics \<Rightarrow> metrics" where
  "add_restore m = m\<lparr>m_restores := m_restores m + 1\<rparr>"

definition metrics_snapshot :: "metrics \<Rightarrow> (string \<rightharpoonup> int64)" where
  "metrics_snapshot m = [''ingested'' \<mapsto> m_ingested m, ''aggregated'' \<mapsto> m_aggregated m,
     ''emitted'' \<mapsto> m_emitted m, ''late_dropped'' \<mapsto> m_late_dropped m,
     ''checkpoints'' \<mapsto> m_checkpoints m, ''restores'' \<mapsto> m_restores m]"

end
