(* ===== verification/Results.thy ===== *)
theory Results
  imports Model
begin

text \<open>
  Facts about \<^verbatim>\<open>WindowResult.Apply\<close> and
  \<^verbatim>\<open>ApplyLate\<close>: the effect of each on every field, the result of folding
  a whole list of values, rendering of window identities, and the properties of the small state
  machines and the configuration of package \<^verbatim>\<open>internal/model\<close>.
\<close>

section \<open>Fields after one fold step\<close>

lemma apply_value_simps [simp]:
  "r_window (apply_value v r) = r_window r"
  "r_count (apply_value v r) = r_count r + 1"
  "r_sum (apply_value v r) = r_sum r + v"
  "r_min (apply_value v r) = (if r_count r + 1 = 1 \<or> v <s r_min r then v else r_min r)"
  "r_max (apply_value v r) = (if r_max r <s v then v else r_max r)"
  "r_emitted (apply_value v r) = r_emitted r"
  "r_late_count (apply_value v r) = r_late_count r"
  "r_late_sum (apply_value v r) = r_late_sum r"
  by (auto simp: apply_value_def Let_def)

lemma apply_late_simps [simp]:
  "r_window (apply_late v r) = r_window r"
  "r_count (apply_late v r) = r_count r"
  "r_sum (apply_late v r) = r_sum r"
  "r_min (apply_late v r) = r_min r"
  "r_max (apply_late v r) = r_max r"
  "r_emitted (apply_late v r) = r_emitted r"
  "r_late_count (apply_late v r) = r_late_count r + 1"
  "r_late_sum (apply_late v r) = r_late_sum r + v"
  by (simp_all add: apply_late_def)

lemma fresh_result_simps [simp]:
  "r_window (fresh_result w) = w" "r_count (fresh_result w) = 0" "r_sum (fresh_result w) = 0"
  "r_min (fresh_result w) = 0" "r_max (fresh_result w) = 0" "r_emitted (fresh_result w) = False"
  "r_late_count (fresh_result w) = 0" "r_late_sum (fresh_result w) = 0"
  by (simp_all add: fresh_result_def)

section \<open>Folding a list of values\<close>

text \<open>The loop \<^verbatim>\<open>for _, value := range values { r.Apply(value) }\<close>.\<close>

definition apply_values :: "int64 list \<Rightarrow> window_result \<Rightarrow> window_result" where
  "apply_values vs r = fold apply_value vs r"

lemma apply_values_frame [simp]:
  "r_window (apply_values vs r) = r_window r"
  "r_emitted (apply_values vs r) = r_emitted r"
  "r_late_count (apply_values vs r) = r_late_count r"
  "r_late_sum (apply_values vs r) = r_late_sum r"
  unfolding apply_values_def by (induction vs arbitrary: r) simp_all

lemma apply_values_count [simp]: "r_count (apply_values vs r) = r_count r + of_nat (length vs)"
  unfolding apply_values_def by (induction vs arbitrary: r) simp_all

lemma apply_values_sum [simp]: "r_sum (apply_values vs r) = r_sum r + sum_list vs"
  unfolding apply_values_def by (induction vs arbitrary: r) (simp_all add: add.assoc)

lemma apply_values_max:
  "sint (r_max (apply_values vs r)) = Max (insert (sint (r_max r)) (sint ` set vs))"
proof (induction vs arbitrary: r)
  case Nil
  then show ?case by (simp add: apply_values_def)
next
  case (Cons v vs)
  have "sint (r_max (apply_values (v # vs) r)) = sint (r_max (apply_values vs (apply_value v r)))"
    by (simp add: apply_values_def)
  also have "\<dots> = Max (insert (max (sint (r_max r)) (sint v)) (sint ` set vs))"
    by (simp add: Cons.IH go_int max_def)
  also have "\<dots> = Max (insert (sint (r_max r)) (sint ` set (v # vs)))"
    by (cases "set vs = {}") (simp_all add: max.assoc)
  finally show ?case .
qed

text \<open>
  The minimum is taken over the values already seen, which the counter identifies: the first
  value replaces the zero of a fresh result. A wrapped counter would identify a later value as
  the first, hence the bound on the number of values.
\<close>

lemma apply_values_min_seen:
  assumes "r_count r = of_nat n" "0 < n" "n + length vs < 2 ^ 64"
  shows "sint (r_min (apply_values vs r)) = Min (insert (sint (r_min r)) (sint ` set vs))"
  using assms
proof (induction vs arbitrary: r n)
  case Nil
  then show ?case by (simp add: apply_values_def)
next
  case (Cons v vs)
  have "r_count r + 1 \<noteq> 1"
  proof
    assume "r_count r + 1 = 1"
    then have "(of_nat n :: int64) = 0" using Cons.prems(1) by simp
    then have "2 ^ 64 dvd n" by (simp add: word_of_nat_eq_0_iff)
    then show False using Cons.prems(2,3) by (auto dest: dvd_imp_le)
  qed
  then have step: "sint (r_min (apply_value v r)) = min (sint (r_min r)) (sint v)"
    by (simp add: go_int min_def)
  have "sint (r_min (apply_values (v # vs) r)) = sint (r_min (apply_values vs (apply_value v r)))"
    by (simp add: apply_values_def)
  also have "\<dots> = Min (insert (sint (r_min (apply_value v r))) (sint ` set vs))"
    by (rule Cons.IH [where n = "Suc n"]) (use Cons.prems in simp_all)
  also have "\<dots> = Min (insert (min (sint (r_min r)) (sint v)) (sint ` set vs))"
    unfolding step ..
  also have "\<dots> = Min (insert (sint (r_min r)) (sint ` set (v # vs)))"
    by (cases "set vs = {}") (simp_all add: min.assoc del: apply_value_simps)
  finally show ?case .
qed

lemma apply_values_min_fresh:
  assumes "r_count r = 0" "vs \<noteq> []" "length vs < 2 ^ 64"
  shows "sint (r_min (apply_values vs r)) = Min (sint ` set vs)"
proof -
  from assms(2) obtain v vs' where vs: "vs = v # vs'" by (cases vs) auto
  have "sint (r_min (apply_values vs' (apply_value v r))) =
        Min (insert (sint (r_min (apply_value v r))) (sint ` set vs'))"
    using assms(1,3) by (intro apply_values_min_seen [where n = 1]) (simp_all add: vs)
  then show ?thesis using assms(1) by (simp add: vs apply_values_def)
qed

section \<open>Operators and configuration\<close>

text \<open>A run of pauses (\<open>True\<close>) and resumes (\<open>False\<close>) on one operator instance.\<close>

definition operator_run :: "bool list \<Rightarrow> operator_instance \<Rightarrow> operator_instance" where
  "operator_run cmds i = fold (\<lambda>c i. if c then operator_pause i else operator_resume i) cmds i"

lemma operator_run_resumed:
  "oi_state i = OperatorResumed \<Longrightarrow> operator_run cmds i = i"
  unfolding operator_run_def
  by (induction cmds arbitrary: i) (simp_all add: operator_pause_def operator_resume_def)

section \<open>Properties\<close>

text \<open>A window result folded from the empty result by \<^verbatim>\<open>Apply\<close> over
  a non-empty list of values carries the number of values, their wrap-around sum and their
  smallest value; the late fields and the emission flag are untouched.\<close>

theorem fold_of_values_correct:
  assumes "vs \<noteq> []" and "length vs < 2 ^ 64"
  shows "let r = fold apply_value vs (fresh_result w) in
           r_window r = w \<and> unat (r_count r) = length vs \<and> r_sum r = sum_list vs \<and>
           sint (r_min r) = Min (sint ` set vs) \<and>
           \<not> r_emitted r \<and> r_late_count r = 0 \<and> r_late_sum r = 0"
proof -
  have "unat (of_nat (length vs) :: int64) = length vs"
    using assms(2) by (simp add: unat_of_nat64)
  moreover have "sint (r_min (apply_values vs (fresh_result w))) = Min (sint ` set vs)"
    using assms by (intro apply_values_min_fresh) simp_all
  ultimately show ?thesis
    unfolding apply_values_def [symmetric] by simp
qed

theorem fold_of_values_correct_witness:
  "unat (r_count (fold apply_value [5, 3, -2] (fresh_result \<lparr>w_start = 0, w_end = 100, w_key = ''''\<rparr>))) = 3
   \<and> r_sum (fold apply_value [5, 3, -2] (fresh_result \<lparr>w_start = 0, w_end = 100, w_key = ''''\<rparr>)) = 6"
  using fold_of_values_correct [of "[5, 3, -2]" "\<lparr>w_start = 0, w_end = 100, w_key = ''''\<rparr>"]
  by (simp add: Let_def)

text \<open>The maximum field of a folded result is the largest of zero and the values: the
  running maximum starts at zero and, unlike the minimum, the first value does not replace it,
  so a window holding only negative values publishes the maximum 0.\<close>

theorem fold_max_floors_at_zero:
  "sint (r_max (fold apply_value vs (fresh_result w))) = Max (insert 0 (sint ` set vs))"
  using apply_values_max [of vs "fresh_result w"] by (simp add: apply_values_def)

text \<open>An operator instance that has been paused and resumed once never reports another
  state, whatever pauses and resumes follow: the machine running, pausing, resumed is not
  cyclic.\<close>

theorem operator_stuck_after_first_cycle:
  "oi_state (operator_run (True # False # cmds) (new_operator_instance spec)) = OperatorResumed"
proof -
  have "operator_run (True # False # cmds) (new_operator_instance spec) =
        operator_run cmds (new_operator_instance spec\<lparr>oi_state := OperatorResumed\<rparr>)"
    by (simp add: operator_run_def operator_pause_def operator_resume_def new_operator_instance_def)
  then show ?thesis by (simp add: operator_run_resumed)
qed

text \<open>\<^verbatim>\<open>Validate\<close> accepts a configuration exactly when all six
  parameters are positive.\<close>

theorem validate_config_iff_positive:
  "validate_config c = None \<longleftrightarrow>
     0 < sint (c_window_size_ms c) \<and> 0 < sint (c_session_timeout c) \<and> 0 < sint (c_partitions c)
     \<and> 0 < sint (c_buffer_size c) \<and> 0 < sint (c_checkpoint_every c) \<and> 0 < sint (c_idle_timeout_ms c)"
  by (auto simp: validate_config_def go_int split: if_splits)

end
