(* ===== verification/Watermark.thy ===== *)
theory Watermark
  imports Model
begin

text \<open>
  Package \<^verbatim>\<open>internal/watermark\<close>: the tracker with its tentative and
  confirmed frontier, the idle detector and the observer fanout. The contract the source and the
  window triggers rely on is the locale \<open>frontier\<close>, interpreted on the tracker.
\<close>

section \<open>Tracker (watermark.go)\<close>

record tracker =
  t_current :: int64
  t_confirmed :: int64

definition new_tracker :: "int64 \<Rightarrow> tracker" where
  "new_tracker epoch = \<lparr>t_current = epoch, t_confirmed = epoch\<rparr>"

definition tracker_advance :: "int64 \<Rightarrow> tracker \<Rightarrow> tracker" where
  "tracker_advance ts t = (if t_current t <s ts then t\<lparr>t_current := ts\<rparr> else t)"

definition tracker_confirm :: "tracker \<Rightarrow> tracker" where
  "tracker_confirm t = (if t_confirmed t <s t_current t then t\<lparr>t_confirmed := t_current t\<rparr> else t)"

definition confirmed_of :: "tracker \<Rightarrow> int64" where
  "confirmed_of t = t_confirmed t"

definition current_of :: "tracker \<Rightarrow> int64" where
  "current_of t = t_current t"

definition tracker_lag :: "tracker \<Rightarrow> int64" where
  "tracker_lag t = t_current t - t_confirmed t"

record watermark =
  wm_current :: int64
  wm_confirmed :: int64

definition tracker_snapshot :: "tracker \<Rightarrow> watermark" where
  "tracker_snapshot t = \<lparr>wm_current = t_current t, wm_confirmed = t_confirmed t\<rparr>"

section \<open>Idle detector (idle.go)\<close>

record idle_detector =
  i_last_event :: int64
  i_gap_ms :: int64
  i_fired :: int64

definition new_idle_detector :: "int64 \<Rightarrow> idle_detector" where
  "new_idle_detector gap = \<lparr>i_last_event = 0, i_gap_ms = gap, i_fired = 0\<rparr>"

definition note_event :: "int64 \<Rightarrow> idle_detector \<Rightarrow> idle_detector" where
  "note_event engine_time d = d\<lparr>i_last_event := engine_time\<rparr>"

definition should_advance :: "int64 \<Rightarrow> idle_detector \<Rightarrow> (int64 \<times> bool) \<times> idle_detector" where
  "should_advance now d =
     (if now - i_last_event d <s i_gap_ms d then ((0, False), d)
      else ((now, True), d\<lparr>i_fired := i_fired d + 1\<rparr>))"

definition idle_fired :: "idle_detector \<Rightarrow> int64" where
  "idle_fired d = i_fired d"

section \<open>Fanout (observer.go)\<close>

text \<open>An observer is what its \<^verbatim>\<open>OnWatermarkConfirmed\<close> does to the state
  it is attached to.\<close>

type_synonym 'p observer = "int64 \<Rightarrow> 'p \<Rightarrow> 'p"
type_synonym 'p fanout = "'p observer list"

definition new_fanout :: "'p fanout" where
  "new_fanout = []"

definition fanout_add :: "'p observer \<Rightarrow> 'p fanout \<Rightarrow> 'p fanout" where
  "fanout_add ob f = f @ [ob]"

definition fanout_notify :: "'p fanout \<Rightarrow> int64 \<Rightarrow> 'p \<Rightarrow> 'p" where
  "fanout_notify f confirmed p = fold (\<lambda>ob p. ob confirmed p) f p"

definition fanout_count :: "'p fanout \<Rightarrow> nat" where
  "fanout_count f = length f"

section \<open>The frontier contract\<close>

text \<open>
  What the source and the triggers use: advancing is invisible to the readers of the confirmed
  value, confirming publishes exactly the tentative frontier, and neither value moves back.
\<close>

locale frontier =
  fixes advance :: "int64 \<Rightarrow> 't \<Rightarrow> 't"
    and confirm :: "'t \<Rightarrow> 't"
    and current :: "'t \<Rightarrow> int64"
    and confirmed :: "'t \<Rightarrow> int64"
    and ok :: "'t \<Rightarrow> bool"
  assumes ok_order: "ok t \<Longrightarrow> sint (confirmed t) \<le> sint (current t)"
    and ok_advance: "ok t \<Longrightarrow> ok (advance ts t)"
    and ok_confirm: "ok t \<Longrightarrow> ok (confirm t)"
    and advance_current: "sint (current (advance ts t)) = max (sint (current t)) (sint ts)"
    and advance_hidden: "confirmed (advance ts t) = confirmed t"
    and confirm_current: "current (confirm t) = current t"
    and confirm_publishes: "ok t \<Longrightarrow> confirmed (confirm t) = current t"
begin

lemma handshake:
  assumes "ok t"
  shows "sint (confirmed (confirm (advance ts t))) = max (sint (current t)) (sint ts)"
  using assms by (simp add: confirm_publishes ok_advance advance_current)

lemma handshake_reaches: "ok t \<Longrightarrow> sint ts \<le> sint (confirmed (confirm (advance ts t)))"
  by (simp add: handshake)

lemma handshake_mono: "ok t \<Longrightarrow> sint (confirmed t) \<le> sint (confirmed (confirm (advance ts t)))"
  using ok_order [of t] by (simp add: handshake)

lemma confirm_mono: "ok t \<Longrightarrow> sint (confirmed t) \<le> sint (confirmed (confirm t))"
  by (simp add: confirm_publishes ok_order)

end

definition tracker_ok :: "tracker \<Rightarrow> bool" where
  "tracker_ok t \<longleftrightarrow> t_confirmed t \<le>s t_current t"

lemma tracker_ok_new [inv_intro]: "tracker_ok (new_tracker e)"
  by (simp add: tracker_ok_def new_tracker_def go_int)

interpretation wm: frontier tracker_advance tracker_confirm current_of confirmed_of tracker_ok
  by unfold_locales
    (auto simp: tracker_ok_def tracker_advance_def tracker_confirm_def current_of_def
      confirmed_of_def go_int sint_inject64 intro: order.antisym)

lemmas [inv_intro] = wm.ok_advance wm.ok_confirm

section \<open>Runs of the tracker\<close>

datatype tracker_op = TAdvance int64 | TConfirm

fun tracker_step :: "tracker_op \<Rightarrow> tracker \<Rightarrow> tracker" where
  "tracker_step (TAdvance ts) t = tracker_advance ts t"
| "tracker_step TConfirm t = tracker_confirm t"

definition tracker_run :: "tracker_op list \<Rightarrow> tracker \<Rightarrow> tracker" where
  "tracker_run ops t = fold tracker_step ops t"

text \<open>The timestamps advanced to, and the operations up to the last confirm.\<close>

definition advanced :: "tracker_op list \<Rightarrow> int64 set" where
  "advanced ops = {ts. TAdvance ts \<in> set ops}"

definition confirmed_prefix :: "tracker_op list \<Rightarrow> tracker_op list" where
  "confirmed_prefix ops = rev (dropWhile (\<lambda>op. op \<noteq> TConfirm) (rev ops))"

lemma advanced_simps [simp]:
  "advanced [] = {}"
  "advanced (ops @ [TAdvance ts]) = insert ts (advanced ops)"
  "advanced (ops @ [TConfirm]) = advanced ops"
  by (auto simp: advanced_def)

lemma confirmed_prefix_simps [simp]:
  "confirmed_prefix [] = []"
  "confirmed_prefix (ops @ [TAdvance ts]) = confirmed_prefix ops"
  "confirmed_prefix (ops @ [TConfirm]) = ops @ [TConfirm]"
  by (simp_all add: confirmed_prefix_def)

lemma finite_advanced [simp]: "finite (advanced ops)"
proof -
  have "advanced ops \<subseteq> (\<lambda>op. case op of TAdvance ts \<Rightarrow> ts | TConfirm \<Rightarrow> 0) ` set ops"
    by (force simp: advanced_def)
  then show ?thesis by (rule finite_subset) simp
qed

lemma tracker_run_snoc [simp]: "tracker_run (ops @ [op]) t = tracker_step op (tracker_run ops t)"
  by (simp add: tracker_run_def)

lemma tracker_run_ok [inv_intro]: "tracker_ok t \<Longrightarrow> tracker_ok (tracker_run ops t)"
proof (induction ops rule: rev_induct)
  case (snoc op ops)
  then show ?case by (cases op) (simp_all add: inv_intro)
qed (simp add: tracker_run_def)

lemma tracker_run_current:
  "sint (current_of (tracker_run ops (new_tracker e))) = Max (insert (sint e) (sint ` advanced ops))"
proof (induction ops rule: rev_induct)
  case Nil
  then show ?case by (simp add: tracker_run_def new_tracker_def current_of_def)
next
  case (snoc op ops)
  then show ?case
    by (cases op) (simp_all add: wm.advance_current wm.confirm_current insert_commute max.commute)
qed

section \<open>Properties\<close>

text \<open>C33: whatever the order of advances and confirms, the tentative frontier of a tracker is
  the largest timestamp advanced to (or the epoch), and the confirmed watermark is the largest
  one advanced to before the last confirm: a frontier that was only advanced to is never
  published.\<close>

theorem tracker_refines_history:
  "sint (current_of (tracker_run ops (new_tracker e))) = Max (insert (sint e) (sint ` advanced ops))
   \<and> sint (confirmed_of (tracker_run ops (new_tracker e))) =
       Max (insert (sint e) (sint ` advanced (confirmed_prefix ops)))"
proof (induction ops rule: rev_induct)
  case Nil
  then show ?case by (simp add: tracker_run_def new_tracker_def current_of_def confirmed_of_def)
next
  case (snoc op ops)
  have "tracker_ok (tracker_run ops (new_tracker e))" by (intro inv_intro)
  then show ?case
    using snoc tracker_run_current [of "ops @ [op]" e] tracker_run_current [of ops e]
    by (cases op) (simp_all add: wm.advance_hidden wm.confirm_publishes wm.confirm_current)
qed

text \<open>The lag of a tracker whose epoch is not negative is never negative, and it is zero
  right after a confirm.\<close>

theorem tracker_lag_nonneg:
  assumes "0 \<le> sint e"
  shows "0 \<le> sint (tracker_lag (tracker_run ops (new_tracker e)))
         \<and> tracker_lag (tracker_confirm (tracker_run ops (new_tracker e))) = 0"
proof -
  let ?t = "tracker_run ops (new_tracker e)"
  have ok: "tracker_ok ?t" by (intro inv_intro)
  have lo: "0 \<le> sint (t_confirmed ?t)"
    using assms tracker_run_current [of "confirmed_prefix ops" e]
  proof (induction ops rule: rev_induct)
    case Nil
    then show ?case by (simp add: tracker_run_def new_tracker_def)
  next
    case (snoc op ops)
    have "tracker_ok (tracker_run ops (new_tracker e))" by (intro inv_intro)
    with snoc show ?case
      using tracker_run_current [of "confirmed_prefix ops" e]
      by (cases op) (auto simp: tracker_advance_def tracker_confirm_def tracker_ok_def go_int)
  qed
  have "sint (tracker_lag ?t) = sint (t_current ?t) - sint (t_confirmed ?t)"
    unfolding tracker_lag_def
    using lo ok sint_range64 [of "t_current ?t"] by (intro sint_diff64) (auto simp: tracker_ok_def go_int)
  moreover have "tracker_lag (tracker_confirm ?t) = 0"
    using wm.confirm_publishes [OF ok] wm.confirm_current [of ?t]
    by (simp add: tracker_lag_def confirmed_of_def current_of_def)
  ultimately show ?thesis using ok by (simp add: tracker_ok_def go_int)
qed

theorem tracker_lag_nonneg_witness:
  "0 \<le> sint (tracker_lag (tracker_run [TAdvance 150, TConfirm, TAdvance 200] (new_tracker 0)))"
  using tracker_lag_nonneg [of 0 "[TAdvance 150, TConfirm, TAdvance 200]"] by simp

text \<open>The idle detector fires exactly when the time since the last event reaches the gap
  (a gap that is exactly met already fires), returns the current time, and counts each firing.\<close>

theorem idle_fires_iff_gap_reached:
  assumes "in_int64 (sint now - sint (i_last_event d))"
  shows "fst (should_advance now d) =
           (if sint (i_gap_ms d) \<le> sint now - sint (i_last_event d) then (now, True) else (0, False))
         \<and> idle_fired (snd (should_advance now d)) =
             idle_fired d + of_bool (sint (i_gap_ms d) \<le> sint now - sint (i_last_event d))"
  using sint_diff64 [OF assms] by (auto simp: should_advance_def idle_fired_def go_int)

theorem idle_fires_iff_gap_reached_witness:
  "fst (should_advance 4000 (note_event 1000 (new_idle_detector 3000))) = (4000, True)"
  using idle_fires_iff_gap_reached [of 4000 "note_event 1000 (new_idle_detector 3000)"]
  by (simp add: note_event_def new_idle_detector_def)

end
