(* ===== verification/Go_Heap.thy ===== *)
theory Go_Heap
  imports Prelude
begin

text \<open>
  The part of Go's \<^verbatim>\<open>container/heap\<close> that the reorder buffer uses, over a
  list and a key: \<open>heap.Push\<close> appends and sifts up, \<open>heap.Pop\<close> swaps the root with
  the last element, sifts down within the shortened prefix and removes the last element. The
  invariant says that no element is smaller than its parent; while a sift runs it is weakened at
  one index.
\<close>

section \<open>Operations\<close>

definition swap :: "nat \<Rightarrow> nat \<Rightarrow> 'a list \<Rightarrow> 'a list" where
  "swap i j h = h[i := h ! j, j := h ! i]"

text \<open>\<^verbatim>\<open>up(h, j)\<close>: stops at the root, where the parent index is the index
  itself, or at an element that is not less than its parent.\<close>

function heap_up :: "('a \<Rightarrow> int) \<Rightarrow> nat \<Rightarrow> 'a list \<Rightarrow> 'a list" where
  "heap_up key j h =
     (let i = (j - 1) div 2
      in if i = j \<or> \<not> key (h ! j) < key (h ! i) then h else heap_up key i (swap i j h))"
  by pat_completeness auto
termination
  by (relation "measure (\<lambda>(key, j, h). j)") auto

declare heap_up.simps [simp del]

text \<open>\<^verbatim>\<open>down(h, i, n)\<close>: swaps with the smaller child below \<open>n\<close> while it is
  less than the element.\<close>

definition least_child :: "('a \<Rightarrow> int) \<Rightarrow> nat \<Rightarrow> nat \<Rightarrow> 'a list \<Rightarrow> nat" where
  "least_child key i n h =
     (let j1 = 2 * i + 1; j2 = j1 + 1
      in if j2 < n \<and> key (h ! j2) < key (h ! j1) then j2 else j1)"

function heap_down :: "('a \<Rightarrow> int) \<Rightarrow> nat \<Rightarrow> nat \<Rightarrow> 'a list \<Rightarrow> 'a list" where
  "heap_down key i n h =
     (if n \<le> 2 * i + 1 then h
      else let j = least_child key i n h
           in if \<not> key (h ! j) < key (h ! i) then h else heap_down key j n (swap i j h))"
  by pat_completeness auto
termination
  by (relation "measure (\<lambda>(key, i, n, h). n - i)") (auto simp: least_child_def Let_def split: if_splits)

declare heap_down.simps [simp del]

definition heap_push :: "('a \<Rightarrow> int) \<Rightarrow> 'a \<Rightarrow> 'a list \<Rightarrow> 'a list" where
  "heap_push key x h = (let h' = h @ [x] in heap_up key (length h' - 1) h')"

text \<open>Popping an empty heap indexes out of range.\<close>

definition heap_pop :: "('a \<Rightarrow> int) \<Rightarrow> 'a list \<Rightarrow> ('a \<times> 'a list) go" where
  "heap_pop key h =
     (if h = [] then Inl IndexOutOfRange
      else let n = length h - 1; h' = heap_down key 0 n (swap 0 n h)
           in Inr (h' ! n, take n h'))"

section \<open>Swaps\<close>

lemma length_swap [simp]: "length (swap i j h) = length h"
  by (simp add: swap_def)

lemma mset_swap64 [simp]: "i < length h \<Longrightarrow> j < length h \<Longrightarrow> mset (swap i j h) = mset h"
  by (simp add: swap_def mset_swap)

lemma nth_swap:
  "i < length h \<Longrightarrow> j < length h \<Longrightarrow>
   swap i j h ! k = (if k = i then h ! j else if k = j then h ! i else h ! k)"
  by (auto simp: swap_def nth_list_update)

section \<open>The heap invariant\<close>

text \<open>Order of every element below \<open>n\<close> with its parent, except for the pairs excluded.\<close>

definition heap_upto :: "('a \<Rightarrow> int) \<Rightarrow> nat \<Rightarrow> 'a list \<Rightarrow> bool" where
  "heap_upto key n h \<longleftrightarrow> (\<forall>k. 0 < k \<and> k < n \<longrightarrow> key (h ! ((k - 1) div 2)) \<le> key (h ! k))"

abbreviation is_heap :: "('a \<Rightarrow> int) \<Rightarrow> 'a list \<Rightarrow> bool" where
  "is_heap key h \<equiv> heap_upto key (length h) h"

text \<open>While sifting up at \<open>j\<close>: only the pair of \<open>j\<close> with its parent may be wrong, and the
  children of \<open>j\<close> are in order with its parent.\<close>

definition heap_but_up :: "('a \<Rightarrow> int) \<Rightarrow> nat \<Rightarrow> 'a list \<Rightarrow> bool" where
  "heap_but_up key j h \<longleftrightarrow>
     (\<forall>k. 0 < k \<and> k < length h \<longrightarrow>
        (k \<noteq> j \<longrightarrow> key (h ! ((k - 1) div 2)) \<le> key (h ! k)) \<and>
        ((k - 1) div 2 = j \<and> 0 < j \<longrightarrow> key (h ! ((j - 1) div 2)) \<le> key (h ! k)))"

text \<open>While sifting down at \<open>i\<close>: only the pairs of \<open>i\<close> with its children may be wrong, and
  those children are in order with the parent of \<open>i\<close>.\<close>

definition heap_but_down :: "('a \<Rightarrow> int) \<Rightarrow> nat \<Rightarrow> nat \<Rightarrow> 'a list \<Rightarrow> bool" where
  "heap_but_down key i n h \<longleftrightarrow>
     (\<forall>k. 0 < k \<and> k < n \<longrightarrow>
        ((k - 1) div 2 \<noteq> i \<longrightarrow> key (h ! ((k - 1) div 2)) \<le> key (h ! k)) \<and>
        ((k - 1) div 2 = i \<and> 0 < i \<longrightarrow> key (h ! ((i - 1) div 2)) \<le> key (h ! k)))"

lemma heap_root_least:
  assumes "heap_upto key n h" "k < n"
  shows "key (h ! 0) \<le> key (h ! k)"
  using assms(2)
proof (induction k rule: less_induct)
  case (less k)
  show ?case
  proof (cases "k = 0")
    case False
    then have "key (h ! 0) \<le> key (h ! ((k - 1) div 2))"
      using less by (intro less.IH) auto
    also have "\<dots> \<le> key (h ! k)"
      using assms(1) less.prems False by (simp add: heap_upto_def)
    finally show ?thesis .
  qed simp
qed

section \<open>Sifting up\<close>

lemma heap_but_up_swap:
  assumes inv: "heap_but_up key j h" and j: "0 < j" "j < length h"
    and lt: "key (h ! j) < key (h ! ((j - 1) div 2))"
  shows "heap_but_up key ((j - 1) div 2) (swap ((j - 1) div 2) j h)"
proof -
  define i where "i = (j - 1) div 2"
  let ?i = i let ?h = "swap i j h"
  have i: "?i < j" "?i < length h" using j by (auto simp: i_def)
  note lt = lt [folded i_def]
  have at: "?h ! m = (if m = ?i then h ! j else if m = j then h ! ?i else h ! m)" for m
    using i j by (simp add: nth_swap)
  have ord: "key (h ! ((k - 1) div 2)) \<le> key (h ! k)" if "0 < k" "k < length h" "k \<noteq> j" for k
    using inv that by (simp add: heap_but_up_def)
  have skip: "key (h ! ?i) \<le> key (h ! k)" if "0 < k" "k < length h" "(k - 1) div 2 = j" for k
    using inv that j by (auto simp: heap_but_up_def i_def)
  have "heap_but_up key i ?h"
    unfolding heap_but_up_def
  proof (intro allI impI conjI)
    fix k assume k: "0 < k \<and> k < length ?h" and ki: "k \<noteq> ?i"
    show "key (?h ! ((k - 1) div 2)) \<le> key (?h ! k)"
    proof (cases "k = j")
      case True
      then have "(k - 1) div 2 = i" by (simp add: i_def)
      then show ?thesis using lt True by (simp add: at)
    next
      case False
      then show ?thesis
        using ord [of k] skip [of k] k ki lt by (auto simp: at)
    qed
  next
    fix k assume k: "0 < k \<and> k < length ?h" and c: "(k - 1) div 2 = ?i \<and> 0 < ?i"
    have up: "key (h ! ((?i - 1) div 2)) \<le> key (h ! ?i)" using ord [of ?i] i c by simp
    have "0 < i" using c by simp
    then have pp: "(?i - 1) div 2 \<noteq> ?i" "(?i - 1) div 2 \<noteq> j" using i(1) by arith+
    have "k \<noteq> ?i" using c by auto
    then have "key (h ! ?i) \<le> key (?h ! k)"
      using ord [of k] k c by (cases "k = j") (auto simp: at)
    then show "key (?h ! ((?i - 1) div 2)) \<le> key (?h ! k)"
      using up pp by (simp add: at)
  qed
  then show ?thesis by (simp add: i_def)
qed

lemma heap_up_facts:
  assumes "heap_but_up key j h" "j < length h"
  shows "is_heap key (heap_up key j h) \<and> mset (heap_up key j h) = mset h"
  using assms
proof (induction key j h rule: heap_up.induct)
  case (1 key j h)
  let ?i = "(j - 1) div 2"
  show ?case
  proof (cases "?i = j \<or> \<not> key (h ! j) < key (h ! ?i)")
    case True
    have "key (h ! ((k - 1) div 2)) \<le> key (h ! k)" if "0 < k" "k < length h" for k
    proof (cases "k = j")
      case True
      then show ?thesis using that \<open>?i = j \<or> _\<close> by auto
    next
      case False
      then show ?thesis using 1(2) that by (simp add: heap_but_up_def)
    qed
    then show ?thesis using True by (simp add: heap_up.simps [of key j h] heap_upto_def)
  next
    case False
    then have j: "0 < j" by (cases j) auto
    have "heap_but_up key ?i (swap ?i j h)"
      using 1(2,3) j False by (intro heap_but_up_swap) auto
    with False 1(1) [OF refl] 1(3) show ?thesis
      by (simp add: heap_up.simps [of key j h] Let_def)
  qed
qed

section \<open>Sifting down\<close>

lemma least_child_facts:
  assumes "2 * i + 1 < n"
  shows "least_child key i n h < n" "(least_child key i n h - 1) div 2 = i" "i < least_child key i n h"
    and "(k - 1) div 2 = i \<Longrightarrow> 0 < k \<Longrightarrow> k < n \<Longrightarrow> key (h ! least_child key i n h) \<le> key (h ! k)"
proof -
  show "least_child key i n h < n" "(least_child key i n h - 1) div 2 = i" "i < least_child key i n h"
    using assms by (auto simp: least_child_def Let_def)
  assume k: "(k - 1) div 2 = i" "0 < k" "k < n"
  then have "k = 2 * i + 1 \<or> k = 2 * i + 1 + 1" by arith
  then show "key (h ! least_child key i n h) \<le> key (h ! k)"
    using k by (auto simp: least_child_def Let_def)
qed

lemma heap_but_down_swap:
  assumes inv: "heap_but_down key i n h" and n: "n \<le> length h" "2 * i + 1 < n"
    and lt: "key (h ! least_child key i n h) < key (h ! i)"
  shows "heap_but_down key (least_child key i n h) n (swap i (least_child key i n h) h)"
proof -
  define j where "j = least_child key i n h"
  let ?h = "swap i j h"
  note lc = least_child_facts [OF n(2), where key = key and h = h, folded j_def]
  have at: "?h ! m = (if m = i then h ! j else if m = j then h ! i else h ! m)" for m
    using lc n by (simp add: nth_swap)
  have ord: "key (h ! ((k - 1) div 2)) \<le> key (h ! k)" if "0 < k" "k < n" "(k - 1) div 2 \<noteq> i" for k
    using inv that by (simp add: heap_but_down_def)
  have skip: "key (h ! ((i - 1) div 2)) \<le> key (h ! k)" if "0 < k" "k < n" "(k - 1) div 2 = i" "0 < i" for k
    using inv that by (auto simp: heap_but_down_def)
  have "heap_but_down key j n ?h"
    unfolding heap_but_down_def
  proof (intro allI impI conjI)
    fix k assume k: "0 < k \<and> k < n" and kj: "(k - 1) div 2 \<noteq> j"
    show "key (?h ! ((k - 1) div 2)) \<le> key (?h ! k)"
    proof (cases "(k - 1) div 2 = i")
      case True
      have "k \<noteq> i" using True k by auto
      then show ?thesis
        unfolding True using lc(4) [of k] True k lt [folded j_def] by (auto simp: at)
    next
      case False
      then have "k \<noteq> j" using lc(2) by auto
      then show ?thesis using False kj ord [of k] skip [of j] k lc by (auto simp: at)
    qed
  next
    fix k assume k: "0 < k \<and> k < n" and c: "(k - 1) div 2 = j \<and> 0 < j"
    have "key (h ! j) \<le> key (h ! k)" using ord [of k] k c lc(3) by auto
    moreover have "k \<noteq> i" "k \<noteq> j" using c lc(3) k by auto
    ultimately show "key (?h ! ((j - 1) div 2)) \<le> key (?h ! k)"
      using lc(2,3) by (simp add: at)
  qed
  then show ?thesis by (simp add: j_def)
qed

lemma heap_down_facts:
  assumes "heap_but_down key i n h" "n \<le> length h" "i < n \<or> n = 0"
  shows "heap_upto key n (heap_down key i n h) \<and> mset (heap_down key i n h) = mset h
         \<and> (\<forall>k. n \<le> k \<and> k < length h \<longrightarrow> heap_down key i n h ! k = h ! k)"
  using assms
proof (induction key i n h rule: heap_down.induct)
  case (1 key i n h)
  let ?j = "least_child key i n h"
  show ?case
  proof (cases "n \<le> 2 * i + 1 \<or> \<not> key (h ! ?j) < key (h ! i)")
    case True
    have "key (h ! ((k - 1) div 2)) \<le> key (h ! k)" if k: "0 < k" "k < n" for k
    proof (cases "(k - 1) div 2 = i")
      case c: True
      then have "2 * i + 1 < n" using k by arith
      then show ?thesis
        using least_child_facts(4) [of i n k, where key = key and h = h] True c k by fastforce
    next
      case False
      then show ?thesis using 1(2) k by (simp add: heap_but_down_def)
    qed
    moreover have "heap_down key i n h = h"
      using True by (auto simp: heap_down.simps [of key i n h] Let_def)
    ultimately show ?thesis by (simp add: heap_upto_def)
  next
    case False
    then have n: "2 * i + 1 < n" by simp
    note lc = least_child_facts [OF n, where key = key and h = h]
    have eq: "heap_down key i n h = heap_down key ?j n (swap i ?j h)"
      using False by (simp add: heap_down.simps [of key i n h] Let_def)
    have "heap_but_down key ?j n (swap i ?j h)"
      using 1(2,3) n False by (intro heap_but_down_swap) auto
    then show ?thesis
      using 1(1) [OF _ refl] False 1(3) lc unfolding eq by (auto simp: nth_swap)
  qed
qed

section \<open>Push and pop\<close>

lemma heap_push_facts:
  assumes "is_heap key h"
  shows "is_heap key (heap_push key x h)" "mset (heap_push key x h) = add_mset x (mset h)"
proof -
  have "heap_but_up key (length h) (h @ [x])"
    using assms by (auto simp: heap_but_up_def heap_upto_def nth_append less_Suc_eq)
  then show "is_heap key (heap_push key x h)" "mset (heap_push key x h) = add_mset x (mset h)"
    using heap_up_facts [of key "length h" "h @ [x]"] by (simp_all add: heap_push_def)
qed

lemma heap_pop_facts:
  assumes "is_heap key h" "h \<noteq> []"
  obtains x h' where "heap_pop key h = Inr (x, h')" "is_heap key h'" "x = h ! 0"
    "add_mset x (mset h') = mset h" "\<forall>y\<in>set h'. key x \<le> key y"
proof -
  define n where "n = length h - 1"
  define g where "g = heap_down key 0 n (swap 0 n h)"
  have n: "n < length h" using assms(2) by (simp add: n_def)
  have len: "length h = Suc n" using n by (simp add: n_def)
  have "key (swap 0 n h ! ((k - 1) div 2)) \<le> key (swap 0 n h ! k)"
    if "0 < k" "k < n" "(k - 1) div 2 \<noteq> 0" for k
  proof -
    have "(k - 1) div 2 \<noteq> n" "k \<noteq> 0" "k \<noteq> n" using that by auto
    then show ?thesis using assms(1) that n by (simp add: heap_upto_def nth_swap len)
  qed
  then have "heap_but_down key 0 n (swap 0 n h)" by (simp add: heap_but_down_def)
  then have g: "heap_upto key n g" "mset g = mset h" "g ! n = h ! 0"
    using heap_down_facts [of key 0 n "swap 0 n h"] len
    by (cases "n = 0"; auto simp: g_def nth_swap)+
  then have lg: "length g = Suc n" using len by (metis size_mset)
  have split: "g = take n g @ [g ! n]" using lg by (metis lessI take_Suc_conv_app_nth take_all_iff order_refl)
  have ms: "add_mset (g ! n) (mset (take n g)) = mset h"
    using g(2) by (subst (asm) split) simp
  show ?thesis
  proof
    show "heap_pop key h = Inr (g ! n, take n g)"
      using assms(2) by (simp add: heap_pop_def Let_def g_def n_def)
    have "(k - 1) div 2 < n" if "k < n" for k using that by arith
    then show "is_heap key (take n g)"
      using g(1) lg by (simp add: heap_upto_def)
    show "g ! n = h ! 0" by (rule g(3))
    show "add_mset (g ! n) (mset (take n g)) = mset h" by (rule ms)
    have "key (h ! 0) \<le> key y" if "y \<in> set h" for y
      using that assms(1) heap_root_least by (metis in_set_conv_nth)
    moreover have "set (take n g) \<subseteq> set h"
      using ms by (metis set_mset_add_mset_insert set_mset_mset subset_insertI)
    ultimately show "\<forall>y\<in>set (take n g). key (g ! n) \<le> key y" using g(3) by auto
  qed
qed

end
