(* ===== verification/Reorder_Buffer.thy ===== *)
theory Reorder_Buffer
  imports Model Go_Heap
begin

text \<open>
  \<^verbatim>\<open>internal/source/buffer.go\<close>: the bounded buffer that reorders events
  by event time. What the source needs of it is the locale \<open>event_queue\<close>, interpreted on the
  buffer's own operations over the binary heap.
\<close>

section \<open>Operations\<close>

text \<open>The overflow callback acts on a state \<open>'s\<close>; a nil callback is \<open>None\<close>.\<close>

record buffer =
  b_entries :: "event list"
  b_max_size :: int64

type_synonym 's overflow = "(event \<Rightarrow> 's \<Rightarrow> 's) option"

definition event_time :: "event \<Rightarrow> int" where
  "event_time ev = sint (ev_timestamp ev)"

definition new_buffer :: "int64 \<Rightarrow> buffer" where
  "new_buffer max_size = \<lparr>b_entries = [], b_max_size = max_size\<rparr>"

definition buffer_pop_min :: "buffer \<Rightarrow> (event \<times> buffer) go" where
  "buffer_pop_min b =
     go_bind (heap_pop event_time (b_entries b)) (\<lambda>(ev, h). Inr (ev, b\<lparr>b_entries := h\<rparr>))"

text \<open>\<^verbatim>\<open>Add\<close>: the push, then one pop when the buffer exceeds its capacity;
  the popped event goes to the callback, or nowhere when there is none.\<close>

definition buffer_add :: "'s overflow \<Rightarrow> event \<Rightarrow> buffer \<Rightarrow> 's \<Rightarrow> (buffer \<times> 's) go" where
  "buffer_add overflow ev b s =
     (let b1 = b\<lparr>b_entries := heap_push event_time ev (b_entries b)\<rparr>
      in if sint (b_max_size b1) < int (length (b_entries b1)) then
           go_bind (buffer_pop_min b1) (\<lambda>(over, b2).
             Inr (b2, case overflow of None \<Rightarrow> s | Some f \<Rightarrow> f over s))
         else Inr (b1, s))"

definition buffer_min_timestamp :: "buffer \<Rightarrow> int64" where
  "buffer_min_timestamp b =
     (if b_entries b = [] then push_bit 62 1 else ev_timestamp (b_entries b ! 0))"

definition buffer_empty :: "buffer \<Rightarrow> bool" where
  "buffer_empty b \<longleftrightarrow> b_entries b = []"

definition buffer_size :: "buffer \<Rightarrow> nat" where
  "buffer_size b = length (b_entries b)"

definition buffer_ok :: "buffer \<Rightarrow> bool" where
  "buffer_ok b \<longleftrightarrow> is_heap event_time (b_entries b)"

definition buffer_events :: "buffer \<Rightarrow> event multiset" where
  "buffer_events b = mset (b_entries b)"

section \<open>The queue contract\<close>

text \<open>What \<^verbatim>\<open>Source.AdvanceTo\<close> needs: the minimum it compares with the
  frontier is the time of the event it pops next, and popping removes exactly that event.\<close>

locale event_queue =
  fixes empty :: "'q \<Rightarrow> bool"
    and min_time :: "'q \<Rightarrow> int64"
    and pop :: "'q \<Rightarrow> (event \<times> 'q) go"
    and events :: "'q \<Rightarrow> event multiset"
    and ok :: "'q \<Rightarrow> bool"
  assumes empty_iff: "ok q \<Longrightarrow> empty q \<longleftrightarrow> events q = {#}"
    and pop_total: "ok q \<Longrightarrow> \<not> empty q \<Longrightarrow> \<exists>ev q'. pop q = Inr (ev, q')"
    and pop_ok: "ok q \<Longrightarrow> pop q = Inr (ev, q') \<Longrightarrow> ok q'"
    and pop_events: "ok q \<Longrightarrow> pop q = Inr (ev, q') \<Longrightarrow> events q = add_mset ev (events q')"
    and pop_time: "ok q \<Longrightarrow> pop q = Inr (ev, q') \<Longrightarrow> ev_timestamp ev = min_time q"
    and pop_least: "ok q \<Longrightarrow> pop q = Inr (ev, q') \<Longrightarrow> ev' \<in># events q \<Longrightarrow>
                      event_time ev \<le> event_time ev'"
begin

lemma size_pop: "ok q \<Longrightarrow> pop q = Inr (ev, q') \<Longrightarrow> size (events q') < size (events q)"
  by (simp add: pop_events)

lemma late_after_stop:
  assumes "ok q" "empty q \<or> \<not> min_time q \<le>s t" "ev' \<in># events q"
  shows "sint t < event_time ev'"
proof -
  have ne: "\<not> empty q" using assms(1,3) by (auto simp: empty_iff)
  then obtain ev q' where p: "pop q = Inr (ev, q')" using pop_total assms(1) by blast
  then have "event_time ev \<le> event_time ev'" using pop_least assms(1,3) by blast
  moreover have "sint t < event_time ev"
    using assms(2) ne pop_time [OF assms(1) p] by (simp add: go_int event_time_def)
  ultimately show ?thesis by simp
qed

end

lemma buffer_ok_new [inv_intro]: "buffer_ok (new_buffer n)"
  by (simp add: buffer_ok_def new_buffer_def heap_upto_def)

lemma buffer_pop_facts:
  assumes "buffer_ok b" "\<not> buffer_empty b"
  obtains ev b' where "buffer_pop_min b = Inr (ev, b')" "buffer_ok b'" "ev = b_entries b ! 0"
    "add_mset ev (buffer_events b') = buffer_events b" "b_max_size b' = b_max_size b"
    "\<forall>y\<in>#buffer_events b'. event_time ev \<le> event_time y"
proof -
  obtain x h' where p: "heap_pop event_time (b_entries b) = Inr (x, h')" "is_heap event_time h'"
      "x = b_entries b ! 0" "add_mset x (mset h') = mset (b_entries b)"
      "\<forall>y\<in>set h'. event_time x \<le> event_time y"
    using assms heap_pop_facts [of event_time "b_entries b"]
    unfolding buffer_ok_def buffer_empty_def by blast
  show ?thesis
    by (rule that [of x "b\<lparr>b_entries := h'\<rparr>"])
       (use p in \<open>simp_all add: buffer_pop_min_def buffer_ok_def buffer_events_def\<close>)
qed

interpretation rb: event_queue buffer_empty buffer_min_timestamp buffer_pop_min buffer_events buffer_ok
proof unfold_locales
  fix q ev q' assume ok: "buffer_ok q" and p: "buffer_pop_min q = Inr (ev, q')"
  have ne: "\<not> buffer_empty q"
  proof
    assume "buffer_empty q"
    then show False using p by (simp add: buffer_pop_min_def heap_pop_def buffer_empty_def)
  qed
  obtain x b' where "buffer_pop_min q = Inr (x, b')" "buffer_ok b'" "x = b_entries q ! 0"
      "add_mset x (buffer_events b') = buffer_events q"
      "\<forall>y\<in>#buffer_events b'. event_time x \<le> event_time y"
    by (rule buffer_pop_facts [OF ok ne])
  then have f: "buffer_ok q'" "ev = b_entries q ! 0"
      "buffer_events q = add_mset ev (buffer_events q')"
      "\<forall>y\<in>#buffer_events q'. event_time ev \<le> event_time y"
    using p by simp_all
  show "buffer_ok q'" "buffer_events q = add_mset ev (buffer_events q')" by (fact f)+
  show "ev_timestamp ev = buffer_min_timestamp q"
    using ne f(2) by (simp add: buffer_min_timestamp_def buffer_empty_def)
  show "event_time ev \<le> event_time ev'" if "ev' \<in># buffer_events q" for ev'
    using f(3,4) that by auto
next
  fix q assume "buffer_ok q" "\<not> buffer_empty q"
  then show "\<exists>ev q'. buffer_pop_min q = Inr (ev, q')" by (rule buffer_pop_facts) blast
qed (auto simp: buffer_empty_def buffer_events_def)

section \<open>Adding\<close>

lemma buffer_add_push:
  fixes ev :: event
  assumes "buffer_ok b"
  defines "b1 \<equiv> b\<lparr>b_entries := heap_push event_time ev (b_entries b)\<rparr>"
  shows "buffer_ok b1" "buffer_events b1 = add_mset ev (buffer_events b)"
    "b_max_size b1 = b_max_size b" "length (b_entries b1) = Suc (buffer_size b)"
    "\<not> buffer_empty b1"
proof -
  have h: "is_heap event_time (b_entries b)" using assms by (simp add: buffer_ok_def)
  show "buffer_ok b1" "b_max_size b1 = b_max_size b"
    and ev: "buffer_events b1 = add_mset ev (buffer_events b)"
    using heap_push_facts [OF h, of ev] by (simp_all add: b1_def buffer_ok_def buffer_events_def)
  show len: "length (b_entries b1) = Suc (buffer_size b)"
    using ev by (metis buffer_events_def buffer_size_def size_add_mset size_mset)
  then show "\<not> buffer_empty b1" by (auto simp: buffer_empty_def)
qed

lemma buffer_add_room:
  assumes "buffer_ok b" "int (Suc (buffer_size b)) \<le> sint (b_max_size b)"
  shows "\<exists>b'. buffer_add ovf ev b s = Inr (b', s) \<and> buffer_ok b' \<and> b_max_size b' = b_max_size b \<and>
           buffer_events b' = add_mset ev (buffer_events b)"
  using buffer_add_push [OF assms(1), of ev] assms(2) by (simp add: buffer_add_def Let_def)

lemma buffer_add_full:
  assumes "buffer_ok b" "sint (b_max_size b) < int (Suc (buffer_size b))"
  shows "\<exists>b' over. buffer_add ovf ev b s = Inr (b', case ovf of None \<Rightarrow> s | Some f \<Rightarrow> f over s) \<and>
           buffer_ok b' \<and> b_max_size b' = b_max_size b \<and>
           add_mset over (buffer_events b') = add_mset ev (buffer_events b) \<and>
           (\<forall>y\<in>#buffer_events b'. event_time over \<le> event_time y)"
proof -
  note b1 = buffer_add_push [OF assms(1), of ev]
  obtain over b2 where p: "buffer_pop_min (b\<lparr>b_entries := heap_push event_time ev (b_entries b)\<rparr>) = Inr (over, b2)"
      "buffer_ok b2"
      "add_mset over (buffer_events b2) = buffer_events (b\<lparr>b_entries := heap_push event_time ev (b_entries b)\<rparr>)"
      "b_max_size b2 = b_max_size b" "\<forall>y\<in>#buffer_events b2. event_time over \<le> event_time y"
    using buffer_pop_facts [OF b1(1,5)] b1(3) by metis
  then have "buffer_add ovf ev b s = Inr (b2, case ovf of None \<Rightarrow> s | Some f \<Rightarrow> f over s)"
    using b1(4) assms(2) by (simp add: buffer_add_def Let_def)
  then show ?thesis using p b1(2) by metis
qed

lemma buffer_add_total:
  assumes "buffer_ok b"
  shows "\<exists>b' s'. buffer_add ovf ev b s = Inr (b', s') \<and> buffer_ok b' \<and> b_max_size b' = b_max_size b"
  using buffer_add_room [OF assms, of ovf ev s] buffer_add_full [OF assms, of ovf ev s]
  by (cases "int (Suc (buffer_size b)) \<le> sint (b_max_size b)") auto

lemma buffer_add_ok [inv_intro]:
  "buffer_ok b \<Longrightarrow> buffer_add ovf ev b s = Inr (b', s') \<Longrightarrow> buffer_ok b' \<and> b_max_size b' = b_max_size b"
  using buffer_add_total [of b ovf ev s] by auto

lemma size_buffer_events: "size (buffer_events b) = buffer_size b"
  by (simp add: buffer_events_def buffer_size_def)

section \<open>Properties\<close>

text \<open>Popping every event of a buffer, in the order \<^verbatim>\<open>PopMin\<close> yields
  them.\<close>

fun buffer_pop_all :: "nat \<Rightarrow> buffer \<Rightarrow> event list go" where
  "buffer_pop_all 0 b = Inr []"
| "buffer_pop_all (Suc n) b =
     go_bind (buffer_pop_min b) (\<lambda>(ev, b'). go_bind (buffer_pop_all n b') (\<lambda>evs. Inr (ev # evs)))"

lemma buffer_pop_all_facts:
  "buffer_ok b \<Longrightarrow> buffer_size b = n \<Longrightarrow>
   \<exists>evs. buffer_pop_all n b = Inr evs \<and> mset evs = buffer_events b \<and> sorted (map event_time evs)"
proof (induction n arbitrary: b)
  case 0
  then show ?case by (simp add: buffer_events_def buffer_size_def)
next
  case (Suc n)
  then have ne: "\<not> buffer_empty b" by (auto simp: buffer_empty_def buffer_size_def)
  obtain ev b' where p: "buffer_pop_min b = Inr (ev, b')" "buffer_ok b'"
      "add_mset ev (buffer_events b') = buffer_events b"
      "\<forall>y\<in>#buffer_events b'. event_time ev \<le> event_time y"
    using buffer_pop_facts [OF Suc.prems(1) ne] by blast
  have "buffer_size b' = n"
    using p(3) Suc.prems(2) by (metis size_buffer_events size_add_mset Suc_inject)
  then obtain evs where e: "buffer_pop_all n b' = Inr evs" "mset evs = buffer_events b'"
      "sorted (map event_time evs)"
    using Suc.IH [OF p(2)] by blast
  have "set evs = set_mset (buffer_events b')" using e(2) by (metis set_mset_mset)
  then show ?case using p e by (auto intro!: exI [of _ "ev # evs"])
qed

text \<open>A reorder buffer that was filled with events within its capacity gives them all back,
  each exactly once, in the order of event time, whatever order they were added in.\<close>

theorem buffer_sorts_by_event_time:
  assumes "buffer_ok b"
  shows "\<exists>evs. buffer_pop_all (buffer_size b) b = Inr evs \<and>
               mset evs = buffer_events b \<and> sorted (map event_time evs)"
  using buffer_pop_all_facts [OF assms refl] .

theorem buffer_sorts_by_event_time_witness:
  "let b = \<lparr>b_entries = [new_data ''k'' 2 100 2, new_data ''k'' 1 300 1], b_max_size = 16\<rparr>
   in \<exists>evs. buffer_pop_all (buffer_size b) b = Inr evs \<and>
            mset evs = buffer_events b \<and> sorted (map event_time evs)"
  unfolding Let_def
  by (rule buffer_sorts_by_event_time)
     (auto simp: buffer_ok_def heap_upto_def less_Suc_eq event_time_def)

text \<open>Adding never panics and keeps the buffer a heap; within capacity the event is stored,
  and at capacity exactly one event, the earliest of the stored ones and the new one, is handed
  to the overflow callback and nothing else is lost.\<close>

theorem buffer_add_conserves:
  assumes "buffer_ok b" and "int (buffer_size b) \<le> sint (b_max_size b)"
  shows "\<exists>b' out. buffer_add (Some (\<lambda>over outs. outs @ [over])) ev b [] = Inr (b', out) \<and>
           buffer_ok b' \<and> int (buffer_size b') \<le> sint (b_max_size b') \<and>
           buffer_events b' + mset out = add_mset ev (buffer_events b) \<and>
           (out = [] \<longleftrightarrow> int (buffer_size b) < sint (b_max_size b)) \<and> length out \<le> 1 \<and>
           (\<forall>over\<in>set out. \<forall>kept\<in>#buffer_events b'. event_time over \<le> event_time kept)"
proof (cases "int (Suc (buffer_size b)) \<le> sint (b_max_size b)")
  case True
  then obtain b' where b': "buffer_add (Some (\<lambda>over outs. outs @ [over])) ev b [] = Inr (b', [])"
      "buffer_ok b'" "b_max_size b' = b_max_size b" "buffer_events b' = add_mset ev (buffer_events b)"
    using buffer_add_room [OF assms(1) True, of "Some (\<lambda>over outs. outs @ [over])" ev "[]"] by auto
  have "buffer_size b' = Suc (buffer_size b)"
    using arg_cong [OF b'(4), of size] by (simp add: size_buffer_events)
  with True b' show ?thesis by (intro exI [of _ b'] exI [of _ "[]"]) simp
next
  case False
  then obtain b' over where b': "buffer_add (Some (\<lambda>over outs. outs @ [over])) ev b [] = Inr (b', [over])"
      "buffer_ok b'" "b_max_size b' = b_max_size b"
      "add_mset over (buffer_events b') = add_mset ev (buffer_events b)"
      "\<forall>y\<in>#buffer_events b'. event_time over \<le> event_time y"
    using buffer_add_full [OF assms(1), of "Some (\<lambda>over outs. outs @ [over])" ev "[]"] by auto
  have "buffer_size b' = buffer_size b"
    using arg_cong [OF b'(4), of size] by (simp add: size_buffer_events)
  with b' assms False show ?thesis by (intro exI [of _ b'] exI [of _ "[over]"]) simp
qed

theorem buffer_add_conserves_witness:
  "\<exists>b' out. buffer_add (Some (\<lambda>over outs. outs @ [over])) (new_data ''k'' 1 300 1) (new_buffer 2) [] =
      Inr (b', out) \<and> buffer_ok b'"
  using buffer_add_conserves [of "new_buffer 2" "new_data ''k'' 1 300 1"]
  by (auto simp: buffer_ok_new) (auto simp: new_buffer_def buffer_size_def)

text \<open>With a nil overflow callback the evicted event is dropped without trace: a full
  buffer stays as full as it was and the surrounding state is unchanged.\<close>

theorem buffer_add_nil_callback_loses_event:
  assumes "buffer_ok b" and "int (buffer_size b) = sint (b_max_size b)"
  shows "\<exists>b' over. buffer_add None ev b s = Inr (b', s) \<and>
           add_mset over (buffer_events b') = add_mset ev (buffer_events b)"
proof -
  have full: "sint (b_max_size b) < int (Suc (buffer_size b))" using assms(2) by simp
  show ?thesis
    using buffer_add_full [OF assms(1) full, of None ev s] by auto
qed

theorem buffer_add_nil_callback_loses_event_witness:
  "\<exists>b' over. buffer_add None (new_data ''k'' 1 300 1) (new_buffer 0) (7::nat) = Inr (b', 7) \<and>
     add_mset over (buffer_events b') = add_mset (new_data ''k'' 1 300 1) (buffer_events (new_buffer 0))"
  by (rule buffer_add_nil_callback_loses_event) (simp_all add: buffer_ok_new, simp add: new_buffer_def buffer_size_def)

end
