(* ===== verification/Generator.thy ===== *)
theory Generator
  imports Model
begin

text \<open>
  \<^verbatim>\<open>internal/source/generator.go\<close>: the deterministic event script. An event is a
  function of the script and its offset, which is what replays rely on.
\<close>

section \<open>Operations\<close>

record generator_spec =
  gs_keys :: "string list"
  gs_start :: int64
  gs_step :: int64
  gs_jitter :: int64
  gs_ping :: int64

record generator =
  g_spec :: generator_spec
  g_next :: int64
  g_emitted :: int64

definition new_generator :: "generator_spec \<Rightarrow> generator" where
  "new_generator spec = \<lparr>g_spec = spec, g_next = 0, g_emitted = 0\<rparr>"

text \<open>A modulus of zero panics, and so does a negative index.\<close>

definition key_at :: "string list \<Rightarrow> int64 \<Rightarrow> string go" where
  "key_at keys i = (if 0 \<le> sint i \<and> sint i < int (length keys) then Inr (keys ! nat (sint i))
                    else Inl IndexOutOfRange)"

definition gen_next :: "generator \<Rightarrow> (event \<times> generator) go" where
  "gen_next g =
     (let index = g_next g; spec = g_spec g;
          g' = g\<lparr>g_next := g_next g + 1, g_emitted := g_emitted g + 1\<rparr>
      in go_bind (go_mod index (of_nat (length (gs_keys spec)))) (\<lambda>slot.
         go_bind (key_at (gs_keys spec) slot) (\<lambda>key.
         go_bind (go_mod (index * 7) (gs_jitter spec)) (\<lambda>jitter.
         let ts = gs_start spec + index * gs_step spec + jitter
         in if 0 <s gs_ping spec \<and> go_mod index (gs_ping spec) = Inr 0
            then Inr (new_ping key ts (g_next g), g')
            else go_bind (go_mod index 97) (\<lambda>r. Inr (new_data key (r + 1) ts (g_next g), g'))))))"

definition gen_emitted :: "generator \<Rightarrow> int64" where
  "gen_emitted g = g_emitted g"

definition replay_from :: "int64 \<Rightarrow> generator \<Rightarrow> generator" where
  "replay_from offset g = (if 0 \<le>s offset then g\<lparr>g_next := offset\<rparr> else g)"

definition skip_to :: "int64 \<Rightarrow> generator \<Rightarrow> generator" where
  "skip_to offset g = (if g_next g <s offset then g\<lparr>g_next := offset\<rparr> else g)"

definition gen_keys :: "generator \<Rightarrow> string list" where
  "gen_keys g = gs_keys (g_spec g)"

section \<open>Runs\<close>

fun gen_run :: "nat \<Rightarrow> generator \<Rightarrow> (event list \<times> generator) go" where
  "gen_run 0 g = Inr ([], g)"
| "gen_run (Suc n) g = go_bind (gen_next g) (\<lambda>(ev, g). go_bind (gen_run n g) (\<lambda>(evs, g). Inr (ev # evs, g)))"

text \<open>Two generators at the same place of the same script do the same, whatever they emitted.\<close>

definition same_place :: "generator \<Rightarrow> generator \<Rightarrow> bool" where
  "same_place g h \<longleftrightarrow> g_spec g = g_spec h \<and> g_next g = g_next h"

lemma gen_next_facts:
  assumes "gen_next g = Inr (ev, g')"
  shows "g' = g\<lparr>g_next := g_next g + 1, g_emitted := g_emitted g + 1\<rparr> \<and> ev_offset ev = g_next g"
  using assms by (auto simp: gen_next_def Let_def split: if_splits elim!: go_bind_InrE)

lemma gen_next_same:
  assumes "same_place g h" "gen_next g = Inr (ev, g')"
  shows "\<exists>h'. gen_next h = Inr (ev, h') \<and> same_place g' h'"
  using assms by (auto simp: gen_next_def same_place_def Let_def split: if_splits elim!: go_bind_InrE)

lemma gen_run_same:
  "same_place g h \<Longrightarrow> gen_run n g = Inr (evs, g') \<Longrightarrow> \<exists>h'. gen_run n h = Inr (evs, h') \<and> same_place g' h'"
proof (induction n arbitrary: g h evs)
  case (Suc n)
  then obtain ev g1 es where one: "gen_next g = Inr (ev, g1)" and rest: "gen_run n g1 = Inr (es, g')" "evs = ev # es"
    by (auto elim!: go_bind_InrE)
  from gen_next_same [OF Suc.prems(1) one] obtain h1 where h1: "gen_next h = Inr (ev, h1)" "same_place g1 h1" by blast
  from Suc.IH [OF h1(2) rest(1)] h1(1) rest(2) show ?case by auto
qed simp

lemma gen_run_frame:
  "gen_run n g = Inr (evs, g') \<Longrightarrow>
   g_spec g' = g_spec g \<and> g_next g' = g_next g + of_nat n \<and> g_emitted g' = g_emitted g + of_nat n \<and>
   map ev_offset evs = map (\<lambda>i. g_next g + of_nat i) [0..<n]"
proof (induction n arbitrary: g evs)
  case (Suc n)
  then obtain ev g1 es where one: "gen_next g = Inr (ev, g1)" and rest: "gen_run n g1 = Inr (es, g')" "evs = ev # es"
    by (auto elim!: go_bind_InrE)
  have "map (\<lambda>i. g_next g + of_nat i) [0..<Suc n] =
      g_next g # map (\<lambda>i. (g_next g + 1) + of_nat i) [0..<n]"
    by (simp only: map_upt_Suc) (simp add: add.assoc)
  then show ?case
    using gen_next_facts [OF one] Suc.IH [OF rest(1)] rest(2) by (simp add: add.assoc del: upt_Suc)
qed simp

lemma sint_go_mod:
  assumes "go_mod a b = Inr r" "0 \<le> sint a" "0 < sint b"
  shows "sint r = sint a mod sint b"
proof -
  have "b \<noteq> 0" using assms(3) by auto
  moreover have "sint a smod sint b = sint a mod sint b"
    using assms(2,3) by (cases "sint a = 0") (simp_all add: signed_modulo_int_def sgn_if)
  ultimately have r: "r = word_of_int (sint a mod sint b)"
    using assms(1) by (simp add: go_mod_def)
  have "0 \<le> sint a mod sint b" "sint a mod sint b \<le> sint a"
    using assms(2,3) by (simp_all add: zmod_le_nonneg_dividend)
  then show ?thesis unfolding r using sint_range64 [of a] by (intro sint_of_int64) simp
qed

lemma go_mod_total: "b \<noteq> 0 \<Longrightarrow> \<exists>r. go_mod a b = Inr r"
  by (simp add: go_mod_def)

text \<open>With at least one key, a positive jitter span and a non-negative cursor the generator does
  not panic; the event carries the cursor as its offset and one of the keys, and a data event a value
  between 1 and 97.\<close>

lemma generator_total_and_bounded:
  assumes "gs_keys (g_spec g) \<noteq> []" and "length (gs_keys (g_spec g)) < 2 ^ 63"
    and "0 < sint (gs_jitter (g_spec g))" and "0 \<le> sint (g_next g)"
  shows "\<exists>ev g'. gen_next g = Inr (ev, g') \<and> ev_offset ev = g_next g \<and> ev_key ev \<in> set (gs_keys (g_spec g)) \<and>
     g_next g' = g_next g + 1 \<and>
     (ev_kind ev = KindData \<longrightarrow> 1 \<le> sint (ev_value ev) \<and> sint (ev_value ev) \<le> 97)"
proof -
  let ?keys = "gs_keys (g_spec g)" and ?i = "g_next g"
  have len: "sint (of_nat (length ?keys) :: int64) = int (length ?keys)" by (rule sint_of_nat64 [OF assms(2)])
  then have len0: "0 < sint (of_nat (length ?keys) :: int64)" using assms(1) by simp
  then obtain slot where slot: "go_mod ?i (of_nat (length ?keys)) = Inr slot"
    using go_mod_total by (metis less_irrefl sint_0)
  have s: "sint slot = sint ?i mod int (length ?keys)" using sint_go_mod [OF slot assms(4) len0] len by simp
  then have "0 \<le> sint slot" "sint slot < int (length ?keys)" using assms(1) by simp_all
  then obtain key where key: "key_at ?keys slot = Inr key" "key \<in> set ?keys"
    by (simp add: key_at_def nat_less_iff)
  have "gs_jitter (g_spec g) \<noteq> 0" using assms(3) by auto
  then obtain jitter where jitter: "go_mod (?i * 7) (gs_jitter (g_spec g)) = Inr jitter" using go_mod_total by blast
  obtain r where r: "go_mod ?i 97 = Inr r" using go_mod_total [of 97 ?i] by auto
  have "sint r = sint ?i mod 97" using sint_go_mod [OF r assms(4)] by simp
  then have "0 \<le> sint r" "sint r < 97" by simp_all
  then have "sint (r + 1) = sint r + 1" using sint_add64 [of r 1] by simp
  then have val: "1 \<le> sint (r + 1)" "sint (r + 1) \<le> 97" using \<open>0 \<le> sint r\<close> \<open>sint r < 97\<close> by simp_all
  show ?thesis using slot key jitter r val by (auto simp: gen_next_def Let_def)
qed

section \<open>Properties\<close>

lemma gen_run_split:
  "gen_run (m + k) g = Inr (evs, g1) \<Longrightarrow>
   \<exists>g2. gen_run m g = Inr (take m evs, g2) \<and> gen_run k g2 = Inr (drop m evs, g1)"
proof (induction m arbitrary: g evs)
  case (Suc m)
  then obtain ev g0 es where one: "gen_next g = Inr (ev, g0)" "gen_run (m + k) g0 = Inr (es, g1)" "evs = ev # es"
    by (auto elim!: go_bind_InrE)
  from Suc.IH [OF one(2)] one(1,3) show ?case by auto
qed simp

lemma gen_next_panic_same: "same_place g h \<Longrightarrow> gen_next g = Inl e \<Longrightarrow> gen_next h = Inl e"
  by (auto simp: gen_next_def same_place_def Let_def go_bind_def split: if_splits sum.splits)

lemma gen_run_panic_same: "same_place g h \<Longrightarrow> gen_run n g = Inl e \<Longrightarrow> gen_run n h = Inl e"
proof (induction n arbitrary: g h)
  case (Suc n)
  show ?case
  proof (cases "gen_next g")
    case (Inl e')
    then show ?thesis using Suc.prems gen_next_panic_same [OF Suc.prems(1)] by simp
  next
    case (Inr r)
    obtain ev g1 where g1: "gen_next g = Inr (ev, g1)" using Inr by (cases r) simp
    then have "gen_run n g1 = Inl e" using Suc.prems(2) by (auto simp: go_bind_def split: sum.splits)
    moreover obtain h1 where "gen_next h = Inr (ev, h1)" "same_place g1 h1"
      using gen_next_same [OF Suc.prems(1) g1] by blast
    ultimately show ?thesis using Suc.IH [of g1 h1] by simp
  qed
qed simp

lemma gen_run_places:
  assumes "same_place g h"
  shows "map_sum id fst (gen_run n g) = map_sum id fst (gen_run n h)"
proof (cases "gen_run n g")
  case (Inl e)
  then show ?thesis using gen_run_panic_same [OF assms Inl] by simp
next
  case (Inr r)
  obtain evs g' where "gen_run n g = Inr (evs, g')" using Inr by (cases r) simp
  with gen_run_same [OF assms this] show ?thesis by auto
qed

text \<open>C36: a replay reproduces the stream: after the generator has produced \<open>n\<close> events from an offset on,
  rewinding to that offset produces the same events again, with the same consecutive offsets. And however few of
  them the replay has produced, skipping forward to the old cursor then puts the generator back to where it
  was: what it produces from there on is what it would have produced without the replay. Only the emitted
  counter counts the replayed events again.\<close>

theorem replay_reproduces_events:
  assumes "gen_run n g = Inr (evs, g1)" and "0 \<le> sint (g_next g)" and "sint (g_next g) + int n < 2 ^ 63" and "m \<le> n"
  shows "\<exists>g2. gen_run m (replay_from (g_next g) g1) = Inr (take m evs, g2) \<and>
     g_emitted g2 = g_emitted g1 + of_nat m \<and>
     map ev_offset evs = map (\<lambda>i. g_next g + of_nat i) [0..<n] \<and>
     g_next (skip_to (g_next g1) g2) = g_next g1 \<and>
     (\<forall>k. map_sum id fst (gen_run k (skip_to (g_next g1) g2)) = map_sum id fst (gen_run k g1))"
proof -
  let ?h = "replay_from (g_next g) g1"
  have place: "same_place g ?h"
    using assms gen_run_frame [OF assms(1)] by (simp add: same_place_def replay_from_def word_sle_eq)
  obtain gm where gm: "gen_run m g = Inr (take m evs, gm)"
    using gen_run_split [of m "n - m" g evs g1] assms(1,4) by auto
  from gen_run_same [OF place this] obtain g2 where g2: "gen_run m ?h = Inr (take m evs, g2)" by blast
  have frame: "g_spec g2 = g_spec g1" "g_next g2 = g_next g + of_nat m" "g_emitted g2 = g_emitted g1 + of_nat m"
      "g_next g1 = g_next g + of_nat n" "map ev_offset evs = map (\<lambda>i. g_next g + of_nat i) [0..<n]"
    using gen_run_frame [OF g2] gen_run_frame [OF assms(1)] place by (auto simp: same_place_def replay_from_def)
  have add: "sint (g_next g + of_nat i) = sint (g_next g) + int i" if "i \<le> n" for i
    using sint_add64 [of "g_next g" "of_nat i"] sint_of_nat64 [of i] that assms(2,3) by simp
  have "sint (g_next g2) \<le> sint (g_next g1)" using add [of m] add [of n] assms(4) by (simp add: frame)
  then have restored: "same_place (skip_to (g_next g1) g2) g1"
    using frame(1) sint_inject64 [of "g_next g2" "g_next g1"] by (auto simp: same_place_def skip_to_def go_int)
  then have "g_next (skip_to (g_next g1) g2) = g_next g1" by (simp add: same_place_def)
  then show ?thesis using g2 frame gen_run_places [OF restored] by (intro exI [of _ g2]) simp
qed

definition demo_spec :: generator_spec where
  "demo_spec = \<lparr>gs_keys = [''checkout'', ''search''], gs_start = 1000, gs_step = 10, gs_jitter = 5, gs_ping = 3\<rparr>"

lemma demo_spec_runs: "\<exists>evs g1. gen_run 2 (new_generator demo_spec) = Inr (evs, g1)"
proof -
  have "case gen_run 2 (new_generator demo_spec) of Inl e \<Rightarrow> False | Inr r \<Rightarrow> True" by code_simp
  then show ?thesis by (auto split: sum.splits)
qed

theorem replay_reproduces_events_witness:
  "\<exists>evs g1 g2. gen_run 2 (new_generator demo_spec) = Inr (evs, g1) \<and>
     gen_run 1 (replay_from 0 g1) = Inr (take 1 evs, g2) \<and> map ev_offset evs = [0, 1] \<and>
     g_next (skip_to 2 g2) = 2"
proof -
  obtain evs g1 where run: "gen_run 2 (new_generator demo_spec) = Inr (evs, g1)" using demo_spec_runs by blast
  have z: "g_next (new_generator demo_spec) = 0" by (simp add: new_generator_def)
  then have "g_next g1 = 2" using gen_run_frame [OF run] by simp
  with replay_reproduces_events [OF run, of 1] run z show ?thesis by (auto simp: numeral_2_eq_2)
qed

theorem generator_total_and_bounded_witness:
  "\<exists>ev g'. gen_next (new_generator demo_spec) = Inr (ev, g') \<and> ev_offset ev = 0 \<and> g_next g' = 1"
  using generator_total_and_bounded [of "new_generator demo_spec"]
  by (auto simp: new_generator_def demo_spec_def)

end
