(* ===== verification/Source.thy ===== *)
theory Source
  imports Reorder_Buffer Watermark
begin

text \<open>
  \<^verbatim>\<open>internal/source/source.go\<close>: the source with its reorder buffer and the
  watermark handshake. The operations of one goroutine come first; the ingest callback acts on a
  world \<open>'w\<close>. The second half is the concurrent handshake: any number of goroutines in
  \<^verbatim>\<open>AdvanceTo\<close> and \<^verbatim>\<open>Emit\<close>, one step per
  critical section.
\<close>

section \<open>Operations\<close>

text \<open>\<^verbatim>\<open>pending\<close> counts goroutines, so it is a natural number.\<close>

record source =
  so_buffer :: buffer
  so_pending :: nat
  so_last :: int64
  so_stopped :: bool
  so_drained :: int64

type_synonym 'w ingest_fun = "event \<Rightarrow> 'w \<Rightarrow> 'w go"

definition new_source :: "buffer \<Rightarrow> source" where
  "new_source b = \<lparr>so_buffer = b, so_pending = 0, so_last = - 1, so_stopped = False, so_drained = 0\<rparr>"

definition source_emit :: "'s overflow \<Rightarrow> event \<Rightarrow> source \<times> 's \<Rightarrow> (source \<times> 's) go" where
  "source_emit overflow ev sx = (case sx of (s, x) \<Rightarrow>
     if so_stopped s then Inr (s, x)
     else go_bind (buffer_add overflow ev (so_buffer s) x) (\<lambda>(b, x).
          Inr (s\<lparr>so_buffer := b, so_last := ev_offset ev\<rparr>, x)))"

lemma buffer_pop_shrinks: "buffer_pop_min b = Inr (ev, b') \<Longrightarrow> length (b_entries b') < length (b_entries b)"
  by (auto simp: buffer_pop_min_def heap_pop_def Let_def min_less_iff_disj split: if_splits)

text \<open>The drain loop of \<^verbatim>\<open>AdvanceTo\<close>. It ends because every pass takes
  one event out of the buffer.\<close>

function drain :: "'w ingest_fun \<Rightarrow> int64 \<Rightarrow> source \<times> 'w \<Rightarrow> (source \<times> 'w) go" where
  "drain ingest ts (s, w) =
     (if \<not> buffer_empty (so_buffer s) \<and> buffer_min_timestamp (so_buffer s) \<le>s ts
      then go_bind (buffer_pop_min (so_buffer s)) (\<lambda>(ev, b).
           let s = s\<lparr>so_buffer := b, so_pending := so_pending s + 1\<rparr>
           in go_bind (ingest ev w) (\<lambda>w.
              drain ingest ts (s\<lparr>so_pending := so_pending s - 1\<rparr>, w)))
      else Inr (s, w))"
  by pat_completeness auto
termination
  by (relation "measure (\<lambda>(ingest, ts, s, w). length (b_entries (so_buffer s)))")
     (auto dest: buffer_pop_shrinks)

declare drain.simps [simp del]

text \<open>With no other goroutine the wait loop is passed at once or never.\<close>

definition advance_to :: "'w ingest_fun \<Rightarrow> int64 \<Rightarrow> source \<times> tracker \<times> 'w \<Rightarrow> (source \<times> tracker \<times> 'w) go" where
  "advance_to ingest ts stw = (case stw of (s, t, w) \<Rightarrow>
     go_bind (drain ingest ts (s, w)) (\<lambda>(s, w).
       if 0 < so_pending s then Inl Deadlock
       else let t = tracker_advance ts t; t = tracker_confirm t
            in Inr (s\<lparr>so_drained := so_drained s + 1\<rparr>, t, w)))"

definition last_offset :: "source \<Rightarrow> int64" where
  "last_offset s = so_last s"

definition drained_count :: "source \<Rightarrow> int64" where
  "drained_count s = so_drained s"

definition source_stop :: "source \<Rightarrow> source" where
  "source_stop s = s\<lparr>so_stopped := True\<rparr>"

section \<open>What a drain hands over\<close>

fun ingest_all :: "'w ingest_fun \<Rightarrow> event list \<Rightarrow> 'w \<Rightarrow> 'w go" where
  "ingest_all ingest [] w = Inr w"
| "ingest_all ingest (ev # evs) w = go_bind (ingest ev w) (ingest_all ingest evs)"

definition due :: "int64 \<Rightarrow> event \<Rightarrow> bool" where
  "due ts ev \<longleftrightarrow> event_time ev \<le> sint ts"

text \<open>The drain calls the callback on exactly the due events, in the order of event time, and leaves
  the others in the buffer. What is handed over depends on the buffer only.\<close>

lemma drain_facts:
  assumes "buffer_ok (so_buffer s)"
  shows "\<exists>evs rest. buffer_ok rest \<and> b_max_size rest = b_max_size (so_buffer s) \<and>
     mset evs = filter_mset (due ts) (buffer_events (so_buffer s)) \<and>
     buffer_events rest = filter_mset (\<lambda>ev. \<not> due ts ev) (buffer_events (so_buffer s)) \<and>
     sorted (map event_time evs) \<and>
     (\<forall>(ingest :: 'w ingest_fun) w. drain ingest ts (s, w) =
        go_bind (ingest_all ingest evs w) (\<lambda>w'. Inr (s\<lparr>so_buffer := rest\<rparr>, w')))"
  using assms
proof (induction "length (b_entries (so_buffer s))" arbitrary: s rule: less_induct)
  case less
  let ?b = "so_buffer s"
  show ?case
  proof (cases "\<not> buffer_empty ?b \<and> buffer_min_timestamp ?b \<le>s ts")
    case False
    then have "\<not> due ts ev" if "ev \<in># buffer_events ?b" for ev
      using rb.late_after_stop [OF less.prems _ that, of ts] by (simp add: due_def)
    then have "filter_mset (due ts) (buffer_events ?b) = filter_mset (\<lambda>_. False) (buffer_events ?b)"
        "filter_mset (\<lambda>ev. \<not> due ts ev) (buffer_events ?b) = filter_mset (\<lambda>_. True) (buffer_events ?b)"
      by (simp_all cong: filter_mset_cong)
    then have "filter_mset (due ts) (buffer_events ?b) = {#}"
        "filter_mset (\<lambda>ev. \<not> due ts ev) (buffer_events ?b) = buffer_events ?b"
      by simp_all
    moreover have "drain ingest ts (s, w) = Inr (s, w)" for ingest :: "'w ingest_fun" and w
      using False by (subst drain.simps) auto
    ultimately show ?thesis
      using less.prems by (intro exI [of _ "[]"] exI [of _ ?b]) simp
  next
    case True
    then obtain ev b1 where p: "buffer_pop_min ?b = Inr (ev, b1)" using rb.pop_total [OF less.prems] by blast
    have max: "b_max_size b1 = b_max_size ?b"
      using p by (auto simp: buffer_pop_min_def elim!: go_bind_InrE)
    have ok1: "buffer_ok b1" by (rule rb.pop_ok [OF less.prems p])
    have evs1: "buffer_events ?b = add_mset ev (buffer_events b1)" by (rule rb.pop_events [OF less.prems p])
    have ev_due: "due ts ev"
      using True rb.pop_time [OF less.prems p] by (simp add: due_def event_time_def go_int)
    obtain evs rest where IH: "buffer_ok rest" "b_max_size rest = b_max_size b1"
        "mset evs = filter_mset (due ts) (buffer_events b1)"
        "buffer_events rest = filter_mset (\<lambda>ev. \<not> due ts ev) (buffer_events b1)" "sorted (map event_time evs)"
        "\<And>(ingest :: 'w ingest_fun) w. drain ingest ts (s\<lparr>so_buffer := b1\<rparr>, w) =
           go_bind (ingest_all ingest evs w) (\<lambda>w'. Inr (s\<lparr>so_buffer := rest\<rparr>, w'))"
      using less.hyps [of "s\<lparr>so_buffer := b1\<rparr>"] buffer_pop_shrinks [OF p] ok1 by fastforce
    have "event_time ev \<le> event_time x" if "x \<in> set evs" for x
    proof -
      have "x \<in># buffer_events b1" using that IH(3) by (metis filter_mset_eq_conv in_multiset_in_set mset_subset_eqD multiset_filter_subset set_mset_mset)
      then show ?thesis using rb.pop_least [OF less.prems p, of x] evs1 by simp
    qed
    then have "sorted (map event_time (ev # evs))" using IH(5) by simp
    moreover have "drain ingest ts (s, w) =
        go_bind (ingest_all ingest (ev # evs) w) (\<lambda>w'. Inr (s\<lparr>so_buffer := rest\<rparr>, w'))"
      for ingest :: "'w ingest_fun" and w
      using True IH(6) [of ingest] by (subst drain.simps) (simp add: p Let_def go_bind_assoc)
    ultimately show ?thesis
      using IH(1-4) ev_due max evs1 by (intro exI [of _ "ev # evs"] exI [of _ rest]) simp
  qed
qed

lemma advance_to_facts:
  assumes "buffer_ok (so_buffer s)" "so_pending s = 0"
  shows "\<exists>evs rest. buffer_ok rest \<and> b_max_size rest = b_max_size (so_buffer s) \<and>
     mset evs = filter_mset (due ts) (buffer_events (so_buffer s)) \<and>
     buffer_events rest = filter_mset (\<lambda>ev. \<not> due ts ev) (buffer_events (so_buffer s)) \<and>
     sorted (map event_time evs) \<and>
     (\<forall>(ingest :: 'w ingest_fun) t w. advance_to ingest ts (s, t, w) =
        go_bind (ingest_all ingest evs w) (\<lambda>w'.
          Inr (s\<lparr>so_buffer := rest, so_drained := so_drained s + 1\<rparr>,
               tracker_confirm (tracker_advance ts t), w')))"
proof -
  obtain evs rest where "buffer_ok rest" "b_max_size rest = b_max_size (so_buffer s)"
      "mset evs = filter_mset (due ts) (buffer_events (so_buffer s))"
      "buffer_events rest = filter_mset (\<lambda>ev. \<not> due ts ev) (buffer_events (so_buffer s))"
      "sorted (map event_time evs)"
      "\<And>(ingest :: 'w ingest_fun) w. drain ingest ts (s, w) =
         go_bind (ingest_all ingest evs w) (\<lambda>w'. Inr (s\<lparr>so_buffer := rest\<rparr>, w'))"
    using drain_facts [OF assms(1), of ts] by blast
  then show ?thesis
    using assms(2)
    by (intro exI [of _ evs] exI [of _ rest]) (simp add: advance_to_def go_bind_assoc Let_def)
qed

text \<open>A callback that records what it is handed.\<close>

definition record_ingest :: "event list ingest_fun" where
  "record_ingest ev evs = Inr (evs @ [ev])"

lemma ingest_all_record: "ingest_all record_ingest evs acc = Inr (acc @ evs)"
  by (induction evs arbitrary: acc) (simp_all add: record_ingest_def)

section \<open>The concurrent handshake\<close>

text \<open>
  A goroutine in \<^verbatim>\<open>AdvanceTo\<close>: what it was called with, where it is, and,
  for the proofs, the due events the buffer held when it was called. Each step below is at most one
  critical section of the code (the code's acknowledgement and the next test of the loop condition
  share one; here they are two steps, which only adds interleavings). A goroutine that calls
  \<^verbatim>\<open>cond.Wait\<close> sleeps, and only a \<^verbatim>\<open>Broadcast\<close> lets it
  go on: it is then waiting for the mutex, to test \<^verbatim>\<open>pending\<close> again.
\<close>

datatype phase = Draining | Ingesting event | Acking | Sleeping | Waiting | Advancing | Confirming | Finished

record advancer =
  ad_ts :: int64
  ad_phase :: phase
  ad_owed :: "event set"

record handshake =
  hs_source :: source
  hs_tracker :: tracker
  hs_threads :: "advancer list"
  hs_done :: "event list"
  hs_evicted :: "event list"

definition goto :: "nat \<Rightarrow> phase \<Rightarrow> handshake \<Rightarrow> handshake" where
  "goto i p h = h\<lparr>hs_threads := (hs_threads h)[i := (hs_threads h ! i)\<lparr>ad_phase := p\<rparr>]\<rparr>"

definition with_buffer :: "buffer \<Rightarrow> (nat \<Rightarrow> nat) \<Rightarrow> handshake \<Rightarrow> handshake" where
  "with_buffer b f h = h\<lparr>hs_source := (hs_source h)\<lparr>so_buffer := b, so_pending := f (so_pending (hs_source h))\<rparr>\<rparr>"

definition at :: "handshake \<Rightarrow> nat \<Rightarrow> phase \<Rightarrow> bool" where
  "at h i p \<longleftrightarrow> i < length (hs_threads h) \<and> ad_phase (hs_threads h ! i) = p"

definition ready :: "handshake \<Rightarrow> int64 \<Rightarrow> bool" where
  "ready h ts \<longleftrightarrow> (let b = so_buffer (hs_source h) in \<not> buffer_empty b \<and> buffer_min_timestamp b \<le>s ts)"

definition collect_evicted :: "event list overflow" where
  "collect_evicted = Some (\<lambda>over evs. evs @ [over])"

definition broadcast :: "handshake \<Rightarrow> handshake" where
  "broadcast h = h\<lparr>hs_threads := map (\<lambda>t. if ad_phase t = Sleeping then t\<lparr>ad_phase := Waiting\<rparr> else t) (hs_threads h)\<rparr>"

text \<open>The steps of the call with number \<open>i\<close>.\<close>

inductive call_step :: "nat \<Rightarrow> handshake \<Rightarrow> handshake \<Rightarrow> bool" for i where
  hs_pop: "call_step i h (goto i (Ingesting ev) (with_buffer b Suc h))"
    if "at h i Draining" "ready h (ad_ts (hs_threads h ! i))" "buffer_pop_min (so_buffer (hs_source h)) = Inr (ev, b)"
| hs_ingest: "call_step i h (goto i Acking (h\<lparr>hs_done := hs_done h @ [ev]\<rparr>))" if "at h i (Ingesting ev)"
| hs_ack: "call_step i h (broadcast (goto i Draining (with_buffer (so_buffer (hs_source h)) (\<lambda>n. n - 1) h)))"
    if "at h i Acking"
| hs_wait: "call_step i h (goto i Sleeping h)"
    if "at h i Draining" "\<not> ready h (ad_ts (hs_threads h ! i))" "0 < so_pending (hs_source h)"
| hs_pass: "call_step i h (goto i Advancing h)"
    if "at h i Draining" "\<not> ready h (ad_ts (hs_threads h ! i))" "so_pending (hs_source h) = 0"
| hs_sleep: "call_step i h (goto i Sleeping h)" if "at h i Waiting" "0 < so_pending (hs_source h)"
| hs_wake: "call_step i h (goto i Advancing h)" if "at h i Waiting" "so_pending (hs_source h) = 0"
| hs_advance: "call_step i h (goto i Confirming (h\<lparr>hs_tracker := tracker_advance (ad_ts (hs_threads h ! i)) (hs_tracker h)\<rparr>))"
    if "at h i Advancing"
| hs_confirm: "call_step i h (goto i Finished (h\<lparr>hs_tracker := tracker_confirm (hs_tracker h),
      hs_source := (hs_source h)\<lparr>so_drained := so_drained (hs_source h) + 1\<rparr>\<rparr>))"
    if "at h i Confirming"

inductive hs_step :: "handshake \<Rightarrow> handshake \<Rightarrow> bool" where
  hs_emit: "hs_step h (h\<lparr>hs_source := s, hs_evicted := evicted\<rparr>)"
    if "source_emit collect_evicted ev (hs_source h, hs_evicted h) = Inr (s, evicted)"
| hs_call: "hs_step h (h\<lparr>hs_threads := hs_threads h @
      [\<lparr>ad_ts = ts, ad_phase = Draining, ad_owed = {ev. ev \<in># buffer_events (so_buffer (hs_source h)) \<and> due ts ev}\<rparr>]\<rparr>)"
| hs_move: "hs_step h h'" if "call_step i h h'"
| hs_stop: "hs_step h (broadcast (h\<lparr>hs_source := source_stop (hs_source h)\<rparr>))"

definition new_handshake :: "int64 \<Rightarrow> int64 \<Rightarrow> handshake" where
  "new_handshake max_size epoch = \<lparr>hs_source = new_source (new_buffer max_size),
     hs_tracker = new_tracker epoch, hs_threads = [], hs_done = [], hs_evicted = []\<rparr>"

definition hs_reachable :: "handshake \<Rightarrow> handshake \<Rightarrow> bool" where
  "hs_reachable = hs_step\<^sup>*\<^sup>*"

section \<open>Where an event is\<close>

definition held :: "handshake \<Rightarrow> event set" where
  "held h = set_mset (buffer_events (so_buffer (hs_source h)))"

definition flying :: "handshake \<Rightarrow> event set" where
  "flying h = {ev. \<exists>i. at h i (Ingesting ev)}"

definition settled_events :: "handshake \<Rightarrow> event set" where
  "settled_events h = set (hs_done h) \<union> set (hs_evicted h)"

text \<open>Where the events owed to a goroutine in a phase must be.\<close>

definition secured :: "handshake \<Rightarrow> phase \<Rightarrow> event set" where
  "secured h p = settled_events h \<union>
     (if p \<in> {Advancing, Confirming, Finished} then {}
      else flying h \<union> (if p \<in> {Sleeping, Waiting} then {} else held h))"

definition busy :: "advancer \<Rightarrow> bool" where
  "busy t \<longleftrightarrow> ad_phase t = Acking \<or> (\<exists>ev. ad_phase t = Ingesting ev)"

definition passed :: "phase \<Rightarrow> bool" where
  "passed p \<longleftrightarrow> p \<in> {Confirming, Finished}"

definition hs_inv :: "int64 \<Rightarrow> handshake \<Rightarrow> bool" where
  "hs_inv epoch h \<longleftrightarrow>
     buffer_ok (so_buffer (hs_source h)) \<and>
     so_pending (hs_source h) = length (filter busy (hs_threads h)) \<and>
     (\<forall>i < length (hs_threads h). let t = hs_threads h ! i in
        ad_owed t \<subseteq> secured h (ad_phase t) \<and> (\<forall>ev \<in> ad_owed t. due (ad_ts t) ev)) \<and>
     tracker_ok (hs_tracker h) \<and>
     (\<forall>c \<in> {t_current (hs_tracker h), t_confirmed (hs_tracker h)}. c = epoch \<or>
        (\<exists>i < length (hs_threads h). passed (ad_phase (hs_threads h ! i)) \<and> ad_ts (hs_threads h ! i) = c))"

lemma busy_update:
  assumes "i < length ts"
  shows "length (filter busy (ts[i := t])) + (if busy (ts ! i) then 1 else 0) =
         length (filter busy ts) + (if busy t then 1 else 0)"
  using assms
proof (induction ts arbitrary: i)
  case (Cons x xs)
  then show ?case by (cases i) auto
qed simp

lemma idle_not_flying:
  assumes "hs_inv epoch h" "so_pending (hs_source h) = 0"
  shows "flying h = {}"
proof -
  have "\<not> busy t" if "t \<in> set (hs_threads h)" for t
    using assms that by (auto simp: hs_inv_def filter_empty_conv)
  then show ?thesis by (auto simp: flying_def at_def busy_def)
qed

lemma not_ready_not_held:
  assumes "hs_inv epoch h" "\<not> ready h ts" "ev \<in> held h"
  shows "\<not> due ts ev"
proof -
  have ok: "buffer_ok (so_buffer (hs_source h))" using assms(1) by (simp add: hs_inv_def)
  have "buffer_empty (so_buffer (hs_source h)) \<or> \<not> buffer_min_timestamp (so_buffer (hs_source h)) \<le>s ts"
    using assms(2) by (auto simp: ready_def Let_def)
  from rb.late_after_stop [OF ok this, of ev] assms(3) show ?thesis by (simp add: held_def due_def)
qed

text \<open>An event never gets lost: it moves from the buffer to a goroutine or out of the system, and from
  a goroutine out of the system.\<close>

lemma secured_mono:
  assumes "held h \<subseteq> held h' \<union> flying h' \<union> settled_events h'" "flying h \<subseteq> flying h' \<union> settled_events h'"
    "settled_events h \<subseteq> settled_events h'"
  shows "secured h p \<subseteq> secured h' p"
  using assms unfolding secured_def by (auto split: if_splits)

lemma goto_simps [simp]:
  "hs_source (goto i p h) = hs_source h" "hs_tracker (goto i p h) = hs_tracker h"
  "hs_done (goto i p h) = hs_done h" "hs_evicted (goto i p h) = hs_evicted h"
  "length (hs_threads (goto i p h)) = length (hs_threads h)"
  "held (goto i p h) = held h" "settled_events (goto i p h) = settled_events h"
  by (simp_all add: goto_def held_def settled_events_def)

lemma goto_nth: "i < length (hs_threads h) \<Longrightarrow> hs_threads (goto i p h) ! j =
    (if j = i then (hs_threads h ! i)\<lparr>ad_phase := p\<rparr> else hs_threads h ! j)"
  by (simp add: goto_def nth_list_update)

lemma goto_flying:
  assumes "i < length (hs_threads h)"
  shows "flying (goto i p h) = {ev. p = Ingesting ev} \<union> {ev. \<exists>j. j \<noteq> i \<and> at h j (Ingesting ev)}"
  using assms by (auto simp: flying_def at_def goto_nth split: if_splits)

lemma goto_flying_idle:
  assumes "i < length (hs_threads h)" "\<And>ev. ad_phase (hs_threads h ! i) \<noteq> Ingesting ev"
  shows "flying (goto i p h) = {ev. p = Ingesting ev} \<union> flying h"
proof -
  have "(\<exists>j. j \<noteq> i \<and> at h j (Ingesting ev)) \<longleftrightarrow> (\<exists>j. at h j (Ingesting ev))" for ev
    using assms(2) unfolding at_def by metis
  then show ?thesis unfolding goto_flying [OF assms(1)] by (simp add: flying_def)
qed

lemma with_buffer_simps [simp]:
  "hs_tracker (with_buffer b f h) = hs_tracker h" "hs_threads (with_buffer b f h) = hs_threads h"
  "hs_done (with_buffer b f h) = hs_done h" "hs_evicted (with_buffer b f h) = hs_evicted h"
  "so_buffer (hs_source (with_buffer b f h)) = b"
  "so_pending (hs_source (with_buffer b f h)) = f (so_pending (hs_source h))"
  "settled_events (with_buffer b f h) = settled_events h" "at (with_buffer b f h) = at h"
  "flying (with_buffer b f h) = flying h"
  by (simp_all add: with_buffer_def settled_events_def at_def flying_def fun_eq_iff)

lemma broadcast_simps [simp]:
  "hs_source (broadcast h) = hs_source h" "hs_tracker (broadcast h) = hs_tracker h"
  "hs_done (broadcast h) = hs_done h" "hs_evicted (broadcast h) = hs_evicted h"
  "length (hs_threads (broadcast h)) = length (hs_threads h)"
  "held (broadcast h) = held h" "settled_events (broadcast h) = settled_events h"
  by (simp_all add: broadcast_def held_def settled_events_def)

lemma broadcast_nth: "i < length (hs_threads h) \<Longrightarrow> hs_threads (broadcast h) ! i =
    (if ad_phase (hs_threads h ! i) = Sleeping then (hs_threads h ! i)\<lparr>ad_phase := Waiting\<rparr> else hs_threads h ! i)"
  by (simp add: broadcast_def)

lemma broadcast_flying [simp]: "flying (broadcast h) = flying h"
  by (auto simp: flying_def at_def broadcast_nth split: if_splits)

lemma hs_inv_broadcast:
  assumes "hs_inv epoch h"
  shows "hs_inv epoch (broadcast h)"
proof -
  have "filter busy (map (\<lambda>t. if ad_phase t = Sleeping then t\<lparr>ad_phase := Waiting\<rparr> else t) ts) = filter busy ts" for ts
    by (induction ts) (auto simp: busy_def)
  then have "filter busy (hs_threads (broadcast h)) = filter busy (hs_threads h)" by (simp add: broadcast_def)
  moreover have sec: "secured (broadcast h) p = secured h p" "secured h Waiting = secured h Sleeping" for p
    by (simp_all add: secured_def)
  moreover have "ad_owed (hs_threads (broadcast h) ! i) = ad_owed (hs_threads h ! i) \<and>
      ad_ts (hs_threads (broadcast h) ! i) = ad_ts (hs_threads h ! i) \<and>
      secured h (ad_phase (hs_threads (broadcast h) ! i)) = secured h (ad_phase (hs_threads h ! i)) \<and>
      passed (ad_phase (hs_threads (broadcast h) ! i)) = passed (ad_phase (hs_threads h ! i))"
    if "i < length (hs_threads h)" for i
    using broadcast_nth [OF that] sec(2) by (simp add: passed_def)
  ultimately show ?thesis using assms by (simp add: hs_inv_def Let_def cong: conj_cong)
qed

text \<open>A step of one goroutine keeps the invariant if it keeps the count of busy goroutines, loses no
  event, and secures what is owed to it.\<close>

lemma hs_inv_goto:
  assumes inv: "hs_inv epoch h" and i: "i < length (hs_threads h)" and same: "hs_threads h1 = hs_threads h"
    and buf: "buffer_ok (so_buffer (hs_source h1))"
    and pend: "so_pending (hs_source h1) + (if busy (hs_threads h ! i) then 1 else 0) =
      so_pending (hs_source h) + (if busy ((hs_threads h ! i)\<lparr>ad_phase := p\<rparr>) then 1 else 0)"
    and mono: "held h \<subseteq> held h1 \<union> flying (goto i p h1) \<union> settled_events h1"
      "flying h \<subseteq> flying (goto i p h1) \<union> settled_events h1" "settled_events h \<subseteq> settled_events h1"
    and owner: "ad_owed (hs_threads h ! i) \<subseteq> secured (goto i p h1) p"
    and track: "tracker_ok (hs_tracker h1)" "passed (ad_phase (hs_threads h ! i)) \<longrightarrow> passed p"
      "\<And>c. c \<in> {t_current (hs_tracker h1), t_confirmed (hs_tracker h1)} \<Longrightarrow>
         c \<in> {t_current (hs_tracker h), t_confirmed (hs_tracker h)} \<or> passed p \<and> c = ad_ts (hs_threads h ! i)"
  shows "hs_inv epoch (goto i p h1)"
proof -
  have i1: "i < length (hs_threads h1)" using i same by simp
  have "secured h q \<subseteq> secured (goto i p h1) q" for q
    by (rule secured_mono) (use mono in simp_all)
  then have owed: "let t = hs_threads (goto i p h1) ! j in
      ad_owed t \<subseteq> secured (goto i p h1) (ad_phase t) \<and> (\<forall>ev \<in> ad_owed t. due (ad_ts t) ev)"
    if "j < length (hs_threads h)" for j
    using inv that owner i1 same by (simp add: hs_inv_def goto_nth Let_def) blast
  have "length (filter busy (hs_threads (goto i p h1))) + (if busy (hs_threads h ! i) then 1 else 0) =
      length (filter busy (hs_threads h)) + (if busy ((hs_threads h ! i)\<lparr>ad_phase := p\<rparr>) then 1 else 0)"
    using busy_update [OF i] by (simp add: goto_def same)
  then have count: "so_pending (hs_source h1) = length (filter busy (hs_threads (goto i p h1)))"
    using pend inv by (simp add: hs_inv_def)
  have "c = epoch \<or> (\<exists>j < length (hs_threads h). passed (ad_phase (hs_threads (goto i p h1) ! j)) \<and>
      ad_ts (hs_threads (goto i p h1) ! j) = c)"
    if c: "c \<in> {t_current (hs_tracker h1), t_confirmed (hs_tracker h1)}" for c
  proof (cases "c \<in> {t_current (hs_tracker h), t_confirmed (hs_tracker h)}")
    case True
    then consider "c = epoch"
      | j where "j < length (hs_threads h)" "passed (ad_phase (hs_threads h ! j))" "ad_ts (hs_threads h ! j) = c"
      using inv by (auto simp: hs_inv_def)
    then show ?thesis
    proof cases
      case (2 j)
      then show ?thesis using i1 same track(2) by (intro disjI2 exI [of _ j]) (auto simp: goto_nth)
    qed simp
  next
    case False
    then have "passed p \<and> c = ad_ts (hs_threads h ! i)" using track(3) [OF c] by blast
    then show ?thesis using i i1 same by (intro disjI2 exI [of _ i]) (simp add: goto_nth)
  qed
  with owed count buf track(1) same show ?thesis by (simp add: hs_inv_def Let_def)
qed

lemma hs_owed:
  assumes "hs_inv epoch h" "at h i p"
  shows "ad_owed (hs_threads h ! i) \<subseteq> secured h p" "\<forall>ev \<in> ad_owed (hs_threads h ! i). due (ad_ts (hs_threads h ! i)) ev"
proof -
  have "\<forall>i < length (hs_threads h). let t = hs_threads h ! i in
      ad_owed t \<subseteq> secured h (ad_phase t) \<and> (\<forall>ev \<in> ad_owed t. due (ad_ts t) ev)"
    using assms(1) unfolding hs_inv_def by (elim conjE)
  then show "ad_owed (hs_threads h ! i) \<subseteq> secured h p" "\<forall>ev \<in> ad_owed (hs_threads h ! i). due (ad_ts (hs_threads h ! i)) ev"
    using assms(2) unfolding at_def Let_def by blast+
qed

lemma secured_leave:
  assumes inv: "hs_inv epoch h" and i: "at h i Draining" and stop: "\<not> ready h (ad_ts (hs_threads h ! i))"
  shows "ad_owed (hs_threads h ! i) \<subseteq> settled_events h \<union> flying h"
proof
  fix ev assume ev: "ev \<in> ad_owed (hs_threads h ! i)"
  note owed = hs_owed [OF inv i]
  have "ev \<in> secured h Draining" "due (ad_ts (hs_threads h ! i)) ev" using ev owed by auto
  then show "ev \<in> settled_events h \<union> flying h"
    using not_ready_not_held [OF inv stop] by (auto simp: secured_def)
qed

lemma hs_inv_source:
  assumes inv: "hs_inv epoch h" and buf: "buffer_ok (so_buffer s)" "so_pending s = so_pending (hs_source h)"
    and mono: "held h \<subseteq> set_mset (buffer_events (so_buffer s)) \<union> set evicted" "set (hs_evicted h) \<subseteq> set evicted"
  shows "hs_inv epoch (h\<lparr>hs_source := s, hs_evicted := evicted\<rparr>)"
proof -
  let ?h = "h\<lparr>hs_source := s, hs_evicted := evicted\<rparr>"
  have "flying ?h = flying h" by (simp add: flying_def at_def)
  then have "secured h q \<subseteq> secured ?h q" for q
    using mono by (intro secured_mono) (auto simp: held_def settled_events_def)
  then show ?thesis using inv buf by (auto simp: hs_inv_def Let_def)
qed

lemma source_emit_facts:
  assumes "source_emit collect_evicted ev (s, x) = Inr (s', x')" "buffer_ok (so_buffer s)"
  shows "buffer_ok (so_buffer s') \<and> so_pending s' = so_pending s \<and> set x \<subseteq> set x' \<and>
     set_mset (buffer_events (so_buffer s)) \<subseteq> set_mset (buffer_events (so_buffer s')) \<union> set x'"
proof (cases "so_stopped s")
  case True
  then show ?thesis using assms by (simp add: source_emit_def)
next
  case False
  then obtain b where add: "buffer_add collect_evicted ev (so_buffer s) x = Inr (b, x')"
      and s': "s' = s\<lparr>so_buffer := b, so_last := ev_offset ev\<rparr>"
    using assms(1) by (auto simp: source_emit_def elim!: go_bind_InrE)
  show ?thesis
  proof (cases "int (Suc (buffer_size (so_buffer s))) \<le> sint (b_max_size (so_buffer s))")
    case True
    from buffer_add_room [OF assms(2) True, of collect_evicted ev x] add s' show ?thesis by auto
  next
    case False
    then have full: "sint (b_max_size (so_buffer s)) < int (Suc (buffer_size (so_buffer s)))" by simp
    obtain over where over: "x' = x @ [over]" "buffer_ok b"
        "add_mset over (buffer_events b) = add_mset ev (buffer_events (so_buffer s))"
      using buffer_add_full [OF assms(2) full, of collect_evicted ev x] add by (auto simp: collect_evicted_def)
    have "set_mset (add_mset over (buffer_events b)) = set_mset (add_mset ev (buffer_events (so_buffer s)))"
      by (simp only: over(3))
    then show ?thesis using over(1,2) s' by auto
  qed
qed

lemma tracker_values:
  "c \<in> {t_current (tracker_advance ts t), t_confirmed (tracker_advance ts t)} \<Longrightarrow>
     c \<in> {t_current t, t_confirmed t} \<or> c = ts"
  "c \<in> {t_current (tracker_confirm t), t_confirmed (tracker_confirm t)} \<Longrightarrow> c \<in> {t_current t, t_confirmed t}"
  by (auto simp: tracker_advance_def tracker_confirm_def split: if_splits)

lemma hs_inv_emit:
  assumes inv: "hs_inv epoch h" and step: "source_emit collect_evicted ev (hs_source h, hs_evicted h) = Inr (s, evicted)"
  shows "hs_inv epoch (h\<lparr>hs_source := s, hs_evicted := evicted\<rparr>)"
proof -
  have "buffer_ok (so_buffer (hs_source h))" using inv by (simp add: hs_inv_def)
  from source_emit_facts [OF step this] show ?thesis
    by (intro hs_inv_source [OF inv]) (simp_all add: held_def)
qed

lemma hs_inv_call:
  assumes inv: "hs_inv epoch h"
  shows "hs_inv epoch (h\<lparr>hs_threads := hs_threads h @
      [\<lparr>ad_ts = ts, ad_phase = Draining, ad_owed = {ev. ev \<in># buffer_events (so_buffer (hs_source h)) \<and> due ts ev}\<rparr>]\<rparr>)"
proof -
  let ?t = "\<lparr>ad_ts = ts, ad_phase = Draining, ad_owed = {ev. ev \<in># buffer_events (so_buffer (hs_source h)) \<and> due ts ev}\<rparr>"
  let ?h = "h\<lparr>hs_threads := hs_threads h @ [?t]\<rparr>"
  have fl: "flying h \<subseteq> flying ?h" by (auto simp: flying_def at_def nth_append)
  then have sec: "secured h q \<subseteq> secured ?h q" for q
    by (intro secured_mono) (auto simp: held_def settled_events_def)
  have inv: "buffer_ok (so_buffer (hs_source h))" "so_pending (hs_source h) = length (filter busy (hs_threads h))"
      "\<forall>i < length (hs_threads h). let t = hs_threads h ! i in
        ad_owed t \<subseteq> secured h (ad_phase t) \<and> (\<forall>ev \<in> ad_owed t. due (ad_ts t) ev)" "tracker_ok (hs_tracker h)"
      "\<forall>c \<in> {t_current (hs_tracker h), t_confirmed (hs_tracker h)}. c = epoch \<or>
        (\<exists>i < length (hs_threads h). passed (ad_phase (hs_threads h ! i)) \<and> ad_ts (hs_threads h ! i) = c)"
    using inv unfolding hs_inv_def by blast+
  have "let t = hs_threads ?h ! j in ad_owed t \<subseteq> secured ?h (ad_phase t) \<and> (\<forall>ev \<in> ad_owed t. due (ad_ts t) ev)"
    if "j < length (hs_threads ?h)" for j
  proof (cases "j = length (hs_threads h)")
    case True
    then show ?thesis by (auto simp: secured_def held_def Let_def)
  next
    case False
    then have "j < length (hs_threads h)" using that by simp
    then show ?thesis using inv(3) sec by (simp add: nth_append Let_def) blast
  qed
  moreover have "\<exists>i < length (hs_threads ?h). passed (ad_phase (hs_threads ?h ! i)) \<and> ad_ts (hs_threads ?h ! i) = c"
    if "\<exists>i < length (hs_threads h). passed (ad_phase (hs_threads h ! i)) \<and> ad_ts (hs_threads h ! i) = c" for c
    using that by (metis (no_types, lifting) handshake.select_convs(3) handshake.surjective handshake.update_convs(3)
        length_append nth_append trans_less_add1)
  moreover have "\<not> busy ?t" by (simp add: busy_def)
  ultimately show ?thesis
    using inv by (simp add: hs_inv_def) blast
qed

lemma hs_inv_pop:
  assumes inv: "hs_inv epoch h" and step: "at h i Draining" "ready h (ad_ts (hs_threads h ! i))" "buffer_pop_min (so_buffer (hs_source h)) = Inr (ev, b)"
  shows "hs_inv epoch (goto i (Ingesting ev) (with_buffer b Suc h))"
proof -
  have ok: "buffer_ok (so_buffer (hs_source h))" using inv by (simp add: hs_inv_def)
  have i: "i < length (hs_threads h)" "ad_phase (hs_threads h ! i) = Draining" using step(1) by (simp_all add: at_def)
  have evs: "buffer_events (so_buffer (hs_source h)) = add_mset ev (buffer_events b)"
    by (rule rb.pop_events [OF ok step(3)])
  have held: "held h = insert ev (held (with_buffer b Suc h))"
    by (simp add: held_def evs)
  have fl: "flying (goto i (Ingesting ev) (with_buffer b Suc h)) = insert ev (flying h)"
    using i by (subst goto_flying_idle) auto
  show ?thesis
  proof (rule hs_inv_goto [OF inv i(1)])
    show "buffer_ok (so_buffer (hs_source (with_buffer b Suc h)))"
      using rb.pop_ok [OF ok step(3)] by simp
    show "ad_owed (hs_threads h ! i) \<subseteq> secured (goto i (Ingesting ev) (with_buffer b Suc h)) (Ingesting ev)"
      using hs_owed(1) [OF inv step(1)] held fl by (auto simp: secured_def)
    show "tracker_ok (hs_tracker (with_buffer b Suc h))" using inv by (simp add: hs_inv_def)
  qed (use i held fl in \<open>auto simp: busy_def passed_def\<close>)
qed

lemma hs_inv_ingest:
  assumes inv: "hs_inv epoch h" and step: "at h i (Ingesting ev)"
  shows "hs_inv epoch (goto i Acking (h\<lparr>hs_done := hs_done h @ [ev]\<rparr>))"
proof -
  let ?h1 = "h\<lparr>hs_done := hs_done h @ [ev]\<rparr>"
  have i: "i < length (hs_threads h)" "ad_phase (hs_threads h ! i) = Ingesting ev" using step by (simp_all add: at_def)
  have at: "at ?h1 = at h" by (simp add: at_def fun_eq_iff)
  have fl: "flying h \<subseteq> insert ev (flying (goto i Acking ?h1))"
  proof
    fix x assume "x \<in> flying h"
    then obtain j where j: "at h j (Ingesting x)" by (auto simp: flying_def)
    show "x \<in> insert ev (flying (goto i Acking ?h1))"
    proof (cases "j = i")
      case True
      then show ?thesis using i j by (simp add: at_def)
    next
      case False
      have "i < length (hs_threads ?h1)" using i by simp
      from goto_flying [OF this, of Acking] j False show ?thesis by (auto simp: at)
    qed
  qed
  have settled: "settled_events ?h1 = insert ev (settled_events h)" "held ?h1 = held h"
    by (auto simp: settled_events_def held_def)
  show ?thesis
  proof (rule hs_inv_goto [OF inv i(1)])
    show "ad_owed (hs_threads h ! i) \<subseteq> secured (goto i Acking ?h1) Acking"
      using hs_owed(1) [OF inv step] fl settled by (auto simp: secured_def)
  qed (use i fl settled inv in \<open>auto simp: busy_def passed_def hs_inv_def\<close>)
qed

lemma hs_inv_ack:
  assumes inv: "hs_inv epoch h" and step: "at h i Acking"
  shows "hs_inv epoch (broadcast (goto i Draining (with_buffer (so_buffer (hs_source h)) (\<lambda>n. n - 1) h)))"
proof (rule hs_inv_broadcast)
  let ?h1 = "with_buffer (so_buffer (hs_source h)) (\<lambda>n. n - 1) h"
  have i: "i < length (hs_threads h)" "ad_phase (hs_threads h ! i) = Acking" using step by (simp_all add: at_def)
  have held: "held ?h1 = held h" by (simp add: held_def)
  have fl: "flying (goto i Draining ?h1) = flying h"
    using i by (subst goto_flying_idle) auto
  have "filter busy (hs_threads h) \<noteq> []"
    using i nth_mem [OF i(1)] by (fastforce simp: filter_empty_conv busy_def)
  then have "0 < so_pending (hs_source h)" using inv by (simp add: hs_inv_def)
  then show "hs_inv epoch (goto i Draining ?h1)"
  proof (intro hs_inv_goto [OF inv i(1)])
    show "ad_owed (hs_threads h ! i) \<subseteq> secured (goto i Draining ?h1) Draining"
      using hs_owed(1) [OF inv step] fl held by (auto simp: secured_def)
  qed (use i fl held inv in \<open>auto simp: busy_def passed_def hs_inv_def\<close>)
qed

lemma hs_inv_wait:
  assumes inv: "hs_inv epoch h" and step: "at h i Draining" "\<not> ready h (ad_ts (hs_threads h ! i))" "0 < so_pending (hs_source h)"
  shows "hs_inv epoch (goto i Sleeping h)"
proof -
  have i: "i < length (hs_threads h)" "ad_phase (hs_threads h ! i) = Draining" using step(1) by (simp_all add: at_def)
  have fl: "flying (goto i Sleeping h) = flying h"
    using i by (subst goto_flying_idle) auto
  show ?thesis
  proof (rule hs_inv_goto [OF inv i(1)])
    show "ad_owed (hs_threads h ! i) \<subseteq> secured (goto i Sleeping h) Sleeping"
      using secured_leave [OF inv step(1,2)] fl by (auto simp: secured_def)
  qed (use i fl inv in \<open>auto simp: busy_def passed_def hs_inv_def\<close>)
qed

lemma hs_inv_sleep:
  assumes inv: "hs_inv epoch h" and step: "at h i Waiting" "0 < so_pending (hs_source h)"
  shows "hs_inv epoch (goto i Sleeping h)"
proof -
  have i: "i < length (hs_threads h)" "ad_phase (hs_threads h ! i) = Waiting" using step(1) by (simp_all add: at_def)
  have fl: "flying (goto i Sleeping h) = flying h"
    using i by (subst goto_flying_idle) auto
  show ?thesis
  proof (rule hs_inv_goto [OF inv i(1)])
    show "ad_owed (hs_threads h ! i) \<subseteq> secured (goto i Sleeping h) Sleeping"
      using hs_owed(1) [OF inv step(1)] fl by (auto simp: secured_def)
  qed (use i fl inv in \<open>auto simp: busy_def passed_def hs_inv_def\<close>)
qed

lemma hs_inv_pass:
  assumes inv: "hs_inv epoch h" and step: "at h i Draining" "\<not> ready h (ad_ts (hs_threads h ! i))" "so_pending (hs_source h) = 0"
  shows "hs_inv epoch (goto i Advancing h)"
proof -
  have i: "i < length (hs_threads h)" "ad_phase (hs_threads h ! i) = Draining" using step(1) by (simp_all add: at_def)
  have none: "flying h = {}" by (rule idle_not_flying [OF inv step(3)])
  show ?thesis
  proof (rule hs_inv_goto [OF inv i(1)])
    show "ad_owed (hs_threads h ! i) \<subseteq> secured (goto i Advancing h) Advancing"
      using secured_leave [OF inv step(1,2)] none by (auto simp: secured_def)
  qed (use i none inv in \<open>auto simp: busy_def passed_def hs_inv_def\<close>)
qed

lemma hs_inv_wake:
  assumes inv: "hs_inv epoch h" and step: "at h i Waiting" "so_pending (hs_source h) = 0"
  shows "hs_inv epoch (goto i Advancing h)"
proof -
  have i: "i < length (hs_threads h)" "ad_phase (hs_threads h ! i) = Waiting" using step(1) by (simp_all add: at_def)
  have none: "flying h = {}" by (rule idle_not_flying [OF inv step(2)])
  show ?thesis
  proof (rule hs_inv_goto [OF inv i(1)])
    show "ad_owed (hs_threads h ! i) \<subseteq> secured (goto i Advancing h) Advancing"
      using hs_owed(1) [OF inv step(1)] none by (auto simp: secured_def)
  qed (use i none inv in \<open>auto simp: busy_def passed_def hs_inv_def\<close>)
qed

lemma hs_inv_advance:
  assumes inv: "hs_inv epoch h" and step: "at h i Advancing"
  shows "hs_inv epoch (goto i Confirming (h\<lparr>hs_tracker := tracker_advance (ad_ts (hs_threads h ! i)) (hs_tracker h)\<rparr>))"
proof -
  let ?h1 = "h\<lparr>hs_tracker := tracker_advance (ad_ts (hs_threads h ! i)) (hs_tracker h)\<rparr>"
  have i: "i < length (hs_threads h)" "ad_phase (hs_threads h ! i) = Advancing" using step by (simp_all add: at_def)
  have same: "held ?h1 = held h" "settled_events ?h1 = settled_events h" "at ?h1 = at h"
    by (simp_all add: held_def settled_events_def at_def fun_eq_iff)
  have fl: "flying (goto i Confirming ?h1) = flying h"
    using i by (subst goto_flying_idle) (auto simp: flying_def same)
  have ok: "tracker_ok (hs_tracker h)" using inv by (simp add: hs_inv_def)
  show ?thesis
  proof (rule hs_inv_goto [OF inv i(1)])
    show "ad_owed (hs_threads h ! i) \<subseteq> secured (goto i Confirming ?h1) Confirming"
      using hs_owed(1) [OF inv step] by (auto simp: secured_def same)
    show "tracker_ok (hs_tracker ?h1)" using wm.ok_advance [OF ok] by simp
    show "c \<in> {t_current (hs_tracker h), t_confirmed (hs_tracker h)} \<or> passed Confirming \<and> c = ad_ts (hs_threads h ! i)"
      if "c \<in> {t_current (hs_tracker ?h1), t_confirmed (hs_tracker ?h1)}" for c
      using tracker_values(1) that by (simp add: passed_def)
  qed (use i fl same inv in \<open>auto simp: busy_def passed_def hs_inv_def\<close>)
qed

lemma hs_inv_confirm:
  assumes inv: "hs_inv epoch h" and step: "at h i Confirming"
  shows "hs_inv epoch (goto i Finished (h\<lparr>hs_tracker := tracker_confirm (hs_tracker h),
      hs_source := (hs_source h)\<lparr>so_drained := so_drained (hs_source h) + 1\<rparr>\<rparr>))"
proof -
  let ?h1 = "h\<lparr>hs_tracker := tracker_confirm (hs_tracker h),
      hs_source := (hs_source h)\<lparr>so_drained := so_drained (hs_source h) + 1\<rparr>\<rparr>"
  have i: "i < length (hs_threads h)" "ad_phase (hs_threads h ! i) = Confirming" using step by (simp_all add: at_def)
  have same: "held ?h1 = held h" "settled_events ?h1 = settled_events h" "at ?h1 = at h"
    by (simp_all add: held_def settled_events_def at_def fun_eq_iff)
  have fl: "flying (goto i Finished ?h1) = flying h"
    using i by (subst goto_flying_idle) (auto simp: flying_def same)
  have ok: "tracker_ok (hs_tracker h)" using inv by (simp add: hs_inv_def)
  show ?thesis
  proof (rule hs_inv_goto [OF inv i(1)])
    show "ad_owed (hs_threads h ! i) \<subseteq> secured (goto i Finished ?h1) Finished"
      using hs_owed(1) [OF inv step] by (auto simp: secured_def same)
    show "tracker_ok (hs_tracker ?h1)" using wm.ok_confirm [OF ok] by simp
    show "c \<in> {t_current (hs_tracker h), t_confirmed (hs_tracker h)} \<or> passed Finished \<and> c = ad_ts (hs_threads h ! i)"
      if "c \<in> {t_current (hs_tracker ?h1), t_confirmed (hs_tracker ?h1)}" for c
      using tracker_values(2) that by simp
  qed (use i fl same inv in \<open>auto simp: busy_def passed_def hs_inv_def\<close>)
qed

lemma hs_inv_stop:
  assumes inv: "hs_inv epoch h"
  shows "hs_inv epoch (broadcast (h\<lparr>hs_source := source_stop (hs_source h)\<rparr>))"
  by (rule hs_inv_broadcast) (use hs_inv_source [OF inv, of "source_stop (hs_source h)" "hs_evicted h"] inv
  in \<open>simp add: source_stop_def hs_inv_def held_def\<close>)

lemmas hs_inv_moves = hs_inv_pop hs_inv_ingest hs_inv_ack hs_inv_wait hs_inv_pass hs_inv_sleep hs_inv_wake
  hs_inv_advance hs_inv_confirm

lemma call_step_inv: "call_step i h h' \<Longrightarrow> hs_inv epoch h \<Longrightarrow> hs_inv epoch h'"
  by (induction rule: call_step.induct) (rule hs_inv_moves; assumption)+

lemma hs_step_inv: "hs_step h h' \<Longrightarrow> hs_inv epoch h \<Longrightarrow> hs_inv epoch h'"
  by (induction rule: hs_step.induct) (rule hs_inv_emit hs_inv_call call_step_inv hs_inv_stop; assumption)+

text \<open>A goroutine that neither sleeps nor has returned can take its next step.\<close>

lemma draining_moves:
  assumes inv: "hs_inv epoch h" and i: "at h i Draining"
  shows "\<exists>h'. call_step i h h'"
proof (cases "ready h (ad_ts (hs_threads h ! i))")
  case True
  have "buffer_ok (so_buffer (hs_source h))" using inv by (simp add: hs_inv_def)
  then obtain ev b where "buffer_pop_min (so_buffer (hs_source h)) = Inr (ev, b)"
    using True rb.pop_total [of "so_buffer (hs_source h)"] by (auto simp: ready_def Let_def)
  from call_step.hs_pop [OF i True this] show ?thesis by blast
next
  case False
  then show ?thesis using call_step.hs_pass [OF i] call_step.hs_wait [OF i] by (cases "so_pending (hs_source h)") auto
qed

lemma awake_moves:
  assumes inv: "hs_inv epoch h" and i: "at h i p" and p: "p \<noteq> Sleeping" "p \<noteq> Finished"
  shows "\<exists>h'. call_step i h h'"
proof (cases p)
  case Draining
  then show ?thesis using draining_moves [OF inv] i by simp
next
  case Waiting
  then show ?thesis
    using i call_step.hs_sleep [of h i] call_step.hs_wake [of h i] by (cases "so_pending (hs_source h)") auto
next
  case (Ingesting ev)
  then show ?thesis using i call_step.hs_ingest [of h i ev] by auto
next
  case Acking
  then show ?thesis using i call_step.hs_ack [of h i] by auto
next
  case Advancing
  then show ?thesis using i call_step.hs_advance [of h i] by auto
next
  case Confirming
  then show ?thesis using i call_step.hs_confirm [of h i] by auto
qed (use p in simp_all)

text \<open>A goroutine sleeps only while an event is in transit: every acknowledgement wakes all of them.\<close>

definition sleep_ok :: "handshake \<Rightarrow> bool" where
  "sleep_ok h \<longleftrightarrow> ((\<exists>t \<in> set (hs_threads h). ad_phase t = Sleeping) \<longrightarrow> 0 < so_pending (hs_source h))"

lemma broadcast_wakes: "t \<in> set (hs_threads (broadcast h)) \<Longrightarrow> ad_phase t \<noteq> Sleeping"
  by (auto simp: broadcast_def)

lemma sleep_ok_goto:
  assumes "sleep_ok h" "i < length (hs_threads h)" "hs_threads h1 = hs_threads h"
    and "so_pending (hs_source h) \<le> so_pending (hs_source h1)" "p = Sleeping \<longrightarrow> 0 < so_pending (hs_source h1)"
  shows "sleep_ok (goto i p h1)"
proof -
  have "ad_phase t \<noteq> Sleeping \<or> t \<in> set (hs_threads h) \<or> p = Sleeping" if "t \<in> set (hs_threads (goto i p h1))" for t
    using that set_update_subset_insert [of "hs_threads h" i "(hs_threads h ! i)\<lparr>ad_phase := p\<rparr>"] assms(3)
    by (auto simp: goto_def)
  then show ?thesis using assms(1,4,5) by (fastforce simp: sleep_ok_def)
qed

lemma call_step_sleep: "call_step i h h' \<Longrightarrow> sleep_ok h \<Longrightarrow> sleep_ok h'"
proof (induction rule: call_step.induct)
  case (hs_ack h)
  then show ?case using broadcast_wakes by (fastforce simp: sleep_ok_def)
qed (erule sleep_ok_goto; simp add: at_def)+

lemma hs_step_sleep: "hs_step h h' \<Longrightarrow> hs_inv epoch h \<Longrightarrow> sleep_ok h \<Longrightarrow> sleep_ok h'"
proof (induction rule: hs_step.induct)
  case (hs_emit ev h s evicted)
  have "buffer_ok (so_buffer (hs_source h))" using hs_emit.prems(1) by (simp add: hs_inv_def)
  then show ?case using source_emit_facts [OF hs_emit.hyps] hs_emit.prems(2) by (simp add: sleep_ok_def)
next
  case (hs_move i h h')
  then show ?case using call_step_sleep by blast
next
  case (hs_stop h)
  then show ?case using broadcast_wakes by (fastforce simp: sleep_ok_def)
qed (auto simp: sleep_ok_def)

text \<open>Between events and calls there is only so much to do: an event in the buffer is popped, ingested and
  acknowledged; and between two acknowledgements every call goes through its phases once.\<close>

fun carried :: "phase \<Rightarrow> nat" where
  "carried (Ingesting ev) = 2"
| "carried Acking = 1"
| "carried _ = 0"

fun phase_rank :: "phase \<Rightarrow> nat" where
  "phase_rank Draining = 5"
| "phase_rank Waiting = 4"
| "phase_rank Sleeping = 3"
| "phase_rank Advancing = 2"
| "phase_rank Confirming = 1"
| "phase_rank _ = 0"

definition tally :: "(phase \<Rightarrow> nat) \<Rightarrow> handshake \<Rightarrow> nat" where
  "tally f h = sum_list (map (\<lambda>t. f (ad_phase t)) (hs_threads h))"

definition work :: "handshake \<Rightarrow> nat" where
  "work h = 3 * length (b_entries (so_buffer (hs_source h))) + tally carried h"

lemma tally_goto:
  assumes "at h i q" "hs_threads h1 = hs_threads h"
  shows "tally f (goto i p h1) + f q = tally f h + f p"
proof -
  have i: "i < length (hs_threads h)" "ad_phase (hs_threads h ! i) = q" using assms(1) by (simp_all add: at_def)
  then have "f q \<le> sum_list (map (\<lambda>t. f (ad_phase t)) (hs_threads h))"
    by (metis (mono_tags, lifting) length_map member_le_sum_list nth_map nth_mem zero_le)
  then show ?thesis using i by (simp add: tally_def goto_def assms(2) map_update sum_list_update)
qed

lemma rank_lowers:
  assumes "at h i q" "hs_threads h1 = hs_threads h" "so_buffer (hs_source h1) = so_buffer (hs_source h)"
    and "carried q = 0" "carried p = 0" "phase_rank p < phase_rank q"
  shows "work (goto i p h1) = work h \<and> tally phase_rank (goto i p h1) < tally phase_rank h"
  using tally_goto [OF assms(1,2), of carried p] tally_goto [OF assms(1,2), of phase_rank p] assms(3-6)
  by (simp add: work_def)

lemma tally_carried_broadcast: "tally carried (broadcast h) = tally carried h"
proof -
  have "map (\<lambda>t. carried (ad_phase t)) (hs_threads (broadcast h)) = map (\<lambda>t. carried (ad_phase t)) (hs_threads h)"
    by (simp add: broadcast_def)
  then show ?thesis by (simp add: tally_def)
qed

lemma call_step_decreases:
  "call_step i h h' \<Longrightarrow> work h' < work h \<or> work h' = work h \<and> tally phase_rank h' < tally phase_rank h"
proof (induction rule: call_step.induct)
  case (hs_pop h ev b)
  have "tally carried (goto i (Ingesting ev) (with_buffer b Suc h)) = tally carried h + 2"
    using tally_goto [OF hs_pop(1), of "with_buffer b Suc h" carried "Ingesting ev"] by simp
  then show ?case using buffer_pop_shrinks [OF hs_pop(3)] by (simp add: work_def)
next
  case (hs_ingest h ev)
  then show ?case using tally_goto [OF hs_ingest, of "h\<lparr>hs_done := hs_done h @ [ev]\<rparr>" carried Acking] by (simp add: work_def)
next
  case (hs_ack h)
  let ?h1 = "with_buffer (so_buffer (hs_source h)) (\<lambda>n. n - 1) h"
  show ?case using tally_goto [OF hs_ack, of ?h1 carried Draining] by (simp add: work_def tally_carried_broadcast)
qed (rule disjI2, erule rank_lowers; simp)+

lemma calls_end: "\<not> (\<forall>k. \<exists>i. call_step i (f k) (f (Suc k)))"
proof
  assume f: "\<forall>k. \<exists>i. call_step i (f k) (f (Suc k))"
  let ?m = "\<lambda>h. (work h, tally phase_rank h)"
  have "(?m (f (Suc k)), ?m (f k)) \<in> less_than <*lex*> less_than" for k
    using f call_step_decreases [of _ "f k" "f (Suc k)"] by auto
  moreover obtain k where "(?m (f (Suc k)), ?m (f k)) \<notin> less_than <*lex*> less_than"
    by (rule wf_no_infinite_down_chainE [OF wf_lex_prod [OF wf_less_than wf_less_than], of "\<lambda>k. ?m (f k)"])
  ultimately show False by blast
qed

lemma hs_inv_new: "hs_inv epoch (new_handshake max_size epoch)"
  by (simp add: hs_inv_def new_handshake_def new_source_def buffer_ok_new tracker_ok_new)
     (simp add: new_tracker_def)

lemma hs_reachable_inv:
  assumes "hs_reachable (new_handshake max_size epoch) h"
  shows "hs_inv epoch h"
  using assms unfolding hs_reachable_def
  by (induction rule: rtranclp_induct) (simp_all add: hs_inv_new hs_step_inv)

lemma hs_reachable_sleep:
  assumes "hs_reachable (new_handshake max_size epoch) h"
  shows "sleep_ok h"
  using assms unfolding hs_reachable_def
proof (induction rule: rtranclp_induct)
  case (step h h')
  then show ?case using hs_step_sleep hs_reachable_inv [unfolded hs_reachable_def] by blast
qed (simp add: sleep_ok_def new_handshake_def)

lemma some_call_moves:
  assumes inv: "hs_inv epoch h" and sleep: "sleep_ok h" and t: "t \<in> set (hs_threads h)" "ad_phase t \<noteq> Finished"
  shows "\<exists>i h'. call_step i h h'"
proof (cases "ad_phase t = Sleeping")
  case True
  then have "0 < so_pending (hs_source h)" using sleep t(1) by (auto simp: sleep_ok_def)
  then have "filter busy (hs_threads h) \<noteq> []" using inv by (auto simp: hs_inv_def)
  then obtain j where "j < length (hs_threads h)" "busy (hs_threads h ! j)"
    by (auto simp: filter_empty_conv in_set_conv_nth)
  then show ?thesis using awake_moves [OF inv, of j] by (auto simp: busy_def at_def)
next
  case False
  obtain i where "at h i (ad_phase t)" using t(1) by (auto simp: at_def in_set_conv_nth)
  then show ?thesis using awake_moves [OF inv] False t(2) by blast
qed

section \<open>Properties\<close>

text \<open>C31: \<^verbatim>\<open>AdvanceTo\<close> terminates without panicking, hands the pipeline exactly
  the buffered events whose time is at or below the new watermark, each once and in event time
  order, keeps the others, and only then confirms a watermark that is at least the requested one and
  never moves back.\<close>

theorem advance_drains_in_event_time_order:
  assumes "buffer_ok (so_buffer s)" and "so_pending s = 0" and "tracker_ok t"
  shows "\<exists>s' t' evs. advance_to record_ingest ts (s, t, []) = Inr (s', t', evs) \<and>
     mset evs = filter_mset (\<lambda>ev. event_time ev \<le> sint ts) (buffer_events (so_buffer s)) \<and>
     buffer_events (so_buffer s') = filter_mset (\<lambda>ev. sint ts < event_time ev) (buffer_events (so_buffer s)) \<and>
     sorted (map event_time evs) \<and>
     sint (confirmed_of t') = max (sint (current_of t)) (sint ts) \<and>
     sint (confirmed_of t) \<le> sint (confirmed_of t') \<and> buffer_ok (so_buffer s') \<and> so_pending s' = 0"
proof -
  obtain evs rest where f: "buffer_ok rest" "mset evs = filter_mset (due ts) (buffer_events (so_buffer s))"
      "buffer_events rest = filter_mset (\<lambda>ev. \<not> due ts ev) (buffer_events (so_buffer s))"
      "sorted (map event_time evs)"
      and all: "\<And>(ingest :: event list ingest_fun) t w. advance_to ingest ts (s, t, w) =
        go_bind (ingest_all ingest evs w) (\<lambda>w'.
          Inr (s\<lparr>so_buffer := rest, so_drained := so_drained s + 1\<rparr>,
               tracker_confirm (tracker_advance ts t), w'))"
    using advance_to_facts [OF assms(1,2), of ts] by blast
  have call: "advance_to record_ingest ts (s, t, []) = Inr (s\<lparr>so_buffer := rest, so_drained := so_drained s + 1\<rparr>,
         tracker_confirm (tracker_advance ts t), evs)"
    by (simp add: all ingest_all_record)
  show ?thesis
    unfolding call using f(1-4) assms(2) wm.handshake [OF assms(3)] wm.handshake_mono [OF assms(3)]
    by (simp add: due_def [abs_def] not_le)
qed

theorem advance_drains_in_event_time_order_witness:
  "let s = (new_source (new_buffer 8))\<lparr>so_buffer :=
       \<lparr>b_entries = [new_data ''k'' 2 100 2, new_data ''k'' 1 300 1], b_max_size = 8\<rparr>\<rparr>
   in \<exists>s' t' evs. advance_to record_ingest 200 (s, new_tracker 0, []) = Inr (s', t', evs) \<and>
        mset evs = {#new_data ''k'' 2 100 2#} \<and> sint (confirmed_of t') = 200"
proof -
  let ?s = "(new_source (new_buffer 8))\<lparr>so_buffer :=
       \<lparr>b_entries = [new_data ''k'' 2 100 2, new_data ''k'' 1 300 1], b_max_size = 8\<rparr>\<rparr>"
  have ok: "buffer_ok (so_buffer ?s)" by (auto simp: buffer_ok_def heap_upto_def less_Suc_eq event_time_def)
  have "so_pending ?s = 0" by (simp add: new_source_def)
  from advance_drains_in_event_time_order [OF ok this tracker_ok_new, of 200 0]
  show ?thesis by (auto simp: Let_def buffer_events_def event_time_def new_tracker_def current_of_def)
qed

text \<open>C7: the handshake is safe for any interleaving of emits and concurrent advances: once a
  goroutine is past the wait, every event that was due and buffered when it was called has been
  ingested (or was evicted by a full buffer), and the confirmed watermark is the epoch or the
  timestamp of such a goroutine. So a window is never triggered while an event that precedes the
  advance is still in transit.\<close>

theorem handshake_confirms_only_drained:
  assumes "hs_reachable (new_handshake max_size epoch) h"
  shows "(\<forall>t \<in> set (hs_threads h). ad_phase t \<in> {Advancing, Confirming, Finished} \<longrightarrow>
            ad_owed t \<subseteq> set (hs_done h) \<union> set (hs_evicted h)) \<and>
     (t_confirmed (hs_tracker h) = epoch \<or>
        (\<exists>t \<in> set (hs_threads h). ad_phase t \<in> {Confirming, Finished} \<and>
            ad_ts t = t_confirmed (hs_tracker h) \<and> ad_owed t \<subseteq> set (hs_done h) \<union> set (hs_evicted h)))"
proof -
  have inv: "hs_inv epoch h" by (rule hs_reachable_inv [OF assms])
  have out: "ad_owed (hs_threads h ! i) \<subseteq> set (hs_done h) \<union> set (hs_evicted h)"
    if "i < length (hs_threads h)" "ad_phase (hs_threads h ! i) \<in> {Advancing, Confirming, Finished}" for i
  proof -
    have "at h i (ad_phase (hs_threads h ! i))" using that(1) by (simp add: at_def)
    from hs_owed(1) [OF inv this] that(2) show ?thesis by (auto simp: secured_def settled_events_def)
  qed
  then have threads: "\<forall>t \<in> set (hs_threads h). ad_phase t \<in> {Advancing, Confirming, Finished} \<longrightarrow>
      ad_owed t \<subseteq> set (hs_done h) \<union> set (hs_evicted h)"
    by (metis in_set_conv_nth)
  have "t_confirmed (hs_tracker h) = epoch \<or>
      (\<exists>i < length (hs_threads h). passed (ad_phase (hs_threads h ! i)) \<and>
         ad_ts (hs_threads h ! i) = t_confirmed (hs_tracker h))"
    using inv unfolding hs_inv_def by blast
  then have "t_confirmed (hs_tracker h) = epoch \<or>
      (\<exists>t \<in> set (hs_threads h). ad_phase t \<in> {Confirming, Finished} \<and> ad_ts t = t_confirmed (hs_tracker h))"
    by (auto simp: passed_def)
  with threads show ?thesis by blast
qed

text \<open>C8: the handshake cannot get stuck: as long as some call of \<^verbatim>\<open>AdvanceTo\<close>
  has not returned, some call can take its next step, no call being left asleep on the condition while nothing is
  in transit. Nor can the calls go on for ever: without new events and calls every sequence of their steps
  ends, and so with all of them returned.\<close>

theorem handshake_never_stuck:
  assumes "hs_reachable (new_handshake max_size epoch) h"
  shows "((\<exists>t \<in> set (hs_threads h). ad_phase t \<noteq> Finished) \<longrightarrow> (\<exists>i h'. call_step i h h')) \<and>
     ((\<exists>t \<in> set (hs_threads h). ad_phase t = Sleeping) \<longrightarrow> 0 < so_pending (hs_source h)) \<and>
     \<not> (\<exists>f. f 0 = h \<and> (\<forall>k. \<exists>i. call_step i (f k) (f (Suc k))))"
  using some_call_moves [OF hs_reachable_inv [OF assms] hs_reachable_sleep [OF assms]] hs_reachable_sleep [OF assms]
    calls_end
  unfolding sleep_ok_def by blast

text \<open>Two calls on a buffer with one due event: the first is ingesting it, the second sleeps.\<close>

definition one_buffered :: source where
  "one_buffered = (new_source \<lparr>b_entries = [new_data ''k'' 1 3 0], b_max_size = 8\<rparr>)\<lparr>so_last := 0\<rparr>"

definition sleeping_pair :: handshake where
  "sleeping_pair = (new_handshake 8 0)\<lparr>
     hs_source := one_buffered\<lparr>so_buffer := new_buffer 8, so_pending := 1\<rparr>,
     hs_threads := [\<lparr>ad_ts = 5, ad_phase = Ingesting (new_data ''k'' 1 3 0), ad_owed = {new_data ''k'' 1 3 0}\<rparr>,
       \<lparr>ad_ts = 4, ad_phase = Sleeping, ad_owed = {}\<rparr>]\<rparr>"

lemma sleeping_pair_reachable: "hs_reachable (new_handshake 8 0) sleeping_pair"
proof -
  let ?ev = "new_data ''k'' 1 3 0" and ?s = one_buffered
  let ?h1 = "(new_handshake 8 0)\<lparr>hs_source := ?s\<rparr>"
  let ?t = "\<lambda>p. \<lparr>ad_ts = 5, ad_phase = p, ad_owed = {?ev}\<rparr>" and ?u = "\<lambda>p. \<lparr>ad_ts = 4, ad_phase = p, ad_owed = {}\<rparr>"
  let ?h3 = "?h1\<lparr>hs_source := ?s\<lparr>so_buffer := new_buffer 8, so_pending := 1\<rparr>, hs_threads := [?t (Ingesting ?ev)]\<rparr>"
  have "source_emit collect_evicted ?ev (new_source (new_buffer 8), []) = Inr (?s, [])" by code_simp
  then have 1: "hs_step (new_handshake 8 0) ?h1"
    using hs_step.hs_emit [of ?ev "new_handshake 8 0" ?s "[]"] by (simp add: new_handshake_def)
  have "event_time ?ev \<le> 5" by code_simp
  then have owed: "{ev. ev \<in># buffer_events (so_buffer ?s) \<and> due 5 ev} = {?ev}"
    by (auto simp: one_buffered_def new_source_def buffer_events_def due_def)
  have 2: "hs_step ?h1 (?h1\<lparr>hs_threads := [?t Draining]\<rparr>)"
    using hs_step.hs_call [of ?h1 5] owed by (simp add: new_handshake_def)
  have "buffer_pop_min (so_buffer ?s) = Inr (?ev, new_buffer 8)" "buffer_min_timestamp (so_buffer ?s) \<le>s 5"
      "\<not> buffer_empty (so_buffer ?s)"
    by code_simp+
  then have 3: "hs_step (?h1\<lparr>hs_threads := [?t Draining]\<rparr>) ?h3"
    using call_step.hs_pop [of "?h1\<lparr>hs_threads := [?t Draining]\<rparr>" 0 ?ev "new_buffer 8"]
    by (intro hs_step.hs_move [of 0]) (simp add: at_def ready_def goto_def with_buffer_def one_buffered_def new_source_def)
  have none: "{ev. ev \<in># buffer_events (new_buffer 8) \<and> due 4 ev} = {}" by (simp add: buffer_events_def new_buffer_def)
  have 4: "hs_step ?h3 (?h3\<lparr>hs_threads := [?t (Ingesting ?ev), ?u Draining]\<rparr>)"
    using hs_step.hs_call [of ?h3 4] none by simp
  have "buffer_empty (new_buffer 8)" by code_simp
  then have 5: "hs_step (?h3\<lparr>hs_threads := [?t (Ingesting ?ev), ?u Draining]\<rparr>) sleeping_pair"
    using call_step.hs_wait [of "?h3\<lparr>hs_threads := [?t (Ingesting ?ev), ?u Draining]\<rparr>" 1]
    by (intro hs_step.hs_move [of 1]) (simp add: at_def ready_def goto_def sleeping_pair_def)
  show ?thesis unfolding hs_reachable_def using 1 2 3 4 5 by (meson converse_rtranclp_into_rtranclp r_into_rtranclp)
qed

theorem handshake_never_stuck_witness:
  "hs_reachable (new_handshake 8 0) sleeping_pair \<and> (\<exists>t \<in> set (hs_threads sleeping_pair). ad_phase t = Sleeping) \<and>
     (\<exists>i h'. call_step i sleeping_pair h')"
proof -
  have "\<exists>t \<in> set (hs_threads sleeping_pair). ad_phase t = Sleeping" by (simp add: sleeping_pair_def)
  moreover from this have "\<exists>t \<in> set (hs_threads sleeping_pair). ad_phase t \<noteq> Finished" by force
  ultimately show ?thesis using handshake_never_stuck [OF sleeping_pair_reachable] sleeping_pair_reachable by blast
qed

text \<open>From there the first call ingests its event, acknowledges it and is past its wait.\<close>

lemma pair_drains:
  "\<exists>h. hs_reachable (new_handshake 8 0) h \<and> (\<exists>t \<in> set (hs_threads h). ad_phase t = Advancing \<and> ad_owed t = {new_data ''k'' 1 3 0})"
proof -
  let ?h1 = "goto 0 Acking (sleeping_pair\<lparr>hs_done := hs_done sleeping_pair @ [new_data ''k'' 1 3 0]\<rparr>)"
  let ?h2 = "broadcast (goto 0 Draining (with_buffer (so_buffer (hs_source ?h1)) (\<lambda>n. n - 1) ?h1))"
  have empty: "buffer_empty (new_buffer 8)" by code_simp
  have "call_step 0 sleeping_pair ?h1" by (rule call_step.hs_ingest) (simp add: at_def sleeping_pair_def)
  moreover have "call_step 0 ?h1 ?h2" by (rule call_step.hs_ack) (simp add: at_def goto_def sleeping_pair_def)
  moreover have "call_step 0 ?h2 (goto 0 Advancing ?h2)"
    by (rule call_step.hs_pass)
       (simp_all add: at_def ready_def goto_def broadcast_def with_buffer_def sleeping_pair_def empty)
  ultimately have "hs_reachable (new_handshake 8 0) (goto 0 Advancing ?h2)"
    using sleeping_pair_reachable unfolding hs_reachable_def by (meson hs_step.hs_move rtranclp.rtrancl_into_rtrancl)
  moreover have "hs_threads (goto 0 Advancing ?h2) ! 0 = \<lparr>ad_ts = 5, ad_phase = Advancing, ad_owed = {new_data ''k'' 1 3 0}\<rparr>"
    "0 < length (hs_threads (goto 0 Advancing ?h2))"
    by (simp_all add: goto_def broadcast_def with_buffer_def sleeping_pair_def)
  ultimately show ?thesis by (metis advancer.select_convs(2,3) nth_mem)
qed

theorem handshake_confirms_only_drained_witness:
  "\<exists>h. hs_reachable (new_handshake 8 0) h \<and> new_data ''k'' 1 3 0 \<in> set (hs_done h) \<union> set (hs_evicted h) \<and>
     (\<exists>t \<in> set (hs_threads h). ad_phase t = Advancing \<and> ad_owed t = {new_data ''k'' 1 3 0})"
proof -
  obtain h t where h: "hs_reachable (new_handshake 8 0) h" "t \<in> set (hs_threads h)" "ad_phase t = Advancing"
      "ad_owed t = {new_data ''k'' 1 3 0}"
    using pair_drains by blast
  then have "ad_owed t \<subseteq> set (hs_done h) \<union> set (hs_evicted h)"
    using handshake_confirms_only_drained [OF h(1)] by blast
  then show ?thesis using h by auto
qed

end
