(* ===== verification/Agg_Store.thy ===== *)
theory Agg_Store
  imports Results
begin

text \<open>
  \<^verbatim>\<open>internal/agg/agg.go\<close> (the result store) and
  \<^verbatim>\<open>combiner.go\<close>. The two window managers reach the store only through the
  interface \<^verbatim>\<open>ResultSink\<close>; its contract is the locale \<open>result_sink\<close>,
  interpreted here on the store.
\<close>

section \<open>Store\<close>

record agg_store =
  a_results :: "window_id \<rightharpoonup> window_result"

definition new_agg_store :: agg_store where
  "new_agg_store = \<lparr>a_results = Map.empty\<rparr>"

definition agg_entry :: "window_id \<Rightarrow> agg_store \<Rightarrow> window_result" where
  "agg_entry w s = (case a_results s w of None \<Rightarrow> fresh_result w | Some r \<Rightarrow> r)"

definition agg_update :: "window_id \<Rightarrow> int64 \<Rightarrow> agg_store \<Rightarrow> agg_store" where
  "agg_update w value s =
     (let r = agg_entry w s;
          r' = (if r_emitted r then apply_late value r else apply_value value r)
      in s\<lparr>a_results := (a_results s)(w \<mapsto> r')\<rparr>)"

definition agg_late_update :: "window_id \<Rightarrow> int64 \<Rightarrow> agg_store \<Rightarrow> agg_store" where
  "agg_late_update w value s =
     s\<lparr>a_results := (a_results s)(w \<mapsto> apply_late value (agg_entry w s))\<rparr>"

definition emit_result :: "window_id \<Rightarrow> int64 list \<Rightarrow> agg_store \<Rightarrow> window_result option \<times> agg_store" where
  "emit_result w values s =
     (let r = agg_entry w s; s1 = s\<lparr>a_results := (a_results s)(w \<mapsto> r)\<rparr>
      in if r_emitted r then (None, s1)
         else let r' = (fold apply_value values r)\<lparr>r_emitted := True\<rparr>
              in (Some (result_snapshot r'), s1\<lparr>a_results := (a_results s1)(w \<mapsto> r')\<rparr>))"

definition agg_result :: "window_id \<Rightarrow> agg_store \<Rightarrow> window_result option" where
  "agg_result w s = map_option result_snapshot (a_results s w)"

definition agg_result_count :: "agg_store \<Rightarrow> nat" where
  "agg_result_count s = card (dom (a_results s))"

definition agg_summary :: "window_id list \<Rightarrow> agg_store \<Rightarrow> window_result list" where
  "agg_summary order s =
     sort_slice (\<lambda>r. window_string (r_window r))
       (range_fold (\<lambda>w r out. out @ [result_snapshot r]) order (a_results s) [])"

section \<open>Combiner\<close>

text \<open>The merge of one result into the target of the same window.\<close>

definition combine_into :: "window_result \<Rightarrow> window_result \<Rightarrow> window_result" where
  "combine_into result t0 =
     (let t1 = t0\<lparr>r_count := r_count t0 + r_count result, r_sum := r_sum t0 + r_sum result,
                  r_late_count := r_late_count t0 + r_late_count result,
                  r_late_sum := r_late_sum t0 + r_late_sum result\<rparr>;
          t2 = (if r_min result <s r_min t1 \<or> r_count t1 = r_count result
                then t1\<lparr>r_min := r_min result\<rparr> else t1);
          t3 = (if r_max t2 <s r_max result then t2\<lparr>r_max := r_max result\<rparr> else t2)
      in t3\<lparr>r_emitted := r_emitted t3 \<or> r_emitted result\<rparr>)"

definition combine_step ::
  "window_result \<Rightarrow> (window_id \<rightharpoonup> window_result) \<times> window_id list \<Rightarrow>
   (window_id \<rightharpoonup> window_result) \<times> window_id list" where
  "combine_step result = (\<lambda>(merged, order).
     case merged (r_window result) of
       None \<Rightarrow> (merged(r_window result \<mapsto> result), order @ [r_window result])
     | Some target \<Rightarrow> (merged(r_window result \<mapsto> combine_into result target), order))"

definition combine :: "window_result list \<Rightarrow> window_result list" where
  "combine results =
     (let (merged, order) = fold combine_step results (Map.empty, [])
      in map (\<lambda>id. the (merged id)) order)"

definition combine_count :: "window_result list \<Rightarrow> nat" where
  "combine_count results = length (combine results)"

section \<open>The sink contract\<close>

text \<open>The part of a result downstream consumers already saw: everything but the late fields.\<close>

definition published_part :: "window_result \<Rightarrow> window_result" where
  "published_part r = r\<lparr>r_late_count := 0, r_late_sum := 0\<rparr>"

text \<open>The result \<^verbatim>\<open>EmitResult\<close> builds for a window the sink has not seen.\<close>

definition window_outcome :: "window_id \<Rightarrow> int64 list \<Rightarrow> window_result" where
  "window_outcome w values = (apply_values values (fresh_result w))\<lparr>r_emitted := True\<rparr>"

locale result_sink =
  fixes emit :: "window_id \<Rightarrow> int64 list \<Rightarrow> 's \<Rightarrow> window_result option \<times> 's"
    and late :: "window_id \<Rightarrow> int64 \<Rightarrow> 's \<Rightarrow> 's"
    and published :: "'s \<Rightarrow> window_id \<rightharpoonup> window_result"
    and untouched :: "'s \<Rightarrow> window_id set"
  assumes untouched_unpublished: "w \<in> untouched s \<Longrightarrow> published s w = None"
    and emit_again: "published s w \<noteq> None \<Longrightarrow> emit w vs s = (None, s)"
    and emit_once: "published s w = None \<Longrightarrow>
          \<exists>r. fst (emit w vs s) = Some r \<and>
              published (snd (emit w vs s)) = (published s)(w \<mapsto> published_part r)"
    and emit_value: "w \<in> untouched s \<Longrightarrow> fst (emit w vs s) = Some (window_outcome w vs)"
    and emit_touches: "untouched (snd (emit w vs s)) = untouched s - {w}"
    and late_published: "published (late w v s) = published s"
    and late_touches: "untouched (late w v s) = untouched s - {w}"
begin

lemma emit_publishes: "published (snd (emit w vs s)) w \<noteq> None"
  using emit_once [of s w vs] emit_again [of s w vs] by (cases "published s w") auto

lemma emit_other: "w' \<noteq> w \<Longrightarrow> published (snd (emit w vs s)) w' = published s w'"
  using emit_once [of s w vs] emit_again [of s w vs] by (cases "published s w") auto

lemma emit_keeps: "published s w' = Some p \<Longrightarrow> published (snd (emit w vs s)) w' = Some p"
  using emit_again [of s w vs] emit_other [of w' w vs s] by (cases "w' = w") auto

lemma emit_new:
  assumes "w \<in> untouched s"
  shows "published (snd (emit w vs s)) = (published s)(w \<mapsto> window_outcome w vs)"
proof -
  have "published_part (window_outcome w vs) = window_outcome w vs"
    by (simp add: published_part_def window_outcome_def)
  then show ?thesis
    using emit_once [OF untouched_unpublished [OF assms], of vs] emit_value [OF assms] by auto
qed

end

section \<open>The store keeps the contract\<close>

definition published :: "agg_store \<Rightarrow> window_id \<rightharpoonup> window_result" where
  "published s = (\<lambda>w. case a_results s w of None \<Rightarrow> None
     | Some r \<Rightarrow> if r_emitted r then Some (published_part r) else None)"

definition untouched :: "agg_store \<Rightarrow> window_id set" where
  "untouched s = - dom (a_results s)"

text \<open>Every result is filed under its own window.\<close>

definition agg_ok :: "agg_store \<Rightarrow> bool" where
  "agg_ok s \<longleftrightarrow> (\<forall>w r. a_results s w = Some r \<longrightarrow> r_window r = w)"

lemma agg_entry_window [simp]: "agg_ok s \<Longrightarrow> r_window (agg_entry w s) = w"
  by (auto simp: agg_ok_def agg_entry_def split: option.splits)

lemma agg_ok_new [inv_intro]: "agg_ok new_agg_store"
  by (simp add: agg_ok_def new_agg_store_def)

lemma fold_apply_value: "fold apply_value vs r = apply_values vs r"
  by (simp add: apply_values_def)

lemma agg_ok_update [inv_intro]: "agg_ok s \<Longrightarrow> agg_ok (agg_update w v s)"
  by (auto simp: agg_ok_def agg_update_def Let_def agg_entry_def split: option.splits)

lemma agg_ok_late [inv_intro]: "agg_ok s \<Longrightarrow> agg_ok (agg_late_update w v s)"
  by (auto simp: agg_ok_def agg_late_update_def agg_entry_def split: option.splits)

lemma agg_ok_emit [inv_intro]: "agg_ok s \<Longrightarrow> agg_ok (snd (emit_result w vs s))"
  by (auto simp: agg_ok_def emit_result_def Let_def agg_entry_def fold_apply_value split: option.splits)

lemma published_part_late [simp]: "published_part (apply_late v r) = published_part r"
  by (simp add: published_part_def apply_late_def)

lemma published_late [frame]: "published (agg_late_update w v s) = published s"
  by (auto simp: published_def agg_late_update_def agg_entry_def fun_eq_iff split: option.splits)

interpretation ag: result_sink emit_result agg_late_update published untouched
proof unfold_locales
  fix s w vs assume "published s w \<noteq> None"
  then obtain r where r: "a_results s w = Some r" "r_emitted r"
    by (auto simp: published_def split: option.splits if_splits)
  then have "s\<lparr>a_results := (a_results s)(w \<mapsto> r)\<rparr> = s" by (simp add: fun_upd_idem)
  with r show "emit_result w vs s = (None, s)" by (simp add: emit_result_def agg_entry_def)
next
  fix s w vs assume "published s w = None"
  then have "\<not> r_emitted (agg_entry w s)"
    by (auto simp: published_def agg_entry_def split: option.splits if_splits)
  then show "\<exists>r. fst (emit_result w vs s) = Some r \<and>
      published (snd (emit_result w vs s)) = (published s)(w \<mapsto> published_part r)"
    by (auto simp: emit_result_def Let_def published_def result_snapshot_def fun_eq_iff)
next
  fix s w vs assume "w \<in> untouched s"
  then show "fst (emit_result w vs s) = Some (window_outcome w vs)"
    by (auto simp: untouched_def emit_result_def agg_entry_def result_snapshot_def window_outcome_def
        fold_apply_value domIff Let_def split: option.splits)
next
  fix w v s show "published (agg_late_update w v s) = published s" by (rule published_late)
qed (auto simp: untouched_def published_def emit_result_def Let_def agg_late_update_def
      domIff split: option.splits if_splits)

text \<open>A property of the sink that both methods keep; the windows and the sessions keep it too.\<close>

locale kept_by_sink =
  fixes emit :: "window_id \<Rightarrow> int64 list \<Rightarrow> 's \<Rightarrow> window_result option \<times> 's"
    and late :: "window_id \<Rightarrow> int64 \<Rightarrow> 's \<Rightarrow> 's"
    and kept :: "'s \<Rightarrow> bool"
  assumes kept_emit: "kept s \<Longrightarrow> kept (snd (emit w vs s))"
    and kept_late: "kept s \<Longrightarrow> kept (late w v s)"
begin

lemma kept_emit_pair: "kept s \<Longrightarrow> emit w vs s = (r, s') \<Longrightarrow> kept s'"
  using kept_emit [of s w vs] by simp

end

interpretation ak: kept_by_sink emit_result agg_late_update agg_ok
  by unfold_locales (auto intro: inv_intro)

section \<open>Runs of the store\<close>

datatype agg_op = AUpdate window_id int64 | ALate window_id int64 | AEmit window_id "int64 list"

fun agg_step :: "agg_op \<Rightarrow> agg_store \<Rightarrow> agg_store" where
  "agg_step (AUpdate w v) s = agg_update w v s"
| "agg_step (ALate w v) s = agg_late_update w v s"
| "agg_step (AEmit w vs) s = snd (emit_result w vs s)"

definition agg_run :: "agg_op list \<Rightarrow> agg_store \<Rightarrow> agg_store" where
  "agg_run ops s = fold agg_step ops s"

lemma agg_run_simps [simp]:
  "agg_run [] s = s"
  "agg_run (op # ops) s = agg_run ops (agg_step op s)"
  by (simp_all add: agg_run_def)

text \<open>The values an operation hands to a window that is already published.\<close>

fun late_values :: "window_id \<Rightarrow> agg_op list \<Rightarrow> int64 list" where
  "late_values w [] = []"
| "late_values w (AUpdate w' v # ops) = (if w' = w then v # late_values w ops else late_values w ops)"
| "late_values w (ALate w' v # ops) = (if w' = w then v # late_values w ops else late_values w ops)"
| "late_values w (AEmit w' vs # ops) = late_values w ops"

lemma agg_step_emitted:
  assumes "a_results s w = Some r" "r_emitted r"
  shows "a_results (agg_step op s) w =
    Some (case op of AUpdate w' v \<Rightarrow> if w' = w then apply_late v r else r
                   | ALate w' v \<Rightarrow> if w' = w then apply_late v r else r
                   | AEmit w' vs \<Rightarrow> r)"
  using assms
  by (cases op) (auto simp: agg_update_def agg_late_update_def emit_result_def agg_entry_def Let_def)

lemma agg_run_emitted:
  "a_results s w = Some r \<Longrightarrow> r_emitted r \<Longrightarrow>
   a_results (agg_run ops s) w = Some (fold apply_late (late_values w ops) r)"
proof (induction ops arbitrary: s r)
  case (Cons op ops)
  show ?case
    using Cons.IH agg_step_emitted [OF Cons.prems, of op] Cons.prems
    by (cases op) (auto simp del: agg_step.simps)
qed simp

lemma fold_apply_late:
  "fold apply_late vs r = r\<lparr>r_late_count := r_late_count r + of_nat (length vs),
                           r_late_sum := r_late_sum r + sum_list vs\<rparr>"
  by (induction vs arbitrary: r) (simp_all add: apply_late_def algebra_simps)

section \<open>Combining\<close>

lemma combine_aux:
  assumes "distinct (map r_window rs)" "set (map r_window rs) \<inter> dom merged = {}"
  shows "fold combine_step rs (merged, order) =
           (merged ++ map_of (map (\<lambda>r. (r_window r, r)) rs), order @ map r_window rs)"
  using assms
proof (induction rs arbitrary: merged order)
  case (Cons r rs)
  have "merged (r_window r) = None" using Cons.prems(2) by (auto simp: domIff)
  then have "combine_step r (merged, order) = (merged(r_window r \<mapsto> r), order @ [r_window r])"
    by (simp add: combine_step_def)
  moreover have "(merged(r_window r \<mapsto> r)) ++ map_of (map (\<lambda>r. (r_window r, r)) rs)
      = merged ++ map_of (map (\<lambda>r. (r_window r, r)) (r # rs))"
    using Cons.prems(1) dom_map_of_key [of r_window rs] by (simp add: map_add_upd_left)
  ultimately show ?case using Cons by (simp flip: fun_upd_def)
qed simp

section \<open>Properties\<close>

text \<open>Once a window's result has been published, no sequence of updates, late updates and
  further emissions changes what was published; the values that arrive afterwards are counted and
  summed in the late fields, and nowhere else.\<close>

theorem published_result_immutable:
  assumes "a_results s w = Some r" and "r_emitted r"
  shows "a_results (agg_run ops s) w =
     Some (r\<lparr>r_late_count := r_late_count r + of_nat (length (late_values w ops)),
             r_late_sum := r_late_sum r + sum_list (late_values w ops)\<rparr>)"
  using agg_run_emitted [OF assms] by (simp add: fold_apply_late)

theorem published_result_immutable_witness:
  "let w = \<lparr>w_start = 0, w_end = 100, w_key = ''''\<rparr>; s = snd (emit_result w [1, 2] new_agg_store)
   in map_option r_sum (agg_result w (agg_run [ALate w 99, AEmit w [7], AUpdate w 5] s)) = Some 3
      \<and> map_option r_late_sum (agg_result w (agg_run [ALate w 99, AEmit w [7], AUpdate w 5] s)) = Some 104"
proof -
  let ?w = "\<lparr>w_start = 0, w_end = 100, w_key = ''''\<rparr> :: window_id"
  let ?s = "snd (emit_result ?w [1, 2] new_agg_store)"
  let ?r = "(fold apply_value [1, 2] (fresh_result ?w))\<lparr>r_emitted := True\<rparr>"
  have h: "a_results ?s ?w = Some ?r" "r_emitted ?r"
    by (simp_all add: emit_result_def new_agg_store_def agg_entry_def Let_def)
  have "a_results (agg_run [ALate ?w 99, AEmit ?w [7], AUpdate ?w 5] ?s) ?w =
     Some (?r\<lparr>r_late_count := r_late_count ?r + of_nat (length (late_values ?w [ALate ?w 99, AEmit ?w [7], AUpdate ?w 5])),
              r_late_sum := r_late_sum ?r + sum_list (late_values ?w [ALate ?w 99, AEmit ?w [7], AUpdate ?w 5])\<rparr>)"
    by (rule published_result_immutable [OF h])
  then show ?thesis by (simp add: agg_result_def result_snapshot_def)
qed

text \<open>\<^verbatim>\<open>EmitResult\<close> publishes a window at most once: it returns a
  result exactly when the window was not published before, after it the window is published, and
  a second call returns nothing and changes nothing.\<close>

theorem emit_result_exactly_once:
  "(fst (emit_result w vs s) \<noteq> None \<longleftrightarrow> published s w = None) \<and>
   published (snd (emit_result w vs s)) w \<noteq> None \<and>
   emit_result w vs' (snd (emit_result w vs s)) = (None, snd (emit_result w vs s))"
proof -
  have p: "published (snd (emit_result w vs s)) w \<noteq> None" by (rule ag.emit_publishes)
  have "fst (emit_result w vs s) \<noteq> None \<longleftrightarrow> published s w = None"
    using ag.emit_once [of s w vs] ag.emit_again [of s w vs] by (cases "published s w") auto
  then show ?thesis using p ag.emit_again [OF p] by blast
qed

text \<open>Combining a list of results with pairwise different windows returns it unchanged, in
  the same order.\<close>

theorem combine_distinct_windows_identity:
  assumes "distinct (map r_window rs)"
  shows "combine rs = rs"
proof -
  have eq: "fold combine_step rs (Map.empty, []) = (map_of (map (\<lambda>r. (r_window r, r)) rs), map r_window rs)"
    using combine_aux [OF assms, of Map.empty "[]"] by simp
  have "the (map_of (map (\<lambda>r. (r_window r, r)) rs) (r_window r)) = r" if "r \<in> set rs" for r
    using assms that by (simp add: map_of_eq_Some_iff o_def image_iff)
  then show ?thesis by (simp add: combine_def eq o_def map_idI)
qed

theorem combine_distinct_windows_identity_witness:
  "combine [fresh_result \<lparr>w_start = 0, w_end = 100, w_key = ''''\<rparr>,
            fresh_result \<lparr>w_start = 100, w_end = 200, w_key = ''''\<rparr>] =
   [fresh_result \<lparr>w_start = 0, w_end = 100, w_key = ''''\<rparr>,
    fresh_result \<lparr>w_start = 100, w_end = 200, w_key = ''''\<rparr>]"
  by (rule combine_distinct_windows_identity) simp

text \<open>Merging a result that carries late values only (no counted value, hence minimum 0) into
  a result of positive values lowers the published minimum to 0: late values do affect the
  published aggregate of a combined window.\<close>

theorem combine_late_only_lowers_min:
  assumes "0 < sint (r_min t)" and "r_count r = 0" and "r_min r = 0"
  shows "r_min (combine_into r t) = 0 \<and> r_count (combine_into r t) = r_count t"
  using assms by (auto simp: combine_into_def Let_def go_int)

theorem combine_late_only_lowers_min_witness:
  "let w = \<lparr>w_start = 0, w_end = 100, w_key = ''''\<rparr>;
       t = window_outcome w [5, 9]; r = apply_late 3 (fresh_result w)
   in r_min t = 5 \<and> r_min (combine_into r t) = 0"
  using combine_late_only_lowers_min
    [of "window_outcome \<lparr>w_start = 0, w_end = 100, w_key = ''''\<rparr> [5, 9]"
        "apply_late 3 (fresh_result \<lparr>w_start = 0, w_end = 100, w_key = ''''\<rparr>)"]
  by (simp add: window_outcome_def apply_values_def Let_def)

end
