(* ===== verification/Partitions.thy ===== *)
theory Partitions
  imports Model
begin

text \<open>
  \<^verbatim>\<open>agg.PartitionedStore\<close>: per-key sums spread over partitions, and the
  migration of every key when the number of partitions changes. The routing function is a
  parameter of \<^verbatim>\<open>Repartition\<close> in the code; its contract is the locale
  \<open>partitioner\<close>, which the router's hash interprets.
\<close>

section \<open>Operations (agg.go)\<close>

record part_store =
  p_parts :: "(string \<rightharpoonup> int64) list"

type_synonym route_fun = "string \<Rightarrow> int64 \<Rightarrow> partition_id go"

text \<open>A slice index of type \<open>int\<close>.\<close>

definition in_range :: "int64 \<Rightarrow> 'a list \<Rightarrow> bool" where
  "in_range i xs \<longleftrightarrow> 0 \<le> sint i \<and> sint i < int (length xs)"

definition index_of :: "int64 \<Rightarrow> nat" where
  "index_of i = nat (sint i)"

text \<open>\<^verbatim>\<open>make\<close> panics for a negative length, and for one whose elements, here
  pointers of 8 bytes, do not fit into the 48-bit address space that the runtime of a 64-bit platform
  works with. That the memory at hand may not do for a smaller length is a fatal error of the runtime, no panic,
  and not modelled.\<close>

definition max_parts :: int where
  "max_parts = 2 ^ 48 div 8"

definition make_parts :: "int64 \<Rightarrow> (string \<rightharpoonup> int64) list go" where
  "make_parts n = (if sint n < 0 \<or> max_parts < sint n then Inl MakeSliceLen
     else Inr (replicate (nat (sint n)) Map.empty))"

lemma make_parts_total: "0 \<le> sint n \<Longrightarrow> sint n \<le> max_parts \<Longrightarrow> make_parts n = Inr (replicate (nat (sint n)) Map.empty)"
  by (simp add: make_parts_def)

lemma make_parts_InrD:
  assumes "make_parts n = Inr parts"
  shows "0 \<le> sint n" "sint n \<le> max_parts" "parts = replicate (nat (sint n)) Map.empty"
  using assms by (simp_all add: make_parts_def split: if_splits)

definition new_partitioned_store :: "int64 \<Rightarrow> part_store go" where
  "new_partitioned_store partitions =
     go_bind (make_parts partitions) (\<lambda>parts. Inr \<lparr>p_parts = parts\<rparr>)"

definition bump_at :: "int64 \<Rightarrow> string \<Rightarrow> int64 \<Rightarrow> (string \<rightharpoonup> int64) list \<Rightarrow> (string \<rightharpoonup> int64) list go" where
  "bump_at i key value parts =
     (if in_range i parts
      then Inr (parts[index_of i := bump key value (parts ! index_of i)])
      else Inl IndexOutOfRange)"

definition part_add :: "partition_id \<Rightarrow> string \<Rightarrow> int64 \<Rightarrow> part_store \<Rightarrow> part_store go" where
  "part_add part key value p =
     go_bind (bump_at part key value (p_parts p)) (\<lambda>parts. Inr (p\<lparr>p_parts := parts\<rparr>))"

definition part_value :: "partition_id \<Rightarrow> string \<Rightarrow> part_store \<Rightarrow> int64 option go" where
  "part_value part key p =
     (if in_range part (p_parts p) then Inr ((p_parts p ! index_of part) key)
      else Inl IndexOutOfRange)"

text \<open>The set \<open>seen\<close> of \<^verbatim>\<open>Keys\<close>, and its sorted listing.\<close>

definition part_seen :: "part_store \<Rightarrow> (string \<rightharpoonup> bool)" where
  "part_seen p = fold (\<lambda>part seen. seen ++ (\<lambda>k. map_option (\<lambda>_. True) (part k))) (p_parts p) Map.empty"

definition part_keys :: "string list \<Rightarrow> part_store \<Rightarrow> string list" where
  "part_keys order p =
     sort_slice (\<lambda>k. k) (range_fold (\<lambda>k _ out. out @ [k]) order (part_seen p) [])"

definition part_total :: "string \<Rightarrow> part_store \<Rightarrow> int64" where
  "part_total key p = fold (\<lambda>part total. total + getd part key) (p_parts p) 0"

definition partition_count :: "string \<Rightarrow> part_store \<Rightarrow> nat" where
  "partition_count key p =
     fold (\<lambda>part count. if part key \<noteq> None then count + 1 else count) (p_parts p) 0"

definition partitions_of :: "part_store \<Rightarrow> nat" where
  "partitions_of p = length (p_parts p)"

text \<open>
  The two nested loops of \<^verbatim>\<open>Repartition\<close>. The keys of each old partition
  are visited in the order of its enumeration; a routing panic or an index out of range ends the
  migration.
\<close>

fun move_keys :: "route_fun \<Rightarrow> int64 \<Rightarrow> string list \<Rightarrow> (string \<rightharpoonup> int64) \<Rightarrow>
    nat \<times> (string \<rightharpoonup> int64) list \<Rightarrow> (nat \<times> (string \<rightharpoonup> int64) list) go" where
  "move_keys route n [] part acc = Inr acc"
| "move_keys route n (key # keys) part (moved, next_parts) =
     (case part key of
        None \<Rightarrow> move_keys route n keys part (moved, next_parts)
      | Some value \<Rightarrow>
          go_bind (route key n) (\<lambda>i.
          go_bind (bump_at i key value next_parts) (\<lambda>next_parts'.
          move_keys route n keys part (moved + 1, next_parts'))))"

fun move_parts :: "route_fun \<Rightarrow> int64 \<Rightarrow> string list list \<Rightarrow> (string \<rightharpoonup> int64) list \<Rightarrow>
    nat \<times> (string \<rightharpoonup> int64) list \<Rightarrow> (nat \<times> (string \<rightharpoonup> int64) list) go" where
  "move_parts route n (keys # orders) (part # parts) acc =
     go_bind (move_keys route n keys part acc) (\<lambda>acc'. move_parts route n orders parts acc')"
| "move_parts route n _ _ acc = Inr acc"

definition repartition ::
  "string list list \<Rightarrow> int64 \<Rightarrow> int64 \<Rightarrow> route_fun \<Rightarrow> part_store \<Rightarrow> (nat \<times> part_store) go" where
  "repartition orders old_count new_count route p =
     (if new_count = old_count \<or> int (length (p_parts p)) \<noteq> sint old_count then Inr (0, p)
      else go_bind (make_parts new_count) (\<lambda>next_parts.
           go_bind (move_parts route new_count orders (p_parts p) (0, next_parts)) (\<lambda>(moved, parts).
           Inr (moved, p\<lparr>p_parts := parts\<rparr>))))"

section \<open>Totals and placement\<close>

definition total_in :: "(string \<rightharpoonup> int64) list \<Rightarrow> string \<Rightarrow> int64" where
  "total_in parts key = sum_list (map (\<lambda>part. getd part key) parts)"

lemma part_total_eq: "part_total key p = total_in (p_parts p) key"
proof -
  have "fold (\<lambda>part total. total + getd part key) parts t = t + total_in parts key" for parts t
    by (induction parts arbitrary: t) (simp_all add: total_in_def add.assoc)
  then show ?thesis by (simp add: part_total_def)
qed

lemma partition_count_eq:
  "partition_count key p = length (filter (\<lambda>part. part key \<noteq> None) (p_parts p))"
proof -
  have "fold (\<lambda>part count. if part key \<noteq> None then count + 1 else count) parts c =
        c + length (filter (\<lambda>part. part key \<noteq> None) parts)"
    for parts :: "(string \<rightharpoonup> int64) list" and c :: nat
    by (induction parts arbitrary: c) simp_all
  then show ?thesis by (simp only: partition_count_def add_0)
qed

lemma total_in_update:
  assumes "i < length parts"
  shows "total_in (parts[i := m]) key = total_in parts key - getd (parts ! i) key + getd m key"
  using assms
proof (induction parts arbitrary: i)
  case (Cons part parts)
  then show ?case by (cases i) (simp_all add: total_in_def algebra_simps)
qed simp

lemma total_in_replicate [simp]: "total_in (replicate n Map.empty) key = 0"
  by (induction n) (simp_all add: total_in_def)

text \<open>Every key of partition \<open>i\<close> is one the routing function sends to \<open>i\<close>.\<close>

definition placed :: "route_fun \<Rightarrow> int64 \<Rightarrow> (string \<rightharpoonup> int64) list \<Rightarrow> bool" where
  "placed route n parts \<longleftrightarrow>
     int (length parts) = sint n \<and>
     (\<forall>i key. i < length parts \<and> key \<in> dom (parts ! i) \<longrightarrow>
        (\<exists>j. route key n = Inr j \<and> in_range j parts \<and> index_of j = i))"

lemma bump_at_facts:
  assumes "in_range i parts"
  shows "\<exists>parts'. bump_at i key value parts = Inr parts' \<and> length parts' = length parts \<and>
           total_in parts' = (\<lambda>x. total_in parts x + (if x = key then value else 0)) \<and>
           (\<forall>j < length parts. dom (parts' ! j) =
              (if j = index_of i then insert key (dom (parts ! j)) else dom (parts ! j)))"
proof -
  have i: "index_of i < length parts" using assms by (auto simp: in_range_def index_of_def)
  then show ?thesis
    using assms by (auto simp: bump_at_def total_in_update getd_bump nth_list_update)
qed

lemma placed_bump_at:
  assumes "placed route n parts" "route key n = Inr i" "bump_at i key value parts = Inr parts'"
  shows "placed route n parts'"
proof -
  have i: "in_range i parts" using assms(3) by (auto simp: bump_at_def split: if_splits)
  obtain p where p: "bump_at i key value parts = Inr p" "length p = length parts"
      "\<forall>j < length parts. dom (p ! j) =
         (if j = index_of i then insert key (dom (parts ! j)) else dom (parts ! j))"
    using bump_at_facts [OF i] by blast
  have "\<exists>l. route k n = Inr l \<and> in_range l p \<and> index_of l = j"
    if "j < length p" "k \<in> dom (p ! j)" for j k
  proof (cases "j = index_of i \<and> k = key")
    case True
    then show ?thesis using assms(2) i p(2) by (auto simp: in_range_def)
  next
    case False
    then have "k \<in> dom (parts ! j)" using that p(2,3) by (auto split: if_splits)
    then have "\<exists>l. route k n = Inr l \<and> in_range l parts \<and> index_of l = j"
      using assms(1) that(1) p(2) unfolding placed_def by auto
    then show ?thesis by (simp add: in_range_def p(2))
  qed
  then have all: "\<forall>j k. j < length p \<and> k \<in> dom (p ! j) \<longrightarrow>
      (\<exists>l. route k n = Inr l \<and> in_range l p \<and> index_of l = j)" by blast
  have "p = parts'" using p(1) assms(3) by simp
  moreover have "int (length p) = sint n" using p(2) assms(1) by (simp add: placed_def)
  ultimately show ?thesis using all unfolding placed_def by blast
qed

lemma placed_replicate: "sint n = int k \<Longrightarrow> placed route n (replicate k Map.empty)"
  by (auto simp: placed_def)

text \<open>A key of a placed store sits in at most one partition.\<close>

lemma placed_unique:
  assumes "placed route n parts" "i < length parts" "j < length parts"
    and "key \<in> dom (parts ! i)" "key \<in> dom (parts ! j)"
  shows "i = j"
  using assms unfolding placed_def by (metis sum.inject(2))

lemma placed_count_le_1:
  assumes "placed route n (p_parts p)"
  shows "partition_count key p \<le> 1"
proof -
  let ?I = "{i. i < length (p_parts p) \<and> (p_parts p ! i) key \<noteq> None}"
  have "\<forall>i\<in>?I. \<forall>j\<in>?I. i = j" using placed_unique [OF assms] by blast
  then have "card ?I \<le> Suc 0" by (subst card_le_Suc0_iff_eq) simp_all
  then show ?thesis by (simp add: partition_count_eq length_filter_conv_card)
qed

section \<open>The routing contract\<close>

locale partitioner =
  fixes route :: route_fun
  assumes route_in_range: "0 < sint n \<Longrightarrow> \<exists>i. route key n = Inr i \<and> 0 \<le> sint i \<and> sint i < sint n"
begin

lemma move_keys_facts:
  assumes "0 < sint n" "placed route n parts" "distinct keys"
  shows "\<exists>parts'. move_keys route n keys part (moved, parts) =
             Inr (moved + length (filter (\<lambda>k. k \<in> dom part) keys), parts') \<and>
           placed route n parts' \<and>
           total_in parts' = (\<lambda>x. total_in parts x + (if x \<in> set keys then getd part x else 0))"
  using assms
proof (induction keys arbitrary: moved parts)
  case Nil
  then show ?case by simp
next
  case (Cons key keys)
  show ?case
  proof (cases "part key")
    case None
    then show ?thesis
      using Cons.IH [of parts "moved"] Cons.prems by (auto simp: getd_def domIff fun_eq_iff)
  next
    case (Some v)
    obtain i where i: "route key n = Inr i" "0 \<le> sint i" "sint i < sint n"
      using route_in_range Cons.prems(1) by blast
    have "in_range i parts" using Cons.prems(2) i by (simp add: in_range_def placed_def)
    then obtain p where p: "bump_at i key v parts = Inr p"
        "total_in p = (\<lambda>x. total_in parts x + (if x = key then v else 0))"
      using bump_at_facts by blast
    have "placed route n p" using placed_bump_at [OF Cons.prems(2) i(1) p(1)] .
    then obtain parts' where "move_keys route n keys part (moved + 1, p) =
          Inr (moved + 1 + length (filter (\<lambda>k. k \<in> dom part) keys), parts')"
        "placed route n parts'"
        "total_in parts' = (\<lambda>x. total_in p x + (if x \<in> set keys then getd part x else 0))"
      using Cons.IH [of p "moved + 1"] Cons.prems by auto
    then show ?thesis
      using Some i p Cons.prems(3) by (auto simp: getd_def fun_eq_iff)
  qed
qed

lemma move_parts_facts:
  assumes "0 < sint n" "placed route n acc" "list_all2 enum_of orders parts"
  shows "\<exists>parts'. move_parts route n orders parts (moved, acc) =
             Inr (moved + sum_list (map (\<lambda>part. card (dom part)) parts), parts') \<and>
           placed route n parts' \<and>
           total_in parts' = (\<lambda>x. total_in acc x + total_in parts x)"
  using assms(3,1,2)
proof (induction orders parts arbitrary: moved acc rule: list_all2_induct)
  case Nil
  then show ?case by (simp add: total_in_def)
next
  case (Cons keys orders part parts)
  have keys: "distinct keys" "set keys = dom part" using Cons.hyps(1) by (auto simp: enum_of_def)
  have len: "length (filter (\<lambda>k. k \<in> dom part) keys) = card (dom part)"
    using enum_of_length [OF Cons.hyps(1)] keys(2) by (metis filter_True)
  obtain acc' where a: "move_keys route n keys part (moved, acc) = Inr (moved + card (dom part), acc')"
      "placed route n acc'"
      "total_in acc' = (\<lambda>x. total_in acc x + (if x \<in> set keys then getd part x else 0))"
    using move_keys_facts [OF Cons.prems keys(1), of part moved] len by auto
  have get: "(if x \<in> set keys then getd part x else 0) = getd part x" for x
    using keys(2) by (auto simp: getd_def split: option.splits)
  show ?case
    using Cons.IH [OF Cons.prems(1) a(2), of "moved + card (dom part)"] a get
    by (auto simp: total_in_def fun_eq_iff)
qed

lemma repartition_facts:
  assumes "0 < sint new" "sint new \<le> max_parts" "new \<noteq> old" "int (length (p_parts p)) = sint old"
    and "list_all2 enum_of orders (p_parts p)"
  shows "\<exists>p'. repartition orders old new route p =
             Inr (sum_list (map (\<lambda>part. card (dom part)) (p_parts p)), p') \<and>
           placed route new (p_parts p') \<and> (\<forall>key. part_total key p' = part_total key p)"
proof -
  have "placed route new (replicate (nat (sint new)) Map.empty)"
    using assms(1) by (intro placed_replicate) simp
  then show ?thesis
    using move_parts_facts [OF assms(1) _ assms(5), of "replicate (nat (sint new)) Map.empty" 0] assms
    by (auto simp: repartition_def make_parts_total part_total_eq)
qed

end

end
