(* ===== verification/XXHash.thy ===== *)
theory XXHash
  imports Prelude
begin

unbundle bit_operations_syntax

text \<open>
  The vendored 64-bit xxHash (\<^verbatim>\<open>vendor/github.com/cespare/xxhash/v2\<close>) that
  the router hashes keys with: the one-shot \<^verbatim>\<open>Sum64\<close> of the portable Go
  implementation, the streaming \<^verbatim>\<open>Digest\<close>, and their equivalence. All
  arithmetic is on 64-bit words and wraps.
\<close>

type_synonym byte = "8 word"

section \<open>Rounds (xxhash.go)\<close>

definition prime1 :: uint64 where "prime1 = 11400714785074694791"
definition prime2 :: uint64 where "prime2 = 14029467366897019727"
definition prime3 :: uint64 where "prime3 = 1609587929392839161"
definition prime4 :: uint64 where "prime4 = 9650029242287828579"
definition prime5 :: uint64 where "prime5 = 2870177450012600261"

text \<open>\<^verbatim>\<open>binary.LittleEndian\<close> on the leading bytes.\<close>

fun le_word :: "byte list \<Rightarrow> 'a::len word" where
  "le_word [] = 0"
| "le_word (b # bs) = ucast b OR push_bit 8 (le_word bs)"

definition u64 :: "byte list \<Rightarrow> uint64" where
  "u64 b = le_word (take 8 b)"

definition u32 :: "byte list \<Rightarrow> 32 word" where
  "u32 b = le_word (take 4 b)"

definition rol :: "nat \<Rightarrow> uint64 \<Rightarrow> uint64" where
  "rol n x = word_rotl n x"

definition xx_round :: "uint64 \<Rightarrow> uint64 \<Rightarrow> uint64" where
  "xx_round acc input = rol 31 (acc + input * prime2) * prime1"

definition merge_round :: "uint64 \<Rightarrow> uint64 \<Rightarrow> uint64" where
  "merge_round acc val = (acc XOR xx_round 0 val) * prime1 + prime4"

text \<open>The four accumulators.\<close>

type_synonym lanes = "uint64 \<times> uint64 \<times> uint64 \<times> uint64"

definition seed_lanes :: "uint64 \<Rightarrow> lanes" where
  "seed_lanes seed = (seed + prime1 + prime2, seed + prime2, seed, seed - prime1)"

definition stripe :: "lanes \<Rightarrow> byte list \<Rightarrow> lanes" where
  "stripe v b = (case v of (v1, v2, v3, v4) \<Rightarrow>
     (xx_round v1 (u64 b), xx_round v2 (u64 (drop 8 b)),
      xx_round v3 (u64 (drop 16 b)), xx_round v4 (u64 (drop 24 b))))"

text \<open>The loop over whole 32-byte blocks; it returns the accumulators and the bytes left.\<close>

function blocks :: "lanes \<Rightarrow> byte list \<Rightarrow> lanes \<times> byte list" where
  "blocks v b = (if 32 \<le> length b then blocks (stripe v b) (drop 32 b) else (v, b))"
  by pat_completeness auto
termination
  by (relation "measure (\<lambda>(v, b). length b)") auto

declare blocks.simps [simp del]

definition merge_lanes :: "lanes \<Rightarrow> uint64" where
  "merge_lanes v = (case v of (v1, v2, v3, v4) \<Rightarrow>
     merge_round (merge_round (merge_round (merge_round
       (rol 1 v1 + rol 7 v2 + rol 12 v3 + rol 18 v4) v1) v2) v3) v4)"

text \<open>The tail: whole 8-byte words, then one 4-byte word, then single bytes.\<close>

function tail_words :: "uint64 \<Rightarrow> byte list \<Rightarrow> uint64 \<times> byte list" where
  "tail_words h b =
     (if 8 \<le> length b then tail_words (rol 27 (h XOR xx_round 0 (u64 b)) * prime1 + prime4) (drop 8 b)
      else (h, b))"
  by pat_completeness auto
termination
  by (relation "measure (\<lambda>(h, b). length b)") auto

declare tail_words.simps [simp del]

definition tail_half :: "uint64 \<times> byte list \<Rightarrow> uint64 \<times> byte list" where
  "tail_half hb = (case hb of (h, b) \<Rightarrow>
     if 4 \<le> length b then (rol 23 (h XOR (ucast (u32 b) * prime1)) * prime2 + prime3, drop 4 b)
     else (h, b))"

fun tail_bytes :: "uint64 \<Rightarrow> byte list \<Rightarrow> uint64" where
  "tail_bytes h [] = h"
| "tail_bytes h (c # b) = tail_bytes (rol 11 (h XOR (ucast c * prime5)) * prime1) b"

definition avalanche :: "uint64 \<Rightarrow> uint64" where
  "avalanche h0 =
     (let h1 = h0 XOR drop_bit 33 h0; h2 = h1 * prime2; h3 = h2 XOR drop_bit 29 h2;
          h4 = h3 * prime3
      in h4 XOR drop_bit 32 h4)"

definition finish :: "uint64 \<Rightarrow> byte list \<Rightarrow> uint64" where
  "finish h b = avalanche (case tail_half (tail_words h b) of (h', b') \<Rightarrow> tail_bytes h' b')"

section \<open>Sum64 (xxhash\_other.go)\<close>

definition sum64 :: "byte list \<Rightarrow> uint64" where
  "sum64 b =
     (let n = length b;
          (h, b') = (if 32 \<le> n
                     then (case blocks (prime1 + prime2, prime2, 0, - prime1) b of
                             (v, b') \<Rightarrow> (merge_lanes v, b'))
                     else (prime5, b))
      in finish (h + of_nat n) b')"

definition sum64_string :: "string \<Rightarrow> uint64" where
  "sum64_string s = sum64 (map of_char s)"

section \<open>Digest (xxhash.go)\<close>

record digest =
  d_lanes :: lanes
  d_total :: uint64
  d_mem :: "byte list"
  d_n :: nat

definition reset_with_seed :: "uint64 \<Rightarrow> digest \<Rightarrow> digest" where
  "reset_with_seed seed d = d\<lparr>d_lanes := seed_lanes seed, d_total := 0, d_n := 0\<rparr>"

definition new_with_seed :: "uint64 \<Rightarrow> digest" where
  "new_with_seed seed =
     reset_with_seed seed \<lparr>d_lanes = (0, 0, 0, 0), d_total = 0, d_mem = replicate 32 0, d_n = 0\<rparr>"

text \<open>\<^verbatim>\<open>copy(mem[pos:], src)\<close>.\<close>

definition copy_at :: "nat \<Rightarrow> byte list \<Rightarrow> byte list \<Rightarrow> byte list" where
  "copy_at pos src mem = take pos mem @ take (length mem - pos) src @ drop (pos + length src) mem"

definition digest_write :: "byte list \<Rightarrow> digest \<Rightarrow> digest" where
  "digest_write b d0 =
     (let n = length b; d = d0\<lparr>d_total := d_total d0 + of_nat n\<rparr>; pos = d_n d mod 32
      in if d_n d + n < 32 then d\<lparr>d_mem := copy_at pos b (d_mem d), d_n := d_n d + n\<rparr>
         else let (d1, b1) =
                (if 0 < d_n d then
                   (let mem = copy_at pos b (d_mem d)
                    in (d\<lparr>d_mem := mem, d_lanes := stripe (d_lanes d) mem, d_n := 0\<rparr>,
                        drop (min (32 - pos) n) b))
                 else (d, b));
                (d2, b2) =
                (if 32 \<le> length b1 then
                   (case blocks (d_lanes d1) b1 of (v, r) \<Rightarrow> (d1\<lparr>d_lanes := v\<rparr>, r))
                 else (d1, b1))
              in d2\<lparr>d_mem := copy_at 0 b2 (d_mem d2), d_n := length b2\<rparr>)"

definition digest_sum64 :: "digest \<Rightarrow> uint64" where
  "digest_sum64 d =
     (let h = (if 32 \<le> d_total d then merge_lanes (d_lanes d)
               else (case d_lanes d of (v1, v2, v3, v4) \<Rightarrow> v3 + prime5))
      in finish (h + d_total d) (take (d_n d mod 32) (d_mem d)))"

section \<open>Blocks and their leftover\<close>

lemma blocks_left: "length (snd (blocks v b)) = length b mod 32"
proof (induction v b rule: blocks.induct)
  case (1 v b)
  then show ?case
    by (cases "32 \<le> length b") (simp_all add: blocks.simps [of v b] le_mod_geq)
qed

lemma stripe_append: "32 \<le> length m \<Longrightarrow> stripe v (m @ z) = stripe v m"
  by (cases v) (simp add: stripe_def u64_def)

lemma blocks_first: "length m = 32 \<Longrightarrow> blocks v (m @ z) = blocks (stripe v m) z"
  by (subst blocks.simps) (simp add: stripe_append)

lemma blocks_append:
  "blocks v (x @ y) = (case blocks v x of (v', r) \<Rightarrow> blocks v' (r @ y))"
proof (induction v x rule: blocks.induct)
  case (1 v b)
  show ?case
  proof (cases "32 \<le> length b")
    case True
    have "blocks v (b @ y) = blocks (stripe v b) (drop 32 b @ y)"
      using True by (subst blocks.simps) (simp add: stripe_append)
    moreover have "blocks v b = blocks (stripe v b) (drop 32 b)"
      using True by (subst blocks.simps) simp
    ultimately show ?thesis using 1 [OF True] by simp
  next
    case False
    then have "blocks v b = (v, b)" by (subst blocks.simps) simp
    then show ?thesis by simp
  qed
qed

text \<open>A digest represents the bytes written since the reset.\<close>

definition represents :: "uint64 \<Rightarrow> digest \<Rightarrow> byte list \<Rightarrow> bool" where
  "represents seed d x \<longleftrightarrow>
     blocks (seed_lanes seed) x = (d_lanes d, take (d_n d) (d_mem d)) \<and>
     d_n d < 32 \<and> length (d_mem d) = 32 \<and> d_total d = of_nat (length x)"

lemma represents_new: "represents seed (new_with_seed seed) []"
  by (simp add: represents_def new_with_seed_def reset_with_seed_def blocks.simps)

lemma copy_at_length [simp]:
  "pos \<le> length mem \<Longrightarrow> length (copy_at pos src mem) = length mem"
  by (auto simp: copy_at_def)

lemma take_copy_at_0: "length src \<le> length mem \<Longrightarrow> take (length src) (copy_at 0 src mem) = src"
  by (simp add: copy_at_def)

lemma represents_write:
  assumes r: "represents seed d x"
  shows "represents seed (digest_write y d) (x @ y)"
proof -
  define v where "v = d_lanes d" define t where "t = take (d_n d) (d_mem d)"
  have b: "blocks (seed_lanes seed) x = (v, t)" and n: "d_n d < 32" and m: "length (d_mem d) = 32"
      and tot: "d_total d = of_nat (length x)" and lt: "length t = d_n d"
    using r by (auto simp: represents_def v_def t_def)
  have bxy: "blocks (seed_lanes seed) (x @ y) = blocks v (t @ y)"
    by (subst blocks_append) (simp add: b)
  show ?thesis
  proof (cases "d_n d + length y < 32")
    case True
    have "blocks v (t @ y) = (v, t @ y)" using True lt by (simp add: blocks.simps)
    moreover have "take (d_n d + length y) (copy_at (d_n d) y (d_mem d)) = t @ y"
      using True m by (simp add: copy_at_def t_def)
    ultimately show ?thesis
      using True n m tot
      by (simp add: represents_def digest_write_def Let_def bxy v_def [symmetric])
  next
    case False
    define c where "c = min (32 - d_n d) (length y)"
    have c: "c = 32 - d_n d" using False by (simp add: c_def)
    have mem: "copy_at (d_n d) y (d_mem d) = t @ take c y"
      using False m n by (simp add: copy_at_def t_def c)
    have one: "blocks v (t @ y) = blocks (stripe v (t @ take c y)) (drop c y)"
      using blocks_first [of "t @ take c y" v "drop c y"] False lt n by (simp add: c)
    define v1 where "v1 = (if 0 < d_n d then stripe v (t @ take c y) else v)"
    define y1 where "y1 = (if 0 < d_n d then drop c y else y)"
    obtain v2 y2 where v2: "blocks v1 y1 = (v2, y2)" by (cases "blocks v1 y1")
    have "blocks v (t @ y) = (v2, y2)"
      using one v2 lt by (cases "0 < d_n d") (simp_all add: v1_def y1_def)
    moreover have y2: "length y2 < 32" using blocks_left [of v1 y1] v2 by simp
    moreover have "\<not> 32 \<le> length y1 \<Longrightarrow> v2 = v1 \<and> y2 = y1"
      using v2 by (simp add: blocks.simps)
    moreover have len: "length t + min (length y) c = 32" "length t + c = 32" "c \<le> length y"
      using False lt n by (auto simp: c)
    moreover have tk: "length z < 32 \<Longrightarrow> take (length z) (copy_at 0 z (t @ take c y)) = z" for z
      using len by (simp add: take_copy_at_0)
    ultimately show ?thesis
      using False n m tot v2 mem tk [of y2] tk [of "drop c y"]
      by (auto simp: represents_def digest_write_def Let_def bxy v_def [symmetric] c_def [symmetric]
          v1_def y1_def take_copy_at_0 split: if_splits)
  qed
qed

lemma represents_writes:
  "represents seed d x \<Longrightarrow> represents seed (fold digest_write ys d) (x @ concat ys)"
proof (induction ys arbitrary: d x)
  case (Cons y ys)
  then show ?case using Cons.IH [OF represents_write [OF Cons.prems], of y] by simp
qed simp

lemma represents_sum64:
  assumes "represents 0 d x" "length x < 2 ^ 64"
  shows "digest_sum64 d = sum64 x"
proof -
  have big: "32 \<le> d_total d \<longleftrightarrow> 32 \<le> length x"
    using assms by (simp add: represents_def word_le_nat_alt unat_of_nat64)
  have lanes: "seed_lanes 0 = (prime1 + prime2, prime2, 0, - prime1)"
    by (simp add: seed_lanes_def)
  have "blocks (seed_lanes 0) x = (seed_lanes 0, x)" if "\<not> 32 \<le> length x"
    using that by (simp add: blocks.simps)
  then show ?thesis
    using assms(1) big by (auto simp: represents_def digest_sum64_def sum64_def Let_def lanes)
qed

section \<open>Reference vectors\<close>

text \<open>The hashes of the empty input and of \<^verbatim>\<open>"a"\<close> published with xxHash,
  computed by the model.\<close>

lemma sum64_empty: "sum64 [] = 0xEF46DB3751D8E999"
  by code_simp

lemma sum64_a: "sum64_string ''a'' = 0xD24EC4F1A98C6E5B"
  by code_simp

section \<open>Properties\<close>

text \<open>C25: the streaming digest agrees with the one-shot hash: whatever pieces the input is
  written in, the sum of a new digest equals \<^verbatim>\<open>Sum64\<close> of the whole input.\<close>

theorem digest_equals_sum64:
  assumes "length (concat pieces) < 2 ^ 64"
  shows "digest_sum64 (fold digest_write pieces (new_with_seed 0)) = sum64 (concat pieces)"
  using represents_writes [OF represents_new, of 0 pieces] assms
  by (intro represents_sum64) simp_all

theorem digest_equals_sum64_witness:
  "digest_sum64 (fold digest_write [replicate 20 1, replicate 30 2] (new_with_seed 0)) =
   sum64 (replicate 20 1 @ replicate 30 2)"
  using digest_equals_sum64 [of "[replicate 20 1, replicate 30 2]"] by simp



end
