(* ===== verification/Router.thy ===== *)
theory Router
  imports Partitions XXHash
begin

text \<open>
  \<^verbatim>\<open>internal/topology/repartition.go\<close>: the key router with its cache, and
  \<^verbatim>\<open>Resize\<close>, which migrates the partitioned store. The hash is the model of the
  vendored xxHash. The router shares the store by pointer, so its operations take and return both.
\<close>

section \<open>Operations\<close>

record router =
  rt_partitions :: int64
  rt_cache :: "string \<rightharpoonup> partition_id"

definition new_router :: "int64 \<Rightarrow> router" where
  "new_router partitions = \<lparr>rt_partitions = partitions, rt_cache = Map.empty\<rparr>"

text \<open>The modulus is taken on unsigned words; a zero count divides by zero.\<close>

definition partition_for_key :: "string \<Rightarrow> int64 \<Rightarrow> partition_id go" where
  "partition_for_key key partitions =
     (if partitions = 0 then Inl DivideByZero else Inr (sum64_string key mod partitions))"

definition route :: "string \<Rightarrow> router \<Rightarrow> (partition_id \<times> router) go" where
  "route key r =
     (case rt_cache r key of
        Some part \<Rightarrow> Inr (part, r)
      | None \<Rightarrow> go_bind (partition_for_key key (rt_partitions r)) (\<lambda>part.
                Inr (part, r\<lparr>rt_cache := (rt_cache r)(key \<mapsto> part)\<rparr>)))"

definition resize :: "string list list \<Rightarrow> int64 \<Rightarrow> router \<Rightarrow> part_store \<Rightarrow> (router \<times> part_store) go" where
  "resize orders partitions r p =
     (if partitions = rt_partitions r then Inr (r, p)
      else go_bind (repartition orders (rt_partitions r) partitions partition_for_key p) (\<lambda>(moved, p').
           Inr (r\<lparr>rt_partitions := partitions, rt_cache := Map.empty\<rparr>, p')))"

definition partitions_now :: "router \<Rightarrow> int64" where
  "partitions_now r = rt_partitions r"

definition routing_state :: "router \<Rightarrow> partition_state" where
  "routing_state r = \<lparr>ps_id = rt_partitions r - 1, ps_count = rt_partitions r\<rparr>"

section \<open>The hash is a partitioner\<close>

lemma sint_word_mod:
  fixes s n :: uint64
  assumes "0 < sint n"
  shows "0 \<le> sint (s mod n) \<and> sint (s mod n) < sint n"
proof -
  have u: "uint n = sint n" using assms by (simp add: uint_eq_sint64)
  have m: "uint (s mod n) < uint n" using assms u by (simp add: uint_mod)
  moreover have "uint n < 2 ^ 63" using u sint_range64 [of n] by simp
  ultimately have "sint (s mod n) = uint (s mod n)" by (intro sint_eq_uint64) simp
  then show ?thesis using m u uint_ge_0 [of "s mod n"] by simp
qed

interpretation xr: partitioner partition_for_key
proof
  fix n :: int64 and key
  assume n: "0 < sint n"
  then have "n \<noteq> 0" by auto
  then show "\<exists>i. partition_for_key key n = Inr i \<and> 0 \<le> sint i \<and> sint i < sint n"
    using sint_word_mod [OF n] by (simp add: partition_for_key_def)
qed

section \<open>The router's invariant\<close>

text \<open>
  The count is positive, every cached partition is the hash's, and every stored key sits in the
  partition the hash gives under the current count.
\<close>

definition cache_ok :: "router \<Rightarrow> bool" where
  "cache_ok r \<longleftrightarrow> 0 < sint (rt_partitions r) \<and>
     (\<forall>key part. rt_cache r key = Some part \<longrightarrow>
        partition_for_key key (rt_partitions r) = Inr part)"

definition router_ok :: "router \<Rightarrow> part_store \<Rightarrow> bool" where
  "router_ok r p \<longleftrightarrow> cache_ok r \<and> placed partition_for_key (rt_partitions r) (p_parts p)"

lemma new_router_ok [inv_intro]:
  assumes "0 < sint n" "new_partitioned_store n = Inr p"
  shows "router_ok (new_router n) p"
  using assms
  by (auto simp: router_ok_def cache_ok_def new_router_def new_partitioned_store_def elim!: go_bind_InrE
      dest!: make_parts_InrD(3) intro!: placed_replicate)

lemma route_facts:
  assumes "cache_ok r"
  shows "\<exists>part r'. route key r = Inr (part, r') \<and> cache_ok r' \<and> rt_partitions r' = rt_partitions r \<and>
           partition_for_key key (rt_partitions r) = Inr part \<and>
           0 \<le> sint part \<and> sint part < sint (rt_partitions r)"
proof -
  obtain i where i: "partition_for_key key (rt_partitions r) = Inr i" "0 \<le> sint i"
      "sint i < sint (rt_partitions r)"
    using xr.route_in_range [of "rt_partitions r" key] assms unfolding cache_ok_def by blast
  show ?thesis
    using assms i by (cases "rt_cache r key") (auto simp: route_def cache_ok_def)
qed

text \<open>What \<^verbatim>\<open>Pipeline.Process\<close> does with the router: route, then add.\<close>

definition route_add :: "string \<Rightarrow> int64 \<Rightarrow> router \<Rightarrow> part_store \<Rightarrow> (router \<times> part_store) go" where
  "route_add key v r p =
     go_bind (route key r) (\<lambda>(part, r'). go_bind (part_add part key v p) (\<lambda>p'. Inr (r', p')))"

lemma part_add_facts:
  assumes "placed rf n (p_parts p)" "rf key n = Inr i" "0 \<le> sint i" "sint i < sint n"
  shows "\<exists>p'. part_add i key v p = Inr p' \<and> placed rf n (p_parts p') \<and>
           (\<forall>x. part_total x p' = part_total x p + (if x = key then v else 0)) \<and>
           key \<in> dom (p_parts p' ! index_of i)"
proof -
  have i: "in_range i (p_parts p)" using assms by (simp add: in_range_def placed_def)
  have ix: "index_of i < length (p_parts p)" using i by (auto simp: in_range_def index_of_def)
  obtain q where q: "bump_at i key v (p_parts p) = Inr q"
      "total_in q = (\<lambda>x. total_in (p_parts p) x + (if x = key then v else 0))"
      "\<forall>j < length (p_parts p). dom (q ! j) =
         (if j = index_of i then insert key (dom (p_parts p ! j)) else dom (p_parts p ! j))"
    using bump_at_facts [OF i] by blast
  have "placed rf n q" using placed_bump_at [OF assms(1,2) q(1)] .
  moreover have "key \<in> dom (q ! index_of i)" using q(3) ix by auto
  ultimately show ?thesis using q(1,2) by (auto simp: part_add_def part_total_eq)
qed

lemma route_add_facts:
  assumes "router_ok r p"
  shows "\<exists>r' p'. route_add key v r p = Inr (r', p') \<and> router_ok r' p' \<and>
           rt_partitions r' = rt_partitions r \<and>
           (\<forall>x. part_total x p' = part_total x p + (if x = key then v else 0))"
proof -
  obtain part r' where r: "route key r = Inr (part, r')" "cache_ok r'"
      "rt_partitions r' = rt_partitions r" "partition_for_key key (rt_partitions r) = Inr part"
      "0 \<le> sint part" "sint part < sint (rt_partitions r)"
    using route_facts assms unfolding router_ok_def by blast
  obtain p' where "part_add part key v p = Inr p'"
      "placed partition_for_key (rt_partitions r) (p_parts p')"
      "\<forall>x. part_total x p' = part_total x p + (if x = key then v else 0)"
    using part_add_facts [of partition_for_key "rt_partitions r" p key part v] r assms
    unfolding router_ok_def by blast
  then show ?thesis using r by (auto simp: route_add_def router_ok_def)
qed

lemma resize_total:
  assumes "router_ok r p" "0 < sint n" "sint n \<le> max_parts" "list_all2 enum_of orders (p_parts p)"
  shows "\<exists>r' p'. resize orders n r p = Inr (r', p') \<and> router_ok r' p' \<and> rt_partitions r' = n \<and>
           (\<forall>x. part_total x p' = part_total x p)"
proof (cases "n = rt_partitions r")
  case True
  then show ?thesis using assms by (auto simp: resize_def)
next
  case False
  have "int (length (p_parts p)) = sint (rt_partitions r)"
    using assms(1) by (simp add: router_ok_def placed_def)
  then obtain m p' where "repartition orders (rt_partitions r) n partition_for_key p = Inr (m, p')"
      "placed partition_for_key n (p_parts p')" "\<forall>key. part_total key p' = part_total key p"
    using xr.repartition_facts [OF assms(2,3) False _ assms(4)] by blast
  then show ?thesis using False assms(2) by (auto simp: resize_def router_ok_def cache_ok_def)
qed

lemma resize_facts:
  assumes "router_ok r p" "0 < sint n" "list_all2 enum_of orders (p_parts p)"
    and step: "resize orders n r p = Inr (r', p')"
  shows "router_ok r' p' \<and> rt_partitions r' = n \<and> (\<forall>x. part_total x p' = part_total x p)"
proof (cases "sint n \<le> max_parts")
  case True
  then show ?thesis using resize_total [OF assms(1,2) True assms(3)] step by auto
next
  case False
  have "int (length (p_parts p)) = sint (rt_partitions r)"
    using assms(1) by (simp add: router_ok_def placed_def)
  then have "n = rt_partitions r"
    using step False by (auto simp: resize_def repartition_def make_parts_def elim!: go_bind_InrE split: if_splits)
  then show ?thesis using assms(1) step by (auto simp: resize_def)
qed

section \<open>Runs\<close>

text \<open>Adds and resizes in any order; a resize carries the iteration orders of the maps.\<close>

datatype router_op = RAdd string int64 | RResize int64

inductive router_step :: "router_op \<Rightarrow> router \<times> part_store \<Rightarrow> router \<times> part_store \<Rightarrow> bool" where
  add: "route_add key v r p = Inr (r', p') \<Longrightarrow> router_step (RAdd key v) (r, p) (r', p')"
| resize: "0 < sint n \<Longrightarrow> list_all2 enum_of orders (p_parts p) \<Longrightarrow>
     resize orders n r p = Inr (r', p') \<Longrightarrow> router_step (RResize n) (r, p) (r', p')"

inductive router_run :: "router_op list \<Rightarrow> router \<times> part_store \<Rightarrow> router \<times> part_store \<Rightarrow> bool" where
  nil: "router_run [] s s"
| snoc: "router_run ops s s' \<Longrightarrow> router_step op s' s'' \<Longrightarrow> router_run (ops @ [op]) s s''"

inductive_cases router_stepE [elim]: "router_step op s s'"

fun op_delta :: "string \<Rightarrow> router_op \<Rightarrow> int64" where
  "op_delta key (RAdd key' v) = (if key = key' then v else 0)"
| "op_delta key (RResize n) = 0"

text \<open>The number of partitions after a run is that of the last resize.\<close>

fun op_count :: "router_op \<Rightarrow> int64 \<Rightarrow> int64" where
  "op_count (RAdd key v) n = n"
| "op_count (RResize m) n = m"

lemma router_step_facts:
  assumes "router_step op (r, p) (r', p')" "router_ok r p"
  shows "router_ok r' p' \<and> rt_partitions r' = op_count op (rt_partitions r) \<and>
     (\<forall>key. part_total key p' = part_total key p + op_delta key op)"
  using assms(1)
proof cases
  case (add key v)
  then show ?thesis using route_add_facts [OF assms(2), of key v] by auto
next
  case (resize n orders)
  then show ?thesis using resize_facts [OF assms(2)] by simp
qed

lemma router_run_facts:
  "router_run ops s s' \<Longrightarrow> router_ok (fst s) (snd s) \<Longrightarrow>
   router_ok (fst s') (snd s') \<and> rt_partitions (fst s') = fold op_count ops (rt_partitions (fst s)) \<and>
   (\<forall>key. part_total key (snd s') = part_total key (snd s) + sum_list (map (op_delta key) ops))"
proof (induction rule: router_run.induct)
  case (snoc ops s s' op s'')
  then show ?case
    using router_step_facts [of op "fst s'" "snd s'" "fst s''" "snd s''"] by (simp add: add.assoc)
qed simp

section \<open>Concrete stores\<close>

text \<open>An empty four-partition store, used to evaluate the properties at.\<close>

definition four_parts :: part_store where
  "four_parts = \<lparr>p_parts = replicate 4 Map.empty\<rparr>"

lemma four_parts_new: "new_partitioned_store 4 = Inr four_parts"
  by (simp add: new_partitioned_store_def make_parts_def max_parts_def four_parts_def)

lemma four_parts_ok: "router_ok (new_router 4) four_parts"
  using four_parts_new by (intro inv_intro) simp_all

lemma four_parts_orders: "list_all2 enum_of (replicate 4 []) (p_parts four_parts)"
  by (simp add: four_parts_def enum_of_def list_all2_conv_all_nth)

lemma part_of_a: "partition_for_key ''a'' 4 = Inr 3"
  by (simp add: partition_for_key_def sum64_a)

text \<open>The same store after adding 5 for key \<^verbatim>\<open>"a"\<close>, whose hash selects partition 3.\<close>

definition a_parts :: part_store where
  "a_parts = \<lparr>p_parts = [Map.empty, Map.empty, Map.empty, [''a'' \<mapsto> 5]]\<rparr>"

lemma a_parts_orders: "list_all2 enum_of [[], [], [], [''a'']] (p_parts a_parts)"
  by (simp add: a_parts_def enum_of_def)

lemma a_parts_added: "part_add 3 ''a'' 5 four_parts = Inr a_parts"
  by (simp add: part_add_def bump_at_def four_parts_def a_parts_def in_range_def index_of_def
      bump_def numeral_nat)

lemma a_parts_ok: "router_ok (new_router 4) a_parts"
  using part_add_facts [of partition_for_key 4 four_parts "''a''" 3 5] four_parts_ok part_of_a
    a_parts_added
  by (simp add: router_ok_def new_router_def)

section \<open>Properties\<close>

text \<open>Routing is deterministic and in range: with a consistent cache and a positive number of
  partitions, \<^verbatim>\<open>Route\<close> never panics and returns the hash of the key modulo the
  count, whether the key is cached or not.\<close>

theorem route_is_hash_mod_count:
  assumes "cache_ok r"
  shows "\<exists>part r'. route key r = Inr (part, r') \<and> part = sum64_string key mod rt_partitions r \<and>
           0 \<le> sint part \<and> sint part < sint (rt_partitions r) \<and> cache_ok r'"
  using route_facts [OF assms, of key]
  by (auto simp: partition_for_key_def split: if_splits)

theorem route_is_hash_mod_count_witness:
  "\<exists>part r'. route ''checkout'' (new_router 4) = Inr (part, r') \<and>
     part = sum64_string ''checkout'' mod 4 \<and> 0 \<le> sint part \<and> sint part < 4 \<and> cache_ok r'"
  using route_is_hash_mod_count [of "new_router 4" "''checkout''"]
  by (simp add: cache_ok_def new_router_def)

text \<open>C11: through any sequence of keyed additions and resizes to positive counts the store stays
  consistent with the router: the partitions are as many as the last resize asked for, every key sits in at
  most one of them, the one its hash gives modulo their number, which is also where the router sends it, and
  its total over the partitions is the sum of everything added for it.\<close>

theorem router_run_keeps_totals:
  assumes "new_partitioned_store n = Inr p0" and "0 < sint n"
    and "router_run ops (new_router n, p0) (r, p)"
  shows "rt_partitions r = fold op_count ops n \<and> int (length (p_parts p)) = sint (rt_partitions r) \<and>
     partition_count key p \<le> 1 \<and>
     (\<forall>i < length (p_parts p). key \<in> dom (p_parts p ! i) \<longrightarrow> int i = sint (sum64_string key mod rt_partitions r)) \<and>
     (\<exists>r'. route key r = Inr (sum64_string key mod rt_partitions r, r')) \<and>
     part_total key p = sum_list (map (op_delta key) ops)"
proof -
  have ok0: "router_ok (new_router n) p0" using assms(1,2) by (intro inv_intro)
  have t0: "part_total key p0 = 0"
    using assms(1) by (auto simp: part_total_eq new_partitioned_store_def make_parts_def split: if_splits)
  have run: "router_ok r p" "rt_partitions r = fold op_count ops n"
      "part_total key p = part_total key p0 + sum_list (map (op_delta key) ops)"
    using router_run_facts [OF assms(3)] ok0 by (simp_all add: new_router_def)
  then have cache: "cache_ok r" and placed: "placed partition_for_key (rt_partitions r) (p_parts p)"
    by (simp_all add: router_ok_def)
  have "\<exists>r'. route key r = Inr (sum64_string key mod rt_partitions r, r')"
    using route_is_hash_mod_count [OF cache, of key] by auto
  moreover have "int i = sint (sum64_string key mod rt_partitions r)"
    if "i < length (p_parts p)" "key \<in> dom (p_parts p ! i)" for i
    using placed that by (fastforce simp: placed_def partition_for_key_def in_range_def index_of_def split: if_splits)
  ultimately show ?thesis
    using run(2,3) t0 placed_count_le_1 [OF placed] placed by (simp add: placed_def)
qed

theorem router_run_keeps_totals_witness:
  "\<exists>r p. router_run [RAdd ''a'' 5, RResize 2, RAdd ''a'' 2] (new_router 4, four_parts) (r, p) \<and>
     rt_partitions r = 2 \<and> partition_count ''a'' p \<le> 1 \<and> part_total ''a'' p = 7"
proof -
  obtain r1 where r1: "route ''a'' (new_router 4) = Inr (3, r1)"
    using route_facts [of "new_router 4" "''a''"] four_parts_ok part_of_a by (auto simp: router_ok_def new_router_def)
  then have 1: "route_add ''a'' 5 (new_router 4) four_parts = Inr (r1, a_parts)"
    by (simp add: route_add_def a_parts_added)
  have ok1: "router_ok r1 a_parts" using route_add_facts [OF four_parts_ok, of "''a''" 5] 1 by auto
  obtain r2 p2 where 2: "resize [[], [], [], [''a'']] 2 r1 a_parts = Inr (r2, p2)" "router_ok r2 p2"
    using resize_total [OF ok1 _ _ a_parts_orders, of 2] by (auto simp: max_parts_def)
  obtain r3 p3 where 3: "route_add ''a'' 2 r2 p2 = Inr (r3, p3)" using route_add_facts [OF 2(2)] by blast
  have step: "router_step (RResize 2) (r1, a_parts) (r2, p2)"
    by (rule router_step.resize [OF _ a_parts_orders 2(1)]) simp
  have run: "router_run [RAdd ''a'' 5, RResize 2, RAdd ''a'' 2] (new_router 4, four_parts) (r3, p3)"
    using router_run.snoc [OF router_run.snoc [OF router_run.snoc [OF router_run.nil router_step.add [OF 1]] step]
        router_step.add [OF 3]] by simp
  show ?thesis
    using run router_run_keeps_totals [OF four_parts_new _ run, of "''a''"]
    by (intro exI [of _ r3] exI [of _ p3]) simp
qed

text \<open>\<^verbatim>\<open>Repartition\<close> under the hash moves every stored entry (the count
  it returns), changes no key's total and leaves each key in the partition its hash selects; it
  never panics for a positive new count of at most \<open>max_parts\<close>.\<close>

theorem repartition_moves_everything:
  assumes "router_ok r p" and "0 < sint n" and "sint n \<le> max_parts" and "n \<noteq> rt_partitions r"
    and "list_all2 enum_of orders (p_parts p)"
  shows "\<exists>p'. repartition orders (rt_partitions r) n partition_for_key p =
             Inr (sum_list (map (\<lambda>part. card (dom part)) (p_parts p)), p') \<and>
           placed partition_for_key n (p_parts p') \<and> (\<forall>key. part_total key p' = part_total key p)"
  using xr.repartition_facts [OF assms(2-4) _ assms(5)] assms(1)
  by (simp add: router_ok_def placed_def)

theorem repartition_moves_everything_witness:
  "\<exists>p'. repartition [[], [], [], [''a'']] 4 2 partition_for_key a_parts = Inr (1, p') \<and>
        placed partition_for_key 2 (p_parts p') \<and> part_total ''a'' p' = 5"
  using repartition_moves_everything [OF a_parts_ok, of 2 "[[], [], [], [''a'']]"] a_parts_orders
  by (auto simp: a_parts_def new_router_def part_total_eq total_in_def max_parts_def)

text \<open>\<^verbatim>\<open>Route\<close> followed by \<^verbatim>\<open>Add\<close>, as
  \<^verbatim>\<open>Pipeline.Process\<close> calls them, is not atomic: when a resize to one
  partition runs between the two calls, the addition to any partition other than 0 indexes out
  of range and panics.\<close>

theorem route_resize_add_out_of_range:
  assumes "router_ok r p" and "list_all2 enum_of orders (p_parts p)"
    and "route key r = Inr (part, r1)" and "part \<noteq> 0"
    and "resize orders 1 r1 p = Inr (r2, p2)"
  shows "part_add part key v p2 = Inl IndexOutOfRange"
proof -
  have r1: "router_ok r1 p" and rng: "0 \<le> sint part" "rt_partitions r1 = rt_partitions r"
    using route_facts [of r key] assms(1,3) by (auto simp: router_ok_def)
  have "router_ok r2 p2" "rt_partitions r2 = 1"
    using resize_facts [OF r1 _ _ assms(5)] assms(2) by auto
  then have "length (p_parts p2) = 1" by (simp add: router_ok_def placed_def)
  moreover have "0 < sint part" using rng assms(4) sint_inject64 [of part 0] by auto
  ultimately show ?thesis by (simp add: part_add_def bump_at_def in_range_def)
qed

theorem route_resize_add_out_of_range_witness:
  "\<exists>r1 r2 p2. route ''a'' (new_router 4) = Inr (3, r1) \<and>
     resize (replicate 4 []) 1 r1 four_parts = Inr (r2, p2) \<and>
     part_add 3 ''a'' 5 p2 = Inl IndexOutOfRange"
proof -
  obtain r1 where r1: "route ''a'' (new_router 4) = Inr (3, r1)" "cache_ok r1"
    using route_facts [of "new_router 4" "''a''"] four_parts_ok part_of_a
    by (auto simp: router_ok_def new_router_def)
  have "router_ok r1 four_parts"
    using r1 route_facts [of "new_router 4" "''a''"] four_parts_ok by (auto simp: router_ok_def)
  then obtain r2 p2 where r2: "resize (replicate 4 []) 1 r1 four_parts = Inr (r2, p2)"
    using resize_total [of r1 four_parts 1 "replicate 4 []"] four_parts_orders by (auto simp: max_parts_def)
  have "part_add 3 ''a'' 5 p2 = Inl IndexOutOfRange"
    by (rule route_resize_add_out_of_range [OF four_parts_ok four_parts_orders r1(1) _ r2]) simp
  then show ?thesis using r1(1) r2 by blast
qed

end
