(* ===== verification/State_Store.thy ===== *)
theory State_Store
  imports Model
begin

text \<open>
  \<^verbatim>\<open>internal/state/state.go\<close>: the keyed state backend with its increment
  journal, the latest observed values, the set of applied offsets and the mutation sequence.
\<close>

section \<open>Operations\<close>

record snapshot_data =
  sn_data :: "string \<rightharpoonup> int64"
  sn_pending :: "string \<rightharpoonup> int64"
  sn_seq :: int64

text \<open>\<^verbatim>\<open>applied\<close> only ever holds \<open>true\<close>, so it is a set.\<close>

record state_store =
  st_data :: "string \<rightharpoonup> int64"
  st_pending :: "string \<rightharpoonup> int64"
  st_latest :: "string \<rightharpoonup> int64"
  st_applied :: "int64 set"
  st_seq :: int64

definition new_state_store :: state_store where
  "new_state_store = \<lparr>st_data = Map.empty, st_pending = Map.empty, st_latest = Map.empty,
     st_applied = {}, st_seq = 0\<rparr>"

definition state_apply :: "string \<Rightarrow> int64 \<Rightarrow> state_store \<Rightarrow> state_store" where
  "state_apply key delta s =
     s\<lparr>st_data := bump key delta (st_data s), st_pending := bump key delta (st_pending s),
       st_seq := st_seq s + 1\<rparr>"

text \<open>The loop of \<^verbatim>\<open>ApplyRound\<close> adds each delta to both maps; by
  \<open>range_fold_bump\<close> its result does not depend on the iteration order.\<close>

definition apply_round :: "(string \<rightharpoonup> int64) \<Rightarrow> state_store \<Rightarrow> state_store" where
  "apply_round deltas s =
     s\<lparr>st_data := add_all deltas (st_data s), st_pending := add_all deltas (st_pending s),
       st_seq := st_seq s + 1\<rparr>"

definition state_record :: "string \<Rightarrow> int64 \<Rightarrow> state_store \<Rightarrow> state_store" where
  "state_record key v s = s\<lparr>st_latest := (st_latest s)(key \<mapsto> v), st_seq := st_seq s + 1\<rparr>"

definition state_latest :: "string \<Rightarrow> state_store \<Rightarrow> int64 option" where
  "state_latest key s = st_latest s key"

definition copy_map :: "string list \<Rightarrow> (string \<rightharpoonup> int64) \<Rightarrow> (string \<rightharpoonup> int64)" where
  "copy_map order src = range_fold (\<lambda>k v dst. dst(k \<mapsto> v)) order src Map.empty"

text \<open>The copies are the maps themselves (\<open>copy_map_id\<close>).\<close>

definition state_snapshot :: "state_store \<Rightarrow> snapshot_data \<times> state_store" where
  "state_snapshot s =
     (\<lparr>sn_data = st_data s, sn_pending = st_pending s, sn_seq = st_seq s\<rparr>,
      s\<lparr>st_pending := Map.empty\<rparr>)"

definition restore_snapshot :: "snapshot_data \<Rightarrow> state_store \<Rightarrow> state_store" where
  "restore_snapshot snap s =
     s\<lparr>st_data := add_all (st_pending s) (sn_data snap), st_pending := Map.empty,
       st_seq := sn_seq snap + 1\<rparr>"

definition state_get :: "string \<Rightarrow> state_store \<Rightarrow> int64 option" where
  "state_get key s = st_data s key"

definition state_version :: "state_store \<Rightarrow> int64" where
  "state_version s = st_seq s"

definition mark_applied :: "int64 \<Rightarrow> state_store \<Rightarrow> state_store" where
  "mark_applied offset s = s\<lparr>st_applied := insert offset (st_applied s)\<rparr>"

definition is_applied :: "int64 \<Rightarrow> state_store \<Rightarrow> bool" where
  "is_applied offset s \<longleftrightarrow> offset \<in> st_applied s"

definition applied_count :: "state_store \<Rightarrow> nat" where
  "applied_count s = card (st_applied s)"

definition state_keys :: "string list \<Rightarrow> state_store \<Rightarrow> string list" where
  "state_keys order s = sort_slice (\<lambda>k. k) (range_fold (\<lambda>k _ keys. keys @ [k]) order (st_data s) [])"

definition state_size :: "state_store \<Rightarrow> nat" where
  "state_size s = card (dom (st_data s))"

definition latest_count :: "state_store \<Rightarrow> nat" where
  "latest_count s = card (dom (st_latest s))"

section \<open>Loops over maps\<close>

lemma copy_map_id:
  assumes "enum_of order src"
  shows "copy_map order src = src"
proof -
  have "distinct ks \<Longrightarrow> range_fold (\<lambda>k v dst. dst(k \<mapsto> v)) ks src m =
      (\<lambda>k. if k \<in> set ks \<and> src k \<noteq> None then src k else m k)" for ks m
    by (induction ks arbitrary: m) (auto simp: range_fold_def fun_eq_iff split: option.splits)
  then show ?thesis
    using assms by (auto simp: copy_map_def enum_of_def fun_eq_iff)
qed

text \<open>The loops of \<^verbatim>\<open>ApplyRound\<close> and
  \<^verbatim>\<open>RestoreSnapshot\<close>, in any order of the keys, compute \<open>add_all\<close>.\<close>

lemma apply_round_loop:
  assumes "enum_of order deltas"
  shows "apply_round deltas s =
     s\<lparr>st_data := range_fold bump order deltas (st_data s),
       st_pending := range_fold bump order deltas (st_pending s), st_seq := st_seq s + 1\<rparr>"
  by (simp add: apply_round_def range_fold_bump [OF assms])

lemma restore_loop:
  assumes "enum_of order (st_pending s)" "enum_of order' (sn_data snap)"
  shows "restore_snapshot snap s =
     s\<lparr>st_data := range_fold bump order (st_pending s) (copy_map order' (sn_data snap)),
       st_pending := Map.empty, st_seq := sn_seq snap + 1\<rparr>"
  by (simp add: restore_snapshot_def range_fold_bump [OF assms(1)] copy_map_id [OF assms(2)])

section \<open>Runs of mutations\<close>

datatype state_op =
    SApply string int64
  | SRound "string \<rightharpoonup> int64"
  | SRecord string int64
  | SMark int64

fun state_step :: "state_op \<Rightarrow> state_store \<Rightarrow> state_store" where
  "state_step (SApply key delta) s = state_apply key delta s"
| "state_step (SRound deltas) s = apply_round deltas s"
| "state_step (SRecord key v) s = state_record key v s"
| "state_step (SMark offset) s = mark_applied offset s"

definition state_run :: "state_op list \<Rightarrow> state_store \<Rightarrow> state_store" where
  "state_run ops s = fold state_step ops s"

lemma state_run_simps [simp]:
  "state_run [] s = s"
  "state_run (op # ops) s = state_run ops (state_step op s)"
  by (simp_all add: state_run_def)

fun raises_seq :: "state_op \<Rightarrow> bool" where
  "raises_seq (SMark offset) = False"
| "raises_seq _ = True"

lemma state_run_seq: "st_seq (state_run ops s) = st_seq s + of_nat (length (filter raises_seq ops))"
proof (induction ops arbitrary: s)
  case (Cons op ops)
  then show ?case
    by (cases op) (simp_all add: state_apply_def apply_round_def state_record_def mark_applied_def)
qed simp

text \<open>The journal accounts for everything applied since it was last emptied.\<close>

definition journal_of :: "(string \<rightharpoonup> int64) \<Rightarrow> state_store \<Rightarrow> bool" where
  "journal_of base s \<longleftrightarrow> st_data s = add_all (st_pending s) base"

lemma journal_step [inv_intro]: "journal_of base s \<Longrightarrow> journal_of base (state_step op s)"
  by (cases op)
     (simp_all add: journal_of_def state_apply_def apply_round_def state_record_def mark_applied_def
       add_all_bump add_all_add_all)

lemma journal_run [inv_intro]: "journal_of base s \<Longrightarrow> journal_of base (state_run ops s)"
  by (induction ops arbitrary: s) (auto intro: inv_intro)

lemma journal_snapshot [inv_intro]: "journal_of (sn_data (fst (state_snapshot s))) (snd (state_snapshot s))"
  by (simp add: journal_of_def state_snapshot_def)

lemma journal_new [inv_intro]: "journal_of Map.empty new_state_store"
  by (simp add: journal_of_def new_state_store_def)

section \<open>Properties\<close>

text \<open>C32: a restore loses nothing that was applied after the snapshot: snapshot, any sequence of
  mutations, restore leaves exactly the data the store had before the restore, with an empty
  journal.\<close>

theorem restore_keeps_later_increments:
  assumes "state_snapshot s = (snap, s1)"
  shows "st_data (restore_snapshot snap (state_run ops s1)) = st_data (state_run ops s1) \<and>
         st_pending (restore_snapshot snap (state_run ops s1)) = Map.empty"
proof -
  have "journal_of (sn_data snap) (state_run ops s1)"
    using journal_snapshot [of s] assms by (auto intro: inv_intro)
  then show ?thesis by (simp add: journal_of_def restore_snapshot_def)
qed

theorem restore_keeps_later_increments_witness:
  "let s = state_run [SApply ''a'' 5] new_state_store; (snap, s1) = state_snapshot s
   in state_get ''a'' (restore_snapshot snap (state_run [SApply ''a'' 2, SRound [''b'' \<mapsto> 1]] s1)) = Some 7"
proof -
  let ?s = "state_run [SApply ''a'' 5] new_state_store"
  have "st_data (restore_snapshot (fst (state_snapshot ?s))
          (state_run [SApply ''a'' 2, SRound [''b'' \<mapsto> 1]] (snd (state_snapshot ?s)))) =
        st_data (state_run [SApply ''a'' 2, SRound [''b'' \<mapsto> 1]] (snd (state_snapshot ?s)))"
    using restore_keeps_later_increments [of ?s "fst (state_snapshot ?s)" "snd (state_snapshot ?s)"
        "[SApply ''a'' 2, SRound [''b'' \<mapsto> 1]]"] by simp
  then show ?thesis
    by (simp add: Let_def state_get_def split_beta)
       (simp add: state_snapshot_def state_apply_def apply_round_def new_state_store_def add_all_def bump_def)
qed

text \<open>The snapshot of a store that was never snapshotted holds every applied increment twice,
  in the data and in the journal; replaying the snapshot's journal on top of its restored data, as
  the comment on \<^verbatim>\<open>Snapshot\<close> asks, counts each increment twice.\<close>

theorem replaying_snapshot_journal_double_counts:
  "let snap = fst (state_snapshot (state_run ops new_state_store));
       restored = restore_snapshot snap new_state_store
   in sn_pending snap = sn_data snap \<and>
      getd (st_data (apply_round (sn_pending snap) restored)) key = 2 * getd (sn_data snap) key"
proof -
  have "add_all p Map.empty = p" for p :: "string \<rightharpoonup> int64"
    by (auto simp: add_all_def fun_eq_iff split: option.splits)
  moreover have "journal_of Map.empty (state_run ops new_state_store)" by (intro inv_intro)
  ultimately show ?thesis
    by (simp add: Let_def state_snapshot_def journal_of_def apply_round_def restore_snapshot_def
        new_state_store_def)
qed

text \<open>Restoring a snapshot after a newer snapshot was taken loses the increments between the
  two: the newer snapshot emptied the journal that the restore replays.\<close>

theorem restore_older_snapshot_loses_increments:
  assumes "state_snapshot s = (snap1, s1)" and "state_snapshot (state_apply key delta s1) = (snap2, s2)"
  shows "getd (st_data (restore_snapshot snap1 s2)) key = getd (st_data s2) key - delta"
  using assms
  by (auto simp: state_snapshot_def state_apply_def restore_snapshot_def getd_bump)

theorem restore_older_snapshot_loses_increments_witness:
  "let (snap1, s1) = state_snapshot new_state_store; (snap2, s2) = state_snapshot (state_apply ''a'' 5 s1)
   in getd (st_data s2) ''a'' = 5 \<and> getd (st_data (restore_snapshot snap1 s2)) ''a'' = 0"
  using restore_older_snapshot_loses_increments [OF prod.collapse [symmetric] prod.collapse [symmetric],
      of new_state_store "''a''" 5]
  by (simp add: Let_def split_beta)
     (simp add: state_snapshot_def state_apply_def new_state_store_def getd_bump)

end
