(* ===== verification/Sink.thy ===== *)
theory Sink
  imports Prelude
begin

text \<open>
  \<^verbatim>\<open>internal/sink\<close>: output records numbered on arrival, flushed up to an
  explicit sequence barrier, and the soft cap on the pending buffer
  (\<^verbatim>\<open>sink.go\<close>, \<^verbatim>\<open>throttle.go\<close>). The specification is a
  log with a commit point; the sink refines it as long as fewer than 2^63 records were written.
\<close>

section \<open>Throttle (throttle.go)\<close>

record throttle =
  th_high :: int64

definition new_throttle :: "int64 \<Rightarrow> throttle" where
  "new_throttle high = \<lparr>th_high = high\<rparr>"

definition under_pressure :: "nat \<Rightarrow> throttle \<Rightarrow> bool" where
  "under_pressure pending t \<longleftrightarrow> int pending > sint (th_high t)"

definition throttle_cap :: "throttle \<Rightarrow> int64" where
  "throttle_cap t = th_high t"

section \<open>Sink (sink.go)\<close>

record output_record =
  o_key :: string
  o_value :: int64
  o_seq :: int64

record sink =
  sk_pending :: "output_record list"
  sk_committed :: "output_record list"
  sk_next :: int64
  sk_throttle :: throttle

definition new_sink :: sink where
  "new_sink = \<lparr>sk_pending = [], sk_committed = [], sk_next = 1, sk_throttle = new_throttle 128\<rparr>"

definition sink_write :: "string \<Rightarrow> int64 \<Rightarrow> sink \<Rightarrow> output_record \<times> sink" where
  "sink_write key v s =
     (let rec = \<lparr>o_key = key, o_value = v, o_seq = sk_next s\<rparr>
      in (rec, s\<lparr>sk_next := sk_next s + 1, sk_pending := sk_pending s @ [rec]\<rparr>))"

text \<open>
  \<^verbatim>\<open>CommitUpTo\<close> filters in place: \<open>kept\<close> starts as an empty slice of the
  pending slice's own array, so keeping a record overwrites the cell at the write index while the
  loop reads the same array at the read index. The loop state is the array, the length of
  \<open>kept\<close> and the committed list.
\<close>

definition commit_cell :: "int64 \<Rightarrow> nat \<Rightarrow> output_record list \<times> nat \<times> output_record list \<Rightarrow>
    output_record list \<times> nat \<times> output_record list" where
  "commit_cell barrier i st =
     (case st of (cells, kept, committed) \<Rightarrow>
        if o_seq (cells ! i) \<le>s barrier then (cells, kept, committed @ [cells ! i])
        else (cells[kept := cells ! i], kept + 1, committed))"

definition commit_up_to :: "int64 \<Rightarrow> sink \<Rightarrow> sink" where
  "commit_up_to barrier s =
     (case fold (commit_cell barrier) [0..<length (sk_pending s)] (sk_pending s, 0, sk_committed s) of
        (cells, kept, committed) \<Rightarrow> s\<lparr>sk_pending := take kept cells, sk_committed := committed\<rparr>)"

definition pending_count :: "sink \<Rightarrow> nat" where
  "pending_count s = length (sk_pending s)"

definition committed_count :: "sink \<Rightarrow> nat" where
  "committed_count s = length (sk_committed s)"

definition last_committed_seq :: "sink \<Rightarrow> int64" where
  "last_committed_seq s = (if sk_committed s = [] then 0 else o_seq (last (sk_committed s)))"

definition committed_records :: "sink \<Rightarrow> output_record list" where
  "committed_records s = sort_slice (\<lambda>r. sint (o_seq r)) (sk_committed s)"

definition sink_snapshot :: "sink \<Rightarrow> (string \<rightharpoonup> int64)" where
  "sink_snapshot s = [''pending'' \<mapsto> of_nat (length (sk_pending s)),
     ''committed'' \<mapsto> of_nat (length (sk_committed s)), ''cap'' \<mapsto> throttle_cap (sk_throttle s)]"

definition backpressure :: "sink \<Rightarrow> bool" where
  "backpressure s \<longleftrightarrow> under_pressure (length (sk_pending s)) (sk_throttle s)"

section \<open>The in-place loop is a filter\<close>

lemma commit_cells:
  assumes "fold (commit_cell barrier) [0..<n] (pending, 0, committed) = (cells, kept, committed')"
    and "n \<le> length pending"
  shows "kept \<le> n \<and> length cells = length pending \<and>
         take kept cells = filter (\<lambda>r. \<not> o_seq r \<le>s barrier) (take n pending) \<and>
         drop n cells = drop n pending \<and>
         committed' = committed @ filter (\<lambda>r. o_seq r \<le>s barrier) (take n pending)"
  using assms
proof (induction n arbitrary: cells kept committed')
  case (Suc n)
  obtain c k d where before: "fold (commit_cell barrier) [0..<n] (pending, 0, committed) = (c, k, d)"
    by (metis prod_cases3)
  have n: "n < length pending" using Suc.prems(2) by simp
  note IH = Suc.IH [OF before less_imp_le [OF n]]
  have len: "length c = length pending" and k: "k \<le> n" and rest: "drop n c = drop n pending"
    using IH by simp_all
  have cell: "c ! n = pending ! n"
    using rest len n by (metis hd_drop_conv_nth)
  have rest': "drop (Suc n) c = drop (Suc n) pending"
    using rest by (metis drop_drop plus_1_eq_Suc)
  have last: "take (Suc n) pending = take n pending @ [pending ! n]"
    using n by (rule take_Suc_conv_app_nth)
  have step: "(cells, kept, committed') =
      (if o_seq (pending ! n) \<le>s barrier then (c, k, d @ [pending ! n])
       else (c[k := pending ! n], k + 1, d))"
    using Suc.prems(1) cell by (auto simp: before commit_cell_def [of barrier n "(c, k, d)"] split: if_splits)
  have kept_cell: "take (Suc k) (c[k := pending ! n]) = take k c @ [pending ! n]"
    using k n len by (simp add: take_Suc_conv_app_nth)
  have "drop (Suc n) (c[k := pending ! n]) = drop (Suc n) c"
    using k by (simp add: drop_update_cancel)
  with IH step rest' kept_cell len last k show ?case
    by (auto split: if_splits)
qed simp

lemma commit_up_to_eq:
  "commit_up_to barrier s =
     s\<lparr>sk_pending := filter (\<lambda>r. \<not> o_seq r \<le>s barrier) (sk_pending s),
       sk_committed := sk_committed s @ filter (\<lambda>r. o_seq r \<le>s barrier) (sk_pending s)\<rparr>"
proof -
  obtain cells kept committed where loop:
    "fold (commit_cell barrier) [0..<length (sk_pending s)] (sk_pending s, 0, sk_committed s) =
       (cells, kept, committed)"
    by (metis prod_cases3)
  show ?thesis
    using commit_cells [OF loop] by (simp add: commit_up_to_def loop)
qed

section \<open>The log with a commit point\<close>

datatype sink_op = SkWrite string int64 | SkCommit int64

fun sink_step :: "sink_op \<Rightarrow> sink \<Rightarrow> sink" where
  "sink_step (SkWrite key v) s = snd (sink_write key v s)"
| "sink_step (SkCommit barrier) s = commit_up_to barrier s"

definition sink_run :: "sink_op list \<Rightarrow> sink \<Rightarrow> sink" where
  "sink_run ops s = fold sink_step ops s"

type_synonym out_log = "(string \<times> int64) list \<times> nat"

fun log_step :: "sink_op \<Rightarrow> out_log \<Rightarrow> out_log" where
  "log_step (SkWrite key v) (ws, m) = (ws @ [(key, v)], m)"
| "log_step (SkCommit barrier) (ws, m) = (ws, max m (min (length ws) (nat (sint barrier))))"

definition log_run :: "sink_op list \<Rightarrow> out_log" where
  "log_run ops = fold log_step ops ([], 0)"

text \<open>Record \<open>i\<close> of the log carries the sequence \<open>i\<close>, counting from one.\<close>

definition numbered :: "(string \<times> int64) list \<Rightarrow> output_record list" where
  "numbered ws = map (\<lambda>(i, key, v). \<lparr>o_key = key, o_value = v, o_seq = of_nat i\<rparr>) (enumerate 1 ws)"

definition sink_abs :: "out_log \<Rightarrow> sink \<Rightarrow> bool" where
  "sink_abs l s \<longleftrightarrow> (case l of (ws, m) \<Rightarrow>
     m \<le> length ws \<and> sk_committed s = take m (numbered ws) \<and> sk_pending s = drop m (numbered ws) \<and>
     sk_next s = of_nat (length ws + 1))"

lemma numbered_length [simp]: "length (numbered ws) = length ws"
  by (simp add: numbered_def)

lemma numbered_Nil_iff [simp]: "numbered ws = [] \<longleftrightarrow> ws = []"
  by (metis length_0_conv numbered_length)

lemma numbered_snoc: "numbered (ws @ [(key, v)]) =
    numbered ws @ [\<lparr>o_key = key, o_value = v, o_seq = of_nat (length ws + 1)\<rparr>]"
  by (simp add: numbered_def enumerate_append_eq)

lemma numbered_seq:
  assumes "i < length ws" "length ws < 2 ^ 63"
  shows "sint (o_seq (numbered ws ! i)) = int i + 1"
proof -
  have "o_seq (numbered ws ! i) = of_nat (Suc i)"
    using assms(1) by (simp add: numbered_def nth_enumerate_eq split_beta)
  then show ?thesis using assms sint_of_nat64 [of "Suc i"] by simp
qed

lemma filter_prefix:
  assumes "m \<le> n" "n \<le> length xs"
    and "\<And>i. m \<le> i \<Longrightarrow> i < n \<Longrightarrow> P (xs ! i)"
    and "\<And>i. n \<le> i \<Longrightarrow> i < length xs \<Longrightarrow> \<not> P (xs ! i)"
  shows "filter P (drop m xs) = drop m (take n xs)"
    and "filter (\<lambda>x. \<not> P x) (drop m xs) = drop n xs"
proof -
  have split: "drop m xs = drop m (take n xs) @ drop n xs"
    using assms(1,2) by (metis append_take_drop_id drop_take le_add_diff_inverse2 drop_drop)
  have yes: "\<forall>x \<in> set (drop m (take n xs)). P x"
    using assms(2,3) by (auto simp: in_set_conv_nth)
  have no: "\<forall>x \<in> set (drop n xs). \<not> P x"
    using assms(2,4) by (auto simp: in_set_conv_nth)
  show "filter P (drop m xs) = drop m (take n xs)" "filter (\<lambda>x. \<not> P x) (drop m xs) = drop n xs"
    unfolding split using yes no by (simp_all add: filter_id_conv filter_empty_conv)
qed

lemma sink_abs_write [inv_intro]:
  "sink_abs l s \<Longrightarrow> sink_abs (log_step (SkWrite key v) l) (snd (sink_write key v s))"
  by (cases l) (auto simp: sink_abs_def sink_write_def numbered_snoc Let_def)

lemma sink_abs_commit [inv_intro]:
  assumes "sink_abs l s" "length (fst l) < 2 ^ 63"
  shows "sink_abs (log_step (SkCommit barrier) l) (commit_up_to barrier s)"
proof -
  obtain ws m where l: "l = (ws, m)" by (cases l)
  define n where "n = max m (min (length ws) (nat (sint barrier)))"
  have len: "length ws < 2 ^ 63" and m: "m \<le> length ws" using assms l by (simp_all add: sink_abs_def)
  have mn: "m \<le> n" "n \<le> length (numbered ws)" using m by (simp_all add: n_def)
  have yes: "o_seq (numbered ws ! i) \<le>s barrier" if "m \<le> i" "i < n" for i
    using that numbered_seq [of i ws] len by (auto simp: n_def word_sle_eq)
  have no: "\<not> o_seq (numbered ws ! i) \<le>s barrier" if "n \<le> i" "i < length (numbered ws)" for i
    using that numbered_seq [of i ws] len by (auto simp: n_def word_sle_eq)
  have "take m (numbered ws) @ drop m (take n (numbered ws)) = take n (numbered ws)"
    using mn(1) by (metis append_take_drop_id min_absorb1 take_take)
  moreover have "filter (\<lambda>r. o_seq r \<le>s barrier) (drop m (numbered ws)) = drop m (take n (numbered ws))"
    by (rule filter_prefix(1) [OF mn]) (use yes no in blast)+
  moreover have "filter (\<lambda>r. \<not> o_seq r \<le>s barrier) (drop m (numbered ws)) = drop n (numbered ws)"
    by (rule filter_prefix(2) [OF mn]) (use yes no in blast)+
  moreover have "log_step (SkCommit barrier) l = (ws, n)" by (simp add: l n_def)
  ultimately show ?thesis
    using assms(1) mn(2) by (simp add: sink_abs_def l commit_up_to_eq)
qed

lemma log_step_length: "length (fst (fold log_step ops l)) \<le> length (fst l) + length ops"
proof (induction ops arbitrary: l)
  case (Cons op ops)
  have "length (fst (log_step op l)) \<le> length (fst l) + 1" by (cases op; cases l) simp_all
  then show ?case using Cons.IH [of "log_step op l"] by simp
qed simp

lemma sink_abs_run:
  "sink_abs l s \<Longrightarrow> length (fst l) + length ops < 2 ^ 63 \<Longrightarrow>
   sink_abs (fold log_step ops l) (sink_run ops s)"
proof (induction ops arbitrary: l s)
  case (Cons op ops)
  have "length (fst (log_step op l)) + length ops < 2 ^ 63"
    using Cons.prems(2) by (cases op; cases l) simp_all
  moreover have "sink_abs (log_step op l) (sink_step op s)"
    using Cons.prems by (cases op) (auto intro: inv_intro simp del: log_step.simps)
  ultimately show ?case using Cons.IH by (simp add: sink_run_def)
qed (simp add: sink_run_def)

lemma sink_abs_new [inv_intro]: "sink_abs ([], 0) new_sink"
  by (simp add: sink_abs_def new_sink_def numbered_def)

lemma sink_run_abs:
  assumes "length ops < 2 ^ 63"
  shows "sink_abs (log_run ops) (sink_run ops new_sink) \<and> length (fst (log_run ops)) < 2 ^ 63"
  using sink_abs_run [OF sink_abs_new, of ops] log_step_length [of ops "([], 0)"] assms
  by (simp add: log_run_def)

lemma sink_abs_last:
  assumes "sink_abs (ws, m) s" "length ws < 2 ^ 63"
  shows "sint (last_committed_seq s) = int m"
  using assms numbered_seq [of "m - 1" ws]
  by (cases "m = 0") (auto simp: sink_abs_def last_committed_seq_def last_conv_nth)

lemma sink_abs_sorted:
  assumes "sink_abs (ws, m) s" "length ws < 2 ^ 63"
  shows "committed_records s = sk_committed s"
proof -
  have "map (\<lambda>r. sint (o_seq r)) (sk_committed s) = map (\<lambda>i. int i + 1) [0..<m]"
    using assms by (intro nth_equalityI) (auto simp: sink_abs_def numbered_seq)
  moreover have "sorted (map (\<lambda>i. int i + 1) [0..<m])" by (simp add: sorted_iff_nth_mono)
  ultimately show ?thesis
    by (simp add: committed_records_def sort_slice_def sort_key_id_if_sorted)
qed

section \<open>Properties\<close>

text \<open>C9: over any sequence of writes and commits the sink is a log with a commit point: the committed
  records and then the pending ones are the writes in their order, numbered from one, none lost,
  repeated or renumbered; the commit point only moves forward, to the highest barrier that was
  reached; \<^verbatim>\<open>LastCommittedSeq\<close> is the commit point and
  \<^verbatim>\<open>CommittedRecords\<close> the committed prefix.\<close>

theorem sink_refines_log:
  assumes "length ops < 2 ^ 63"
  shows "let s = sink_run ops new_sink; (ws, m) = log_run ops
         in sk_committed s @ sk_pending s = numbered ws \<and> committed_records s = take m (numbered ws) \<and>
            sint (last_committed_seq s) = int m \<and> committed_count s = m \<and>
            pending_count s = length ws - m"
proof -
  obtain ws m where l: "log_run ops = (ws, m)" by (cases "log_run ops")
  then have a: "sink_abs (ws, m) (sink_run ops new_sink)" "length ws < 2 ^ 63"
    using sink_run_abs [OF assms] by simp_all
  show ?thesis
    using a(1) sink_abs_last [OF a] sink_abs_sorted [OF a] l
    by (simp add: sink_abs_def committed_count_def pending_count_def)
qed

theorem sink_refines_log_witness:
  "let s = sink_run [SkWrite ''a'' 7, SkWrite ''b'' 8, SkCommit 1, SkWrite ''c'' 9] new_sink
   in map o_key (committed_records s) = [''a''] \<and> pending_count s = 2 \<and> last_committed_seq s = 1"
proof -
  let ?ops = "[SkWrite ''a'' 7, SkWrite ''b'' 8, SkCommit 1, SkWrite ''c'' 9]"
  have "log_run ?ops = ([(''a'', 7), (''b'', 8), (''c'', 9)], 1)" by (simp add: log_run_def)
  with sink_refines_log [of ?ops] show ?thesis
    by (simp add: numbered_def) (simp add: Let_def sint_inject64 [symmetric])
qed

text \<open>A commit at a barrier leaves no pending record at or below the barrier, drops nothing and
  keeps the arrival order on both sides, although it compacts the pending slice in place.\<close>

theorem commit_is_exact_partition:
  "sk_committed (commit_up_to barrier s) =
     sk_committed s @ filter (\<lambda>r. sint (o_seq r) \<le> sint barrier) (sk_pending s) \<and>
   sk_pending (commit_up_to barrier s) = filter (\<lambda>r. sint barrier < sint (o_seq r)) (sk_pending s)"
  by (simp add: commit_up_to_eq word_sle_eq not_le)

end
