(* ===== verification/Checkpoint.thy ===== *)
theory Checkpoint
  imports State_Store Sink
begin

text \<open>
  \<^verbatim>\<open>internal/checkpoint\<close> and
  \<^verbatim>\<open>internal/source/offset.go\<close>: the offset tracker, the bounded history
  log, manifests, and the coordinator, which snapshots the state backend behind a sequence fence,
  flushes the sink before it moves the durable offset, and restarts replays from the last confirmed
  offset. The coordinator holds pointers to the store, the sink, the offset tracker and the metrics;
  these are the record \<open>shared\<close>, which its operations take and return.
\<close>

section \<open>Offset tracker (offset.go)\<close>

record offset_tracker =
  of_committed :: int64

definition new_offset_tracker :: "int64 \<Rightarrow> offset_tracker" where
  "new_offset_tracker start = \<lparr>of_committed = start\<rparr>"

definition offset_commit :: "int64 \<Rightarrow> offset_tracker \<Rightarrow> offset_tracker" where
  "offset_commit offset t = (if of_committed t <s offset then t\<lparr>of_committed := offset\<rparr> else t)"

definition offset_pending :: "int64 \<Rightarrow> offset_tracker \<Rightarrow> int64" where
  "offset_pending high t = (if high \<le>s of_committed t then 0 else high - of_committed t)"

lemma offset_commit_max: "sint (of_committed (offset_commit n t)) = max (sint n) (sint (of_committed t))"
  by (auto simp: offset_commit_def word_sless_alt)

lemma offset_pending_exact:
  assumes "0 \<le> sint (of_committed t)"
  shows "sint (offset_pending high t) = max 0 (sint high - sint (of_committed t))"
proof (cases "sint high \<le> sint (of_committed t)")
  case False
  then have "in_int64 (sint high - sint (of_committed t))"
    using assms sint_range64 [of high] by simp
  then show ?thesis using False by (simp add: offset_pending_def word_sle_eq sint_diff64)
qed (simp add: offset_pending_def word_sle_eq)

section \<open>History log (log.go)\<close>

record log_entry =
  le_offset :: int64
  le_seq :: int64
  le_kind :: string

record cp_log =
  lg_capacity :: int64
  lg_entries :: "log_entry list"

definition new_log :: "int64 \<Rightarrow> cp_log" where
  "new_log capacity = \<lparr>lg_capacity = capacity, lg_entries = []\<rparr>"

text \<open>The slice expression \<^verbatim>\<open>entries[len-capacity:]\<close> panics when the capacity
  is negative.\<close>

definition log_append :: "log_entry \<Rightarrow> cp_log \<Rightarrow> cp_log go" where
  "log_append e l =
     (let es = lg_entries l @ [e]; capacity = sint (lg_capacity l); n = int (length es)
      in if n > capacity
         then if n - capacity > n then Inl SliceBounds
              else Inr (l\<lparr>lg_entries := drop (nat (n - capacity)) es\<rparr>)
         else Inr (l\<lparr>lg_entries := es\<rparr>))"

definition log_recent :: "cp_log \<Rightarrow> log_entry list" where
  "log_recent l = sort_slice (\<lambda>e. sint (le_offset e)) (lg_entries l)"

definition log_size :: "cp_log \<Rightarrow> nat" where
  "log_size l = length (lg_entries l)"

definition keep_last :: "nat \<Rightarrow> 'a list \<Rightarrow> 'a list" where
  "keep_last n xs = drop (length xs - n) xs"

lemma keep_last_snoc: "keep_last n (keep_last n xs @ [x]) = keep_last n (xs @ [x])"
  by (cases "n \<le> length xs") (simp_all add: keep_last_def Suc_diff_le)

lemma keep_last_length [simp]: "length (keep_last n xs) = min n (length xs)"
  by (simp add: keep_last_def)

lemma log_append_keeps_last:
  assumes "0 \<le> sint (lg_capacity l)"
  shows "log_append e l = Inr (l\<lparr>lg_entries := keep_last (nat (sint (lg_capacity l))) (lg_entries l @ [e])\<rparr>)"
  using assms by (auto simp: log_append_def Let_def keep_last_def nat_diff_distrib' nat_add_distrib)

section \<open>Manifest (manifest.go)\<close>

record manifest =
  mf_seq :: int64
  mf_offset :: int64

definition new_manifest :: "int64 \<Rightarrow> int64 \<Rightarrow> manifest" where
  "new_manifest seq offset = \<lparr>mf_seq = seq, mf_offset = offset\<rparr>"

definition manifest_valid :: "manifest \<Rightarrow> bool" where
  "manifest_valid m \<longleftrightarrow> 0 \<le>s mf_offset m \<and> 0 \<le>s mf_seq m"

section \<open>Coordinator (checkpoint.go)\<close>

record shared =
  sh_store :: state_store
  sh_sink :: sink
  sh_offsets :: offset_tracker
  sh_metrics :: "metrics option"

record coordinator =
  co_log :: cp_log
  co_last :: int64
  co_attempts :: int64
  co_manifest :: manifest

definition new_coordinator :: coordinator where
  "new_coordinator = \<lparr>co_log = new_log 32, co_last = 0, co_attempts = 0, co_manifest = new_manifest 0 0\<rparr>"

text \<open>
  \<^verbatim>\<open>SnapshotState\<close> reads the version and captures the store in two separate
  critical sections, so mutations of other goroutines can come between them. The schedule gives,
  for each attempt of the loop, the mutations that do; the loop is over when the captured sequence
  is the version read. \<open>None\<close> means that it is still retrying when the schedule ends.
\<close>

fun snapshot_state :: "state_op list list \<Rightarrow> state_store \<Rightarrow> (snapshot_data \<times> state_store) option" where
  "snapshot_state [] s = None"
| "snapshot_state (ops # schedule) s =
     (let before = state_version s; (snap, s') = state_snapshot (state_run ops s)
      in if sn_seq snap = before then Some (snap, s') else snapshot_state schedule s')"

definition cp_commit :: "int64 \<Rightarrow> coordinator \<times> shared \<Rightarrow> (coordinator \<times> shared) go" where
  "cp_commit offset cs = (case cs of (c, sh) \<Rightarrow>
     let sh = sh\<lparr>sh_sink := commit_up_to offset (sh_sink sh)\<rparr>;
         c = c\<lparr>co_last := offset, co_manifest := new_manifest (state_version (sh_store sh)) offset\<rparr>;
         sh = sh\<lparr>sh_offsets := offset_commit offset (sh_offsets sh)\<rparr>
     in go_bind (log_append \<lparr>le_offset = offset, le_seq = state_version (sh_store sh), le_kind = ''commit''\<rparr>
                   (co_log c)) (\<lambda>log.
        Inr (c\<lparr>co_log := log\<rparr>, sh\<lparr>sh_metrics := map_option add_checkpoint (sh_metrics sh)\<rparr>)))"

text \<open>The replay callback runs after the mutex is released, so it may use the coordinator.\<close>

definition cp_retry :: "int64 \<Rightarrow> (int64 \<Rightarrow> coordinator \<times> 'w \<Rightarrow> 'r \<times> coordinator \<times> 'w) \<Rightarrow>
    coordinator \<times> 'w \<Rightarrow> 'r \<times> coordinator \<times> 'w" where
  "cp_retry failed_attempt_offset replay cw = (case cw of (c, w) \<Rightarrow>
     replay (co_last c) (c\<lparr>co_attempts := co_attempts c + 1\<rparr>, w))"

definition cp_restore :: "snapshot_data \<Rightarrow> int64 \<Rightarrow> coordinator \<times> shared \<Rightarrow> (coordinator \<times> shared) go" where
  "cp_restore snap offset cs = (case cs of (c, sh) \<Rightarrow>
     let sh = sh\<lparr>sh_store := restore_snapshot snap (sh_store sh)\<rparr>;
         manifest = new_manifest (sn_seq snap) offset;
         c = c\<lparr>co_last := offset, co_manifest := (if manifest_valid manifest then manifest else co_manifest c)\<rparr>;
         sh = sh\<lparr>sh_offsets := offset_commit offset (sh_offsets sh)\<rparr>
     in go_bind (log_append \<lparr>le_offset = offset, le_seq = sn_seq snap, le_kind = ''restore''\<rparr>
                   (co_log c)) (\<lambda>log.
        Inr (c\<lparr>co_log := log\<rparr>, sh\<lparr>sh_metrics := map_option add_restore (sh_metrics sh)\<rparr>)))"

definition recent_log :: "coordinator \<Rightarrow> log_entry list" where
  "recent_log c = log_recent (co_log c)"

section \<open>The sequence fence\<close>

text \<open>
  What the fence relies on: mutations count themselves in the version, a capture records the
  version it was taken at and leaves it.
\<close>

locale versioned_store =
  fixes version :: "'s \<Rightarrow> int64" and capture :: "'s \<Rightarrow> 'd \<times> 's" and seq_of :: "'d \<Rightarrow> int64"
    and mutate :: "'m list \<Rightarrow> 's \<Rightarrow> 's" and raises :: "'m list \<Rightarrow> nat"
  assumes version_mutate: "version (mutate ms s) = version s + of_nat (raises ms)"
    and seq_capture: "seq_of (fst (capture s)) = version s"
    and raises_bound: "raises ms \<le> length ms"
begin

lemma fence_iff:
  assumes "length ms < 2 ^ 64"
  shows "seq_of (fst (capture (mutate ms s))) = version s \<longleftrightarrow> raises ms = 0"
proof -
  have "raises ms < 2 ^ 64" using raises_bound [of ms] assms by (rule le_less_trans)
  then have "unat (of_nat (raises ms) :: int64) = raises ms" by (rule unat_of_nat64)
  then have "(of_nat (raises ms) :: int64) = 0 \<longleftrightarrow> raises ms = 0"
    by (metis unat_eq_zero)
  then show ?thesis by (simp add: seq_capture version_mutate)
qed

end

definition noise :: "state_op list \<Rightarrow> nat" where
  "noise ops = length (filter raises_seq ops)"

interpretation vs: versioned_store state_version state_snapshot sn_seq state_run noise
proof
  show "state_version (state_run ms s) = state_version s + of_nat (noise ms)" for ms s
    by (simp add: state_version_def state_run_seq noise_def)
  show "sn_seq (fst (state_snapshot s)) = state_version s" for s
    by (simp add: state_version_def state_snapshot_def)
  show "noise ms \<le> length ms" for ms
    by (simp add: noise_def)
qed

lemma state_step_data_cong: "st_data s = st_data t \<Longrightarrow> st_data (state_step op s) = st_data (state_step op t)"
  by (cases op) (simp_all add: state_apply_def apply_round_def state_record_def mark_applied_def)

lemma state_run_data_cong: "st_data s = st_data t \<Longrightarrow> st_data (state_run ops s) = st_data (state_run ops t)"
proof (induction ops arbitrary: s t)
  case (Cons op ops)
  show ?case unfolding state_run_simps by (rule Cons.IH [OF state_step_data_cong [OF Cons.prems]])
qed simp

lemma state_run_append: "state_run (xs @ ys) s = state_run ys (state_run xs s)"
  by (simp add: state_run_def)

lemma state_snapshot_data [simp]:
  "st_data (snd (state_snapshot s)) = st_data s" "st_pending (snd (state_snapshot s)) = Map.empty"
  "sn_data (fst (state_snapshot s)) = st_data s" "sn_pending (fst (state_snapshot s)) = st_pending s"
  by (simp_all add: state_snapshot_def)

lemma snapshot_state_step:
  assumes "length ops < 2 ^ 64"
  shows "snapshot_state (ops # schedule) s =
     (if noise ops = 0 then Some (state_snapshot (state_run ops s))
      else snapshot_state schedule (snd (state_snapshot (state_run ops s))))"
  using vs.fence_iff [OF assms, of s] by (simp add: Let_def split_beta)

lemma snapshot_state_some:
  assumes "i < length schedule" "noise (schedule ! i) = 0"
    and "\<And>j. j < i \<Longrightarrow> noise (schedule ! j) \<noteq> 0"
    and "\<And>ops. ops \<in> set schedule \<Longrightarrow> length ops < 2 ^ 64"
  shows "\<exists>snap s'. snapshot_state schedule s = Some (snap, s') \<and>
     sn_data snap = st_data (state_run (concat (take (i + 1) schedule)) s) \<and>
     st_data s' = sn_data snap \<and> st_pending s' = Map.empty"
  using assms
proof (induction schedule arbitrary: i s)
  case (Cons ops schedule)
  have len: "length ops < 2 ^ 64" using Cons.prems(4) by simp
  show ?case
  proof (cases i)
    case 0
    then have "snapshot_state (ops # schedule) s = Some (state_snapshot (state_run ops s))"
      using Cons.prems(2) by (simp only: snapshot_state_step [OF len]) simp
    then show ?thesis
      using 0 by (metis (no_types) One_nat_def add_0 append_Nil2 concat.simps prod.collapse
          state_snapshot_data(1-3) take0 take_Suc_Cons)
  next
    case (Suc k)
    let ?s = "snd (state_snapshot (state_run ops s))"
    have "noise ops \<noteq> 0" using Cons.prems(3) [of 0] Suc by simp
    then have eq: "snapshot_state (ops # schedule) s = snapshot_state schedule ?s"
      by (simp only: snapshot_state_step [OF len]) simp
    have "\<exists>snap s'. snapshot_state schedule ?s = Some (snap, s') \<and>
        sn_data snap = st_data (state_run (concat (take (k + 1) schedule)) ?s) \<and>
        st_data s' = sn_data snap \<and> st_pending s' = Map.empty"
    proof (rule Cons.IH)
      show "noise (schedule ! j) \<noteq> 0" if "j < k" for j
        using Cons.prems(3) [of "Suc j"] that Suc by simp
    qed (use Cons.prems Suc in simp_all)
    moreover have "st_data (state_run (concat (take (k + 1) schedule)) ?s) =
        st_data (state_run (concat (take (i + 1) (ops # schedule))) s)"
      using Suc by (simp add: state_run_append state_run_data_cong [of ?s "state_run ops s"])
    ultimately show ?thesis unfolding eq by simp
  qed
qed simp

section \<open>The barrier\<close>

text \<open>What the coordinator relies on in the sink: a flush moves exactly the waiting records up to
  the barrier to the durable ones.\<close>

locale barrier_log =
  fixes flush :: "int64 \<Rightarrow> 's \<Rightarrow> 's" and durable waiting :: "'s \<Rightarrow> 'r list" and seq :: "'r \<Rightarrow> int"
  assumes flush_durable: "durable (flush b s) = durable s @ filter (\<lambda>r. seq r \<le> sint b) (waiting s)"
    and flush_waiting: "waiting (flush b s) = filter (\<lambda>r. sint b < seq r) (waiting s)"
begin

lemma flush_conserves: "mset (durable (flush b s) @ waiting (flush b s)) = mset (durable s @ waiting s)"
proof -
  have "mset (filter (\<lambda>r. seq r \<le> sint b) xs) + mset (filter (\<lambda>r. sint b < seq r) xs) = mset xs" for xs
    using multiset_partition [of "mset xs" "\<lambda>r. seq r \<le> sint b"] by (simp add: not_le)
  then show ?thesis by (simp add: flush_durable flush_waiting)
qed

lemma flush_clears: "r \<in> set (waiting (flush b s)) \<Longrightarrow> sint b < seq r"
  by (simp add: flush_waiting)

lemma flush_regressing:
  assumes "sint b' \<le> sint b"
  shows "durable (flush b' (flush b s)) = durable (flush b s)"
    and "waiting (flush b' (flush b s)) = waiting (flush b s)"
proof -
  have "filter (\<lambda>r. seq r \<le> sint b') (waiting (flush b s)) = []"
    using assms flush_clears [of _ b s] by (fastforce simp: filter_empty_conv)
  then show "durable (flush b' (flush b s)) = durable (flush b s)"
    by (simp only: flush_durable [of b'] append_Nil2)
  have "filter (\<lambda>r. sint b' < seq r) (waiting (flush b s)) = waiting (flush b s)"
    using assms flush_clears [of _ b s] by (fastforce simp: filter_id_conv)
  then show "waiting (flush b' (flush b s)) = waiting (flush b s)"
    by (simp only: flush_waiting [of b'])
qed

end

interpretation bl: barrier_log commit_up_to sk_committed sk_pending "\<lambda>r. sint (o_seq r)"
  by unfold_locales (simp_all add: commit_up_to_eq word_sle_eq not_le)

section \<open>Histories of the coordinator\<close>

datatype cp_op =
    CpWrite string int64
  | CpMutate state_op
  | CpCommit int64
  | CpRestore snapshot_data int64
  | CpRetry int64

text \<open>A retry stands here for its effect on the coordinator: what its callback does is a sequence of
  operations of its own.\<close>

fun cp_step :: "cp_op \<Rightarrow> coordinator \<times> shared \<Rightarrow> (coordinator \<times> shared) go" where
  "cp_step (CpWrite key v) (c, sh) = Inr (c, sh\<lparr>sh_sink := snd (sink_write key v (sh_sink sh))\<rparr>)"
| "cp_step (CpMutate op) (c, sh) = Inr (c, sh\<lparr>sh_store := state_step op (sh_store sh)\<rparr>)"
| "cp_step (CpCommit offset) cs = cp_commit offset cs"
| "cp_step (CpRestore snap offset) cs = cp_restore snap offset cs"
| "cp_step (CpRetry failed) cs = Inr (snd (cp_retry failed (\<lambda>from cs. (from, cs)) cs))"

fun cp_run :: "cp_op list \<Rightarrow> coordinator \<times> shared \<Rightarrow> (coordinator \<times> shared) go" where
  "cp_run [] cs = Inr cs"
| "cp_run (op # ops) cs = go_bind (cp_step op cs) (cp_run ops)"

definition new_shared :: shared where
  "new_shared = \<lparr>sh_store = new_state_store, sh_sink = new_sink, sh_offsets = new_offset_tracker 0,
     sh_metrics = Some new_metrics\<rparr>"

fun op_confirms :: "cp_op \<Rightarrow> (string \<times> int64) list" where
  "op_confirms (CpCommit offset) = [(''commit'', offset)]"
| "op_confirms (CpRestore snap offset) = [(''restore'', offset)]"
| "op_confirms _ = []"

definition confirms :: "cp_op list \<Rightarrow> (string \<times> int64) list" where
  "confirms ops = concat (map op_confirms ops)"

definition kind_count :: "string \<Rightarrow> (string \<times> int64) list \<Rightarrow> nat" where
  "kind_count kind h = length (filter (\<lambda>(k, _). k = kind) h)"

text \<open>The manifests the operations leave, of the versions the store has when they come: every commit leaves
  one, a restore only a valid one.\<close>

fun manifests :: "cp_op list \<Rightarrow> state_store \<Rightarrow> manifest list" where
  "manifests [] s = []"
| "manifests (CpMutate op # ops) s = manifests ops (state_step op s)"
| "manifests (CpCommit offset # ops) s = new_manifest (state_version s) offset # manifests ops s"
| "manifests (CpRestore snap offset # ops) s =
     (if manifest_valid (new_manifest (sn_seq snap) offset) then [new_manifest (sn_seq snap) offset] else []) @
     manifests ops (restore_snapshot snap s)"
| "manifests (CpWrite key v # ops) s = manifests ops s"
| "manifests (CpRetry failed # ops) s = manifests ops s"

definition is_retry :: "cp_op \<Rightarrow> bool" where
  "is_retry op \<longleftrightarrow> (\<exists>failed. op = CpRetry failed)"

lemma cp_step_attempts:
  assumes "cp_step op (c, sh) = Inr (c', sh')"
  shows "co_attempts c' = co_attempts c + of_nat (length (filter is_retry [op]))"
  using assms
  by (cases op) (auto simp: cp_commit_def cp_restore_def cp_retry_def is_retry_def Let_def elim!: go_bind_InrE)

lemma cp_step_manifest:
  assumes "cp_step op (c, sh) = Inr (c', sh')"
  shows "last (co_manifest c # manifests (op # ops) (sh_store sh)) = last (co_manifest c' # manifests ops (sh_store sh'))"
  using assms
  by (cases op) (auto simp: cp_commit_def cp_restore_def cp_retry_def Let_def elim!: go_bind_InrE)

lemma cp_run_manifest:
  "cp_run ops (c, sh) = Inr (c', sh') \<Longrightarrow>
   co_manifest c' = last (co_manifest c # manifests ops (sh_store sh)) \<and>
   co_attempts c' = co_attempts c + of_nat (length (filter is_retry ops))"
proof (induction ops arbitrary: c sh)
  case (Cons op ops)
  then obtain c1 sh1 where one: "cp_step op (c, sh) = Inr (c1, sh1)" "cp_run ops (c1, sh1) = Inr (c', sh')"
    by (auto elim!: go_bind_InrE)
  show ?case
    using Cons.IH [OF one(2)] cp_step_attempts [OF one(1)] cp_step_manifest [OF one(1), of ops] by simp
qed simp

text \<open>What a coordinator shows after the history \<open>h\<close> of confirmed commits and restores.\<close>

definition cp_shows :: "(string \<times> int64) list \<Rightarrow> coordinator \<times> shared \<Rightarrow> bool" where
  "cp_shows h cs \<longleftrightarrow> (case cs of (c, sh) \<Rightarrow>
     co_last c = last (0 # map snd h) \<and>
     sint (of_committed (sh_offsets sh)) = Max (insert 0 (sint ` snd ` set h)) \<and>
     lg_capacity (co_log c) = 32 \<and>
     map (\<lambda>e. (le_kind e, le_offset e)) (lg_entries (co_log c)) = keep_last 32 h \<and>
     (case sh_metrics sh of None \<Rightarrow> False
      | Some m \<Rightarrow> m_checkpoints m = of_nat (kind_count ''commit'' h) \<and>
                  m_restores m = of_nat (kind_count ''restore'' h)))"

lemma keep_last_map: "map f (keep_last n xs) = keep_last n (map f xs)"
  by (simp add: keep_last_def drop_map)

lemma Max_snoc: "finite A \<Longrightarrow> max a (Max (insert 0 A)) = Max (insert (0 :: int) (insert a A))"
  by (simp add: insert_commute [of 0 a])

lemma cp_shows_confirm:
  assumes "cp_shows h (c, sh)"
  shows "\<exists>c' sh'. cp_commit offset (c, sh) = Inr (c', sh') \<and> cp_shows (h @ [(''commit'', offset)]) (c', sh')"
    and "\<exists>c' sh'. cp_restore snap offset (c, sh) = Inr (c', sh') \<and> cp_shows (h @ [(''restore'', offset)]) (c', sh')"
proof -
  obtain m where m: "sh_metrics sh = Some m"
    using assms(1) by (auto simp: cp_shows_def split: option.splits)
  have entries: "map (\<lambda>e. (le_kind e, le_offset e)) (keep_last 32 (lg_entries (co_log c) @ [e])) =
      keep_last 32 (h @ [(le_kind e, le_offset e)])" for e
    using assms(1) by (simp add: cp_shows_def keep_last_map keep_last_snoc)
  show "\<exists>c' sh'. cp_commit offset (c, sh) = Inr (c', sh') \<and> cp_shows (h @ [(''commit'', offset)]) (c', sh')"
    using assms(1) by (simp add: cp_commit_def Let_def log_append_keeps_last cp_shows_def m entries
        offset_commit_max Max_snoc kind_count_def add_checkpoint_def)
  show "\<exists>c' sh'. cp_restore snap offset (c, sh) = Inr (c', sh') \<and> cp_shows (h @ [(''restore'', offset)]) (c', sh')"
    using assms(1) by (simp add: cp_restore_def Let_def log_append_keeps_last cp_shows_def m entries
        offset_commit_max Max_snoc kind_count_def add_restore_def)
qed

lemma cp_shows_step:
  assumes "cp_shows h (c, sh)"
  shows "\<exists>c' sh'. cp_step op (c, sh) = Inr (c', sh') \<and> cp_shows (h @ op_confirms op) (c', sh')"
proof (cases op)
  case (CpCommit offset)
  then show ?thesis using cp_shows_confirm(1) [OF assms] by simp
next
  case (CpRestore snap offset)
  then show ?thesis using cp_shows_confirm(2) [OF assms] by simp
qed (use assms in \<open>simp_all add: cp_shows_def cp_retry_def\<close>)

lemma cp_shows_run:
  "cp_shows h (c, sh) \<Longrightarrow>
   \<exists>c' sh'. cp_run ops (c, sh) = Inr (c', sh') \<and> cp_shows (h @ confirms ops) (c', sh')"
proof (induction ops arbitrary: h c sh)
  case (Cons op ops)
  from cp_shows_step [OF Cons.prems, of op] obtain c1 sh1
    where one: "cp_step op (c, sh) = Inr (c1, sh1)" "cp_shows (h @ op_confirms op) (c1, sh1)" by blast
  from Cons.IH [OF one(2)] one(1) show ?case by (simp add: confirms_def)
qed (simp add: confirms_def)

lemma cp_shows_new: "cp_shows [] (new_coordinator, new_shared)"
  by (simp add: cp_shows_def new_coordinator_def new_shared_def new_log_def new_offset_tracker_def
      keep_last_def kind_count_def new_metrics_def)

section \<open>Properties\<close>

text \<open>C34: the sequence fence returns at exactly the first attempt during which no mutation raised the
  sequence, and what it returns is the data after all the mutations that had happened by then; the
  store keeps that data with an empty journal. In particular \<^verbatim>\<open>SnapshotState\<close>
  terminates as soon as the store is quiet for one attempt.\<close>

theorem snapshot_returns_at_first_quiet_attempt:
  assumes "i < length schedule" and "noise (schedule ! i) = 0"
    and "\<forall>j < i. 0 < noise (schedule ! j)" and "\<forall>ops \<in> set schedule. length ops < 2 ^ 64"
  shows "\<exists>snap s'. snapshot_state schedule s = Some (snap, s') \<and>
           sn_data snap = st_data (state_run (concat (take (i + 1) schedule)) s) \<and>
           st_data s' = sn_data snap \<and> st_pending s' = Map.empty"
proof (rule snapshot_state_some [OF assms(1,2)])
  show "noise (schedule ! j) \<noteq> 0" if "j < i" for j using assms(3) that by simp
  show "length ops < 2 ^ 64" if "ops \<in> set schedule" for ops using assms(4) that by blast
qed

theorem snapshot_returns_at_first_quiet_attempt_witness:
  "\<exists>snap s'. snapshot_state [[SApply ''a'' 2], [SMark 7]] new_state_store = Some (snap, s') \<and>
     getd (sn_data snap) ''a'' = 2"
proof -
  have "\<exists>snap s'. snapshot_state [[SApply ''a'' 2], [SMark 7]] new_state_store = Some (snap, s') \<and>
      sn_data snap = st_data (state_run (concat (take (1 + 1) [[SApply ''a'' 2], [SMark 7]])) new_state_store) \<and>
      st_data s' = sn_data snap \<and> st_pending s' = Map.empty"
    by (rule snapshot_returns_at_first_quiet_attempt) (simp_all add: noise_def)
  then show ?thesis
    by (elim exE conjE) (simp add: state_apply_def mark_applied_def new_state_store_def getd_bump)
qed

text \<open>A disturbed attempt has already emptied the journal, so when the fence retries, the
  increments it captured and threw away are in no snapshot's journal: the snapshot that is returned
  has the increment in its data but not in its pending map.\<close>

theorem snapshot_retry_drops_journal:
  "\<exists>snap s'. snapshot_state [[SApply key delta], []] s = Some (snap, s') \<and>
     sn_pending snap = Map.empty \<and> st_pending s' = Map.empty \<and>
     getd (sn_data snap) key = getd (st_data s) key + delta"
  by (simp add: state_version_def state_snapshot_def state_apply_def Let_def getd_bump)

text \<open>C10: after any history of writes, mutations, commits, restores and retries the coordinator did not
  panic; a retry starts its replay at the offset confirmed last, whatever attempt failed, and counts itself; the
  manifest is the last one that a commit or a valid restore left, with the version the store had then and the
  offset; the offset tracker holds the largest offset confirmed, the log holds the last 32 confirmations in
  order, and the metrics count them.\<close>

theorem coordinator_history:
  "\<exists>c sh m. cp_run ops (new_coordinator, new_shared) = Inr (c, sh) \<and>
     co_last c = last (0 # map snd (confirms ops)) \<and>
     (\<forall>failed. fst (cp_retry failed (\<lambda>from cs. (from, cs)) (c, sh)) = last (0 # map snd (confirms ops))) \<and>
     co_attempts c = of_nat (length (filter is_retry ops)) \<and>
     co_manifest c = last (new_manifest 0 0 # manifests ops new_state_store) \<and>
     sint (of_committed (sh_offsets sh)) = Max (insert 0 (sint ` snd ` set (confirms ops))) \<and>
     map (\<lambda>e. (le_kind e, le_offset e)) (lg_entries (co_log c)) = keep_last 32 (confirms ops) \<and>
     sh_metrics sh = Some m \<and> m_checkpoints m = of_nat (kind_count ''commit'' (confirms ops)) \<and>
     m_restores m = of_nat (kind_count ''restore'' (confirms ops))"
proof -
  obtain c sh where run: "cp_run ops (new_coordinator, new_shared) = Inr (c, sh)" and seen: "cp_shows (confirms ops) (c, sh)"
    using cp_shows_run [OF cp_shows_new, of ops] by auto
  have "co_manifest new_coordinator = new_manifest 0 0" "co_attempts new_coordinator = 0" "sh_store new_shared = new_state_store"
    by (simp_all add: new_coordinator_def new_shared_def)
  then have extra: "co_manifest c = last (new_manifest 0 0 # manifests ops new_state_store)"
      "co_attempts c = of_nat (length (filter is_retry ops))"
    using cp_run_manifest [OF run] by simp_all
  have start: "fst (cp_retry failed (\<lambda>from cs. (from, cs)) (c, sh)) = co_last c" for failed by (simp add: cp_retry_def)
  obtain m where m: "sh_metrics sh = Some m" using seen by (auto simp: cp_shows_def split: option.splits)
  show ?thesis
    by (intro exI [of _ c] exI [of _ sh] exI [of _ m])
       (use run seen extra start m in \<open>simp add: cp_shows_def\<close>)
qed

text \<open>A commit flushes every sink record up to the offset and no other, loses none, moves the
  durable offset forward only, and records the store's version and the offset in the manifest.\<close>

theorem commit_effects:
  assumes "cp_commit offset (c, sh) = Inr (c', sh')"
  shows "(\<forall>r \<in> set (sk_pending (sh_sink sh')). sint offset < sint (o_seq r)) \<and>
     mset (sk_committed (sh_sink sh') @ sk_pending (sh_sink sh')) =
       mset (sk_committed (sh_sink sh) @ sk_pending (sh_sink sh)) \<and>
     sint (of_committed (sh_offsets sh')) = max (sint offset) (sint (of_committed (sh_offsets sh))) \<and>
     co_manifest c' = new_manifest (st_seq (sh_store sh)) offset \<and> sh_store sh' = sh_store sh"
proof -
  have parts: "sh_sink sh' = commit_up_to offset (sh_sink sh)"
      "sh_offsets sh' = offset_commit offset (sh_offsets sh)" "sh_store sh' = sh_store sh"
      "co_manifest c' = new_manifest (st_seq (sh_store sh)) offset"
    using assms by (auto simp: cp_commit_def Let_def state_version_def elim!: go_bind_InrE)
  then show ?thesis
    using bl.flush_clears bl.flush_conserves by (simp add: offset_commit_max)
qed

theorem commit_effects_witness:
  "\<exists>c sh. cp_commit 1 (new_coordinator, new_shared\<lparr>sh_sink := sink_run [SkWrite ''a'' 3, SkWrite ''b'' 4] new_sink\<rparr>) =
     Inr (c, sh) \<and> (\<forall>r \<in> set (sk_pending (sh_sink sh)). 1 < sint (o_seq r))"
proof -
  let ?sh = "new_shared\<lparr>sh_sink := sink_run [SkWrite ''a'' 3, SkWrite ''b'' 4] new_sink\<rparr>"
  have "\<exists>c sh. cp_commit 1 (new_coordinator, ?sh) = Inr (c, sh)"
    by (simp add: cp_commit_def Let_def log_append_keeps_last new_coordinator_def new_log_def)
  then obtain c sh where "cp_commit 1 (new_coordinator, ?sh) = Inr (c, sh)" by blast
  with commit_effects [OF this] show ?thesis by auto
qed

text \<open>A commit at an offset below the durable one flushes nothing new but still moves
  \<^verbatim>\<open>lastCommitted\<close> back, which the offset tracker ignores: the two positions
  then disagree, and a retry replays events the sink has already committed.\<close>

theorem regressing_commit_disagrees:
  assumes "cp_commit offset (c, sh) = Inr (c1, sh1)" and "cp_commit lower (c1, sh1) = Inr (c2, sh2)"
    and "sint lower < sint offset"
  shows "sk_committed (sh_sink sh2) = sk_committed (sh_sink sh1) \<and>
     sh_offsets sh2 = sh_offsets sh1 \<and>
     cp_retry failed replay (c2, w) = replay lower (c2\<lparr>co_attempts := co_attempts c2 + 1\<rparr>, w) \<and>
     sint lower < sint (of_committed (sh_offsets sh2))"
proof -
  have parts: "sh_sink sh1 = commit_up_to offset (sh_sink sh)"
      "sh_offsets sh1 = offset_commit offset (sh_offsets sh)"
      "sh_sink sh2 = commit_up_to lower (sh_sink sh1)"
      "sh_offsets sh2 = offset_commit lower (sh_offsets sh1)" "co_last c2 = lower"
    using assms(1,2) by (auto simp: cp_commit_def Let_def elim!: go_bind_InrE)
  have low: "sint lower < sint (of_committed (sh_offsets sh1))"
    using assms(3) parts(2) offset_commit_max [of offset "sh_offsets sh"] by simp
  then have "sh_offsets sh2 = sh_offsets sh1"
    using parts(4) by (simp add: offset_commit_def word_sless_alt)
  with low parts show ?thesis
    using bl.flush_regressing(1) [of lower offset "sh_sink sh"] assms(3) by (simp add: cp_retry_def)
qed

theorem regressing_commit_disagrees_witness:
  "\<exists>c sh. cp_run [CpCommit 9, CpCommit 4] (new_coordinator, new_shared) = Inr (c, sh) \<and>
     4 < sint (of_committed (sh_offsets sh)) \<and> fst (cp_retry 9 (\<lambda>from _. (from, c, ())) (c, ())) = 4"
proof -
  obtain c1 sh1 where one: "cp_commit 9 (new_coordinator, new_shared) = Inr (c1, sh1)"
      and "lg_capacity (co_log c1) = 32"
    by (simp add: cp_commit_def Let_def log_append_keeps_last new_coordinator_def new_log_def)
  moreover from this obtain c2 sh2 where two: "cp_commit 4 (c1, sh1) = Inr (c2, sh2)"
    by (simp add: cp_commit_def Let_def log_append_keeps_last)
  moreover have "4 < sint (of_committed (sh_offsets sh2)) \<and>
      fst (cp_retry 9 (\<lambda>from _. (from, c2, ())) (c2, ())) = 4"
    using regressing_commit_disagrees [OF one two, of 9 "\<lambda>from _. (from, c2, ())" "()"] by auto
  ultimately show ?thesis by simp
qed

end
