(* ===== verification/Windows.thy ===== *)
theory Windows
  imports Agg_Store Watermark "HOL-Library.Sublist"
begin

text \<open>
  \<^verbatim>\<open>internal/window/window.go\<close> and
  \<^verbatim>\<open>catalog.go\<close>: tumbling windows, their trigger at the confirmed watermark and
  the monitoring catalog. The sink a closed window is handed to is an interface in the code; here its
  two methods are the arguments \<open>emit\<close> and \<open>late\<close>, its contract is the locale
  \<open>result_sink\<close>, and the lifecycle is proved for every sink that keeps the contract.
\<close>

section \<open>Catalog (catalog.go)\<close>

record catalog_entry =
  ce_window :: string
  ce_state :: string
  ce_events :: int64
  ce_late :: int64
  ce_opened_at :: int64
  ce_closed_at :: int64

record catalog =
  ca_entries :: "window_id \<rightharpoonup> catalog_entry"

definition new_catalog :: catalog where
  "new_catalog = \<lparr>ca_entries = Map.empty\<rparr>"

text \<open>The literal every operation inserts for an unknown window.\<close>

definition fresh_entry :: "window_id \<Rightarrow> window_state \<Rightarrow> int64 \<Rightarrow> catalog_entry" where
  "fresh_entry w state at = \<lparr>ce_window = window_string w, ce_state = window_state_string state,
     ce_events = 0, ce_late = 0, ce_opened_at = at, ce_closed_at = 0\<rparr>"

definition catalog_edit :: "window_id \<Rightarrow> catalog_entry \<Rightarrow> (catalog_entry \<Rightarrow> catalog_entry) \<Rightarrow> catalog \<Rightarrow> catalog" where
  "catalog_edit w fresh f c =
     (let entry = (case ca_entries c w of None \<Rightarrow> fresh | Some e \<Rightarrow> e)
      in c\<lparr>ca_entries := (ca_entries c)(w \<mapsto> f entry)\<rparr>)"

definition catalog_open :: "window_id \<Rightarrow> int64 \<Rightarrow> catalog \<Rightarrow> catalog" where
  "catalog_open w at c = catalog_edit w (fresh_entry w WindowOpen at)
     (\<lambda>e. e\<lparr>ce_state := window_state_string WindowOpen\<rparr>) c"

definition record_event :: "window_id \<Rightarrow> int64 \<Rightarrow> catalog \<Rightarrow> catalog" where
  "record_event w at c = catalog_edit w (fresh_entry w WindowOpen at)
     (\<lambda>e. e\<lparr>ce_events := ce_events e + 1\<rparr>) c"

definition record_late :: "window_id \<Rightarrow> catalog \<Rightarrow> catalog" where
  "record_late w c = catalog_edit w (fresh_entry w WindowClosed 0)
     (\<lambda>e. e\<lparr>ce_late := ce_late e + 1\<rparr>) c"

definition catalog_close :: "window_id \<Rightarrow> int64 \<Rightarrow> catalog \<Rightarrow> catalog" where
  "catalog_close w at c = catalog_edit w (fresh_entry w WindowClosed at)
     (\<lambda>e. e\<lparr>ce_state := window_state_string WindowClosed, ce_closed_at := at\<rparr>) c"

definition catalog_summary :: "window_id list \<Rightarrow> catalog \<Rightarrow> catalog_entry list" where
  "catalog_summary order c =
     sort_slice ce_window (range_fold (\<lambda>_ e out. out @ [e]) order (ca_entries c) [])"

section \<open>Manager (window.go)\<close>

datatype ingest_outcome = OutcomeAccepted | OutcomeLate

record managed_window =
  mw_state :: window_state
  mw_values :: "int64 list"

record window_manager =
  wn_size :: int64
  wn_windows :: "window_id \<rightharpoonup> managed_window"
  wn_catalog :: catalog
  wn_kind :: window_type

definition new_window_manager :: "int64 \<Rightarrow> window_manager" where
  "new_window_manager sz =
     \<lparr>wn_size = sz, wn_windows = Map.empty, wn_catalog = new_catalog, wn_kind = WindowTumbling\<rparr>"

definition window_for :: "int64 \<Rightarrow> int64 \<Rightarrow> window_id go" where
  "window_for sz ts = go_bind (go_div ts sz) (\<lambda>q.
     let start = q * sz in Inr \<lparr>w_start = start, w_end = start + sz, w_key = ''''\<rparr>)"

definition ingest :: "(window_id \<Rightarrow> int64 \<Rightarrow> 's \<Rightarrow> 's) \<Rightarrow> event \<Rightarrow> window_manager \<times> 's \<Rightarrow>
    (ingest_outcome \<times> window_manager \<times> 's) go" where
  "ingest late ev ms = (case ms of (m, s) \<Rightarrow>
     go_bind (window_for (wn_size m) (ev_timestamp ev)) (\<lambda>w.
     let (mw, m) = (case wn_windows m w of
           Some mw \<Rightarrow> (mw, m)
         | None \<Rightarrow> let mw = \<lparr>mw_state = WindowOpen, mw_values = []\<rparr>
                   in (mw, m\<lparr>wn_windows := (wn_windows m)(w \<mapsto> mw),
                             wn_catalog := catalog_open w (ev_timestamp ev) (wn_catalog m)\<rparr>))
     in Inr (if mw_state mw = WindowClosed
             then (OutcomeLate, m\<lparr>wn_catalog := record_late w (wn_catalog m)\<rparr>, late w (ev_value ev) s)
             else (OutcomeAccepted,
                   m\<lparr>wn_windows := (wn_windows m)(w \<mapsto> mw\<lparr>mw_values := mw_values mw @ [ev_value ev]\<rparr>),
                     wn_catalog := record_event w (ev_timestamp ev) (wn_catalog m)\<rparr>, s))))"

text \<open>One pass of the loop of \<^verbatim>\<open>MaybeTrigger\<close>. The states
  \<^const>\<open>WindowTriggering\<close> and \<^const>\<open>WindowClosing\<close> are set and
  left inside one critical section.\<close>

definition trigger_window :: "(window_id \<Rightarrow> int64 list \<Rightarrow> 's \<Rightarrow> window_result option \<times> 's) \<Rightarrow> int64 \<Rightarrow>
    window_id \<Rightarrow> window_manager \<times> 's \<times> window_result list \<Rightarrow> window_manager \<times> 's \<times> window_result list" where
  "trigger_window emit confirmed w st = (case st of (m, s, emitted) \<Rightarrow>
     (case wn_windows m w of
        None \<Rightarrow> (m, s, emitted)
      | Some mw \<Rightarrow>
          if confirmed <s w_end w \<or> \<not> can_close (mw_state mw) then (m, s, emitted)
          else let mw = mw\<lparr>mw_state := WindowTriggering\<rparr>;
                   (result, s) = emit w (mw_values mw) s;
                   emitted = (case result of Some r \<Rightarrow> emitted @ [r] | None \<Rightarrow> emitted);
                   mw = mw\<lparr>mw_state := WindowClosing\<rparr>;
                   mw = mw\<lparr>mw_state := WindowClosed\<rparr>
               in (m\<lparr>wn_windows := (wn_windows m)(w \<mapsto> mw),
                     wn_catalog := catalog_close w confirmed (wn_catalog m)\<rparr>, s, emitted)))"

definition maybe_trigger :: "(window_id \<Rightarrow> int64 list \<Rightarrow> 's \<Rightarrow> window_result option \<times> 's) \<Rightarrow> window_id list \<Rightarrow>
    tracker \<Rightarrow> window_manager \<times> 's \<Rightarrow> window_result list \<times> window_manager \<times> 's" where
  "maybe_trigger emit order tracker ms = (case ms of (m, s) \<Rightarrow>
     let confirmed = confirmed_of tracker;
         (m, s, emitted) = fold (trigger_window emit confirmed) order (m, s, [])
     in (sort_slice (\<lambda>r. sint (w_start (r_window r))) emitted, m, s))"

definition open_count :: "window_id list \<Rightarrow> window_manager \<Rightarrow> nat" where
  "open_count order m =
     range_fold (\<lambda>_ mw count. if mw_state mw \<noteq> WindowClosed then count + 1 else count) order (wn_windows m) 0"

definition window_snapshot :: "window_id list \<Rightarrow> window_manager \<Rightarrow> (string \<rightharpoonup> string)" where
  "window_snapshot order m =
     range_fold (\<lambda>w mw out. out(window_string w \<mapsto> window_state_string (mw_state mw))) order (wn_windows m) Map.empty"

section \<open>The window of a timestamp\<close>

lemma window_for_eq:
  "window_for sz ts = (if sz = 0 then Inl DivideByZero else
     let start = word_of_int (sint ts sdiv sint sz) * sz
     in Inr \<lparr>w_start = start, w_end = start + sz, w_key = []\<rparr>)"
  by (simp add: window_for_def go_div_def Let_def)

lemma window_for_key: "window_for sz ts = Inr w \<Longrightarrow> w_key w = []"
  by (auto simp: window_for_eq Let_def split: if_splits)


section \<open>Histories\<close>

text \<open>
  A run of the manager over any sink: events are ingested and watermarks triggered in any order, with
  any iteration order of the windows. It records each ingested event with its outcome and all the
  results that triggers returned.
\<close>

inductive win_run :: "(window_id \<Rightarrow> int64 list \<Rightarrow> 's \<Rightarrow> window_result option \<times> 's) \<Rightarrow>
    (window_id \<Rightarrow> int64 \<Rightarrow> 's \<Rightarrow> 's) \<Rightarrow> window_manager \<times> 's \<Rightarrow> (event \<times> ingest_outcome) list \<Rightarrow>
    window_result list \<Rightarrow> window_manager \<times> 's \<Rightarrow> bool"
  for emit late start where
  start: "win_run emit late start [] [] start"
| ingest: "win_run emit late start (hist @ [(ev, out)]) rs ms'"
    if "win_run emit late start hist rs ms" and "ingest late ev ms = Inr (out, ms')"
| trigger: "win_run emit late start hist (rs @ es) ms'"
    if "win_run emit late start hist rs ms" and "enum_of order (wn_windows (fst ms))"
      and "maybe_trigger emit order tracker ms = (es, ms')"

text \<open>The values of the window's events that had the given outcome, and its results.\<close>

definition taken :: "int64 \<Rightarrow> window_id \<Rightarrow> ingest_outcome \<Rightarrow> (event \<times> ingest_outcome) list \<Rightarrow> int64 list" where
  "taken sz w out hist =
     map (ev_value \<circ> fst) (filter (\<lambda>(ev, x). x = out \<and> window_for sz (ev_timestamp ev) = Inr w) hist)"

definition results_of :: "window_id \<Rightarrow> window_result list \<Rightarrow> window_result list" where
  "results_of w rs = filter (\<lambda>r. r_window r = w) rs"

text \<open>
  The lifecycle of one window: unknown, open with the values it accepted and nothing published, or
  closed with exactly one result, the fold of those values.
\<close>

definition window_shows :: "window_id \<Rightarrow> managed_window option \<Rightarrow> int64 list \<Rightarrow> int64 list \<Rightarrow>
    window_result list \<Rightarrow> window_result option \<Rightarrow> bool \<Rightarrow> bool" where
  "window_shows w mw accepted late_vals results pub fresh \<longleftrightarrow>
     (case mw of
        None \<Rightarrow> accepted = [] \<and> late_vals = [] \<and> results = [] \<and> fresh
      | Some mw \<Rightarrow> mw_values mw = accepted \<and>
          (if mw_state mw = WindowClosed
           then results = [window_outcome w accepted] \<and> pub = Some (window_outcome w accepted)
           else mw_state mw = WindowOpen \<and> late_vals = [] \<and> results = [] \<and> fresh))"

definition win_shows :: "('s \<Rightarrow> window_id \<rightharpoonup> window_result) \<Rightarrow> ('s \<Rightarrow> window_id set) \<Rightarrow> int64 \<Rightarrow>
    (event \<times> ingest_outcome) list \<Rightarrow> window_result list \<Rightarrow> window_manager \<times> 's \<Rightarrow> bool" where
  "win_shows pub fresh sz hist rs ms \<longleftrightarrow> (case ms of (m, s) \<Rightarrow>
     wn_size m = sz \<and> (\<forall>w. wn_windows m w \<noteq> None \<longrightarrow> w_key w = []) \<and>
     (\<forall>w. w_key w = [] \<longrightarrow> window_shows w (wn_windows m w) (taken sz w OutcomeAccepted hist)
        (taken sz w OutcomeLate hist) (results_of w rs) (pub s w) (w \<in> fresh s)))"

lemma taken_snoc: "taken sz w out (hist @ [(ev, x)]) =
    taken sz w out hist @ (if x = out \<and> window_for sz (ev_timestamp ev) = Inr w then [ev_value ev] else [])"
  by (simp add: taken_def)

lemma taken_Nil [simp]: "taken sz w out [] = []"
  by (simp add: taken_def)

lemma results_of_append [simp]: "results_of w (xs @ ys) = results_of w xs @ results_of w ys"
  by (simp add: results_of_def)

lemma results_of_simps [simp]:
  "results_of w [] = []" "results_of w (r # rs) = (if r_window r = w then r # results_of w rs else results_of w rs)"
  by (simp_all add: results_of_def)

lemma results_of_perm:
  assumes "mset xs = mset ys" "length (results_of w xs) \<le> 1"
  shows "results_of w ys = results_of w xs"
proof -
  have m: "mset (results_of w ys) = mset (results_of w xs)"
    using assms(1) by (simp add: results_of_def)
  consider "results_of w xs = []" | r where "results_of w xs = [r]"
    using assms(2) by (cases "results_of w xs") auto
  then show ?thesis using m by cases simp_all
qed

lemma window_outcome_window [simp]: "r_window (window_outcome w vs) = w"
  by (simp add: window_outcome_def fresh_result_def)

lemma win_shows_at:
  "win_shows pub fresh sz hist rs (m, s) \<Longrightarrow> w_key w = [] \<Longrightarrow>
   window_shows w (wn_windows m w) (taken sz w OutcomeAccepted hist) (taken sz w OutcomeLate hist)
     (results_of w rs) (pub s w) (w \<in> fresh s)"
  by (simp add: win_shows_def)

text \<open>Other users of the sink that keep their hands off unkeyed windows do not disturb it.\<close>

lemma win_shows_frame:
  assumes "win_shows pub fresh sz hist rs (m, s)"
    and "\<And>w. w_key w = [] \<Longrightarrow> pub s' w = pub s w \<and> (w \<in> fresh s' \<longleftrightarrow> w \<in> fresh s)"
  shows "win_shows pub fresh sz hist rs (m, s')"
  using assms by (simp add: win_shows_def)

text \<open>A step that concerns one window only has to be checked there.\<close>

lemma win_shows_update:
  assumes "win_shows pub fresh sz hist rs (m, s)"
    and "wn_size m' = wn_size m"
      "wn_windows m' = (wn_windows m)(w0 \<mapsto> mw)" "w_key w0 = []"
    and "\<And>w x. w \<noteq> w0 \<Longrightarrow> taken sz w x hist' = taken sz w x hist"
    and "\<And>w. w \<noteq> w0 \<Longrightarrow> results_of w rs' = results_of w rs"
    and "\<And>w. w \<noteq> w0 \<Longrightarrow> pub s' w = pub s w" "\<And>w. w \<noteq> w0 \<Longrightarrow> w \<in> fresh s' \<longleftrightarrow> w \<in> fresh s"
    and "window_shows w0 (Some mw) (taken sz w0 OutcomeAccepted hist') (taken sz w0 OutcomeLate hist')
      (results_of w0 rs') (pub s' w0) (w0 \<in> fresh s')"
  shows "win_shows pub fresh sz hist' rs' (m', s')"
proof -
  have "window_shows w (wn_windows m' w) (taken sz w OutcomeAccepted hist') (taken sz w OutcomeLate hist')
      (results_of w rs') (pub s' w) (w \<in> fresh s')" if "w_key w = []" for w
  proof (cases "w = w0")
    case False
    then show ?thesis using win_shows_at [OF assms(1) that] by (simp add: assms)
  qed (use assms in simp)
  moreover have "wn_size m' = sz" "\<forall>w. wn_windows m' w \<noteq> None \<longrightarrow> w_key w = []"
    using assms(1-4) by (simp_all add: win_shows_def)
  ultimately show ?thesis by (simp add: win_shows_def)
qed

lemma win_shows_perm:
  assumes "win_shows pub fresh sz hist (rs @ es) ms" "mset es' = mset es"
  shows "win_shows pub fresh sz hist (rs @ es') ms"
proof -
  have "results_of w (rs @ es') = results_of w (rs @ es)"
    if "window_shows w mw acc lt (results_of w (rs @ es)) p f" for w mw acc lt p f
  proof (rule results_of_perm)
    show "length (results_of w (rs @ es)) \<le> 1"
      using that by (simp add: window_shows_def split: option.splits if_splits del: results_of_append)
  qed (use assms(2) in simp)
  then show ?thesis
    using assms(1) by (cases ms) (simp only: win_shows_def prod.case, metis)
qed

context result_sink
begin

lemma ingest_shows:
  assumes inv: "win_shows published untouched sz hist rs (m, s)"
    and step: "ingest late ev (m, s) = Inr (out, m', s')"
  shows "win_shows published untouched sz (hist @ [(ev, out)]) rs (m', s')"
proof -
  have sz: "wn_size m = sz" using inv by (simp add: win_shows_def)
  obtain w where w: "window_for sz (ev_timestamp ev) = Inr w"
    using step sz by (auto simp: ingest_def elim!: go_bind_InrE)
  have key: "w_key w = []" using w by (rule window_for_key)
  have same: "taken sz x y (hist @ [(ev, out)]) = taken sz x y hist" if "x \<noteq> w" for x y
    using that w by (auto simp: taken_snoc)
  note at = win_shows_at [OF inv key]
  show ?thesis
  proof (cases "wn_windows m w")
    case None
    with step sz w have "out = OutcomeAccepted" "s' = s" and sz': "wn_size m' = wn_size m"
        and ws': "wn_windows m' = (wn_windows m)(w \<mapsto> \<lparr>mw_state = WindowOpen, mw_values = [ev_value ev]\<rparr>)"
      by (auto simp: ingest_def Let_def)
    with at None show ?thesis
      by (intro win_shows_update [OF inv sz' ws' key same]) (simp_all add: window_shows_def taken_snoc w)
  next
    case (Some mw)
    show ?thesis
    proof (cases "mw_state mw = WindowClosed")
      case True
      with step sz w Some have "out = OutcomeLate" "s' = late w (ev_value ev) s" and sz': "wn_size m' = wn_size m"
          and ws': "wn_windows m' = (wn_windows m)(w \<mapsto> mw)"
        by (auto simp: ingest_def Let_def fun_upd_idem)
      with at Some True show ?thesis
        by (intro win_shows_update [OF inv sz' ws' key same])
           (simp_all add: window_shows_def taken_snoc w late_published late_touches)
    next
      case False
      with step sz w Some have "out = OutcomeAccepted" "s' = s" and sz': "wn_size m' = wn_size m"
          and ws': "wn_windows m' = (wn_windows m)(w \<mapsto> mw\<lparr>mw_values := mw_values mw @ [ev_value ev]\<rparr>)"
        by (auto simp: ingest_def Let_def)
      with at Some False show ?thesis
        by (intro win_shows_update [OF inv sz' ws' key same]) (simp_all add: window_shows_def taken_snoc w)
    qed
  qed
qed

lemma trigger_window_shows:
  assumes inv: "win_shows published untouched sz hist (rs @ es) (m, s)"
    and step: "trigger_window emit confirmed w (m, s, es) = (m', s', es')"
  shows "win_shows published untouched sz hist (rs @ es') (m', s')"
proof (cases "\<exists>mw. wn_windows m w = Some mw \<and> \<not> confirmed <s w_end w \<and> can_close (mw_state mw)")
  case False
  then have "(m', s', es') = (m, s, es)"
    using step by (auto simp: trigger_window_def split: option.splits if_splits)
  then show ?thesis using inv by simp
next
  case True
  then obtain mw where mw: "wn_windows m w = Some mw" "\<not> confirmed <s w_end w" "can_close (mw_state mw)" by blast
  have key: "w_key w = []" using inv mw(1) by (simp add: win_shows_def)
  note at = win_shows_at [OF inv key]
  have fresh: "w \<in> untouched s" and none: "results_of w (rs @ es) = []"
      and vals: "mw_values mw = taken sz w OutcomeAccepted hist"
    using at mw by (auto simp: window_shows_def can_close_def split: if_splits)
  have "s' = snd (emit w (mw_values mw) s)" "es' = es @ [window_outcome w (mw_values mw)]"
      and sz': "wn_size m' = wn_size m"
      and ws': "wn_windows m' = (wn_windows m)(w \<mapsto> mw\<lparr>mw_state := WindowClosed\<rparr>)"
    using step mw emit_value [OF fresh, of "mw_values mw"]
    by (auto simp: trigger_window_def Let_def split: prod.splits)
  then show ?thesis
    using at mw none vals emit_new [OF fresh, of "mw_values mw"] emit_touches [of w "mw_values mw" s]
    by (intro win_shows_update [OF inv sz' ws' key]) (simp_all add: window_shows_def)
qed

lemma trigger_fold_shows:
  "win_shows published untouched sz hist (rs @ es) (m, s) \<Longrightarrow>
   fold (trigger_window emit confirmed) ws (m, s, es) = (m', s', es') \<Longrightarrow>
   win_shows published untouched sz hist (rs @ es') (m', s')"
proof (induction ws arbitrary: m s es)
  case (Cons w ws)
  obtain m1 s1 es1 where one: "trigger_window emit confirmed w (m, s, es) = (m1, s1, es1)"
    by (metis prod_cases3)
  show ?case
    using Cons.IH [OF trigger_window_shows [OF Cons.prems(1) one]] Cons.prems(2) one by simp
qed simp

lemma maybe_trigger_shows:
  assumes "win_shows published untouched sz hist rs (m, s)"
    and "maybe_trigger emit order tracker (m, s) = (es, m', s')"
  shows "win_shows published untouched sz hist (rs @ es) (m', s')"
proof -
  obtain m1 s1 es1 where loop: "fold (trigger_window emit (confirmed_of tracker)) order (m, s, []) = (m1, s1, es1)"
    by (metis prod_cases3)
  then have "m1 = m'" "s1 = s'" and es: "es = sort_slice (\<lambda>r. sint (w_start (r_window r))) es1"
    using assms(2) by (simp_all add: maybe_trigger_def Let_def)
  then have "win_shows published untouched sz hist (rs @ es1) (m', s')"
    using trigger_fold_shows [of sz hist rs "[]" m s] assms(1) loop by simp
  then show ?thesis by (rule win_shows_perm) (simp add: es)
qed

lemma win_run_shows:
  "win_run emit late start hist rs ms \<Longrightarrow> win_shows published untouched sz [] [] start \<Longrightarrow>
   win_shows published untouched sz hist rs ms"
proof (induction rule: win_run.induct)
  case (ingest hist rs ms ev out ms')
  then show ?case using ingest_shows by (cases ms; cases ms') blast
next
  case (trigger hist rs ms order tracker es ms')
  then show ?case using maybe_trigger_shows by (cases ms; cases ms') blast
qed

end

context kept_by_sink
begin

lemma kept_ingest: "kept s \<Longrightarrow> ingest late ev (m, s) = Inr (out, m', s') \<Longrightarrow> kept s'"
  by (auto simp: ingest_def Let_def kept_late elim!: go_bind_InrE split: option.splits if_splits)

lemma kept_trigger_fold:
  "kept s \<Longrightarrow> fold (trigger_window emit confirmed) ws (m, s, es) = (m', s', es') \<Longrightarrow> kept s'"
proof (induction ws arbitrary: m s es)
  case (Cons w ws)
  obtain m1 s1 es1 where one: "trigger_window emit confirmed w (m, s, es) = (m1, s1, es1)" by (metis prod_cases3)
  then have "kept s1"
    using Cons.prems(1)
    by (auto simp: trigger_window_def Let_def split: option.splits if_splits prod.splits intro: kept_emit_pair)
  then show ?case using Cons.IH Cons.prems(2) one by simp
qed simp

lemma kept_trigger: "kept s \<Longrightarrow> maybe_trigger emit order tracker (m, s) = (es, m', s') \<Longrightarrow> kept s'"
  by (auto simp: maybe_trigger_def Let_def split: prod.splits intro: kept_trigger_fold)

end

lemma win_shows_new: "win_shows published untouched sz [] [] (new_window_manager sz, new_agg_store)"
  by (simp add: win_shows_def window_shows_def new_window_manager_def new_agg_store_def untouched_def)

section \<open>What a trigger closes\<close>

definition closes :: "int64 \<Rightarrow> window_id \<Rightarrow> managed_window \<Rightarrow> bool" where
  "closes confirmed w mw \<longleftrightarrow> sint (w_end w) \<le> sint confirmed \<and> can_close (mw_state mw)"

definition close_if_ended :: "int64 \<Rightarrow> window_id \<Rightarrow> managed_window \<Rightarrow> managed_window" where
  "close_if_ended confirmed w mw = (if closes confirmed w mw then mw\<lparr>mw_state := WindowClosed\<rparr> else mw)"

lemma trigger_window_windows:
  assumes "trigger_window emit confirmed w (m, s, es) = (m', s', es')"
  shows "wn_windows m' = (\<lambda>x. if x = w then map_option (close_if_ended confirmed w) (wn_windows m w) else wn_windows m x)"
    and "wn_size m' = wn_size m"
  using assms
  by (auto simp: trigger_window_def close_if_ended_def closes_def Let_def word_sless_alt fun_eq_iff
      split: option.splits if_splits prod.splits)

lemma trigger_fold_windows:
  "distinct ws \<Longrightarrow> fold (trigger_window emit confirmed) ws (m, s, es) = (m', s', es') \<Longrightarrow>
   wn_windows m' = (\<lambda>w. if w \<in> set ws then map_option (close_if_ended confirmed w) (wn_windows m w) else wn_windows m w) \<and>
   wn_size m' = wn_size m"
proof (induction ws arbitrary: m s es)
  case (Cons w ws)
  obtain m1 s1 es1 where one: "trigger_window emit confirmed w (m, s, es) = (m1, s1, es1)"
    by (metis prod_cases3)
  have "distinct ws" "w \<notin> set ws" using Cons.prems(1) by simp_all
  with Cons.IH [of m1 s1 es1] Cons.prems(2) one trigger_window_windows [OF one] show ?case
    by (auto simp: fun_eq_iff)
qed simp

lemma maybe_trigger_windows:
  assumes "enum_of order (wn_windows m)" and "maybe_trigger emit order tracker (m, s) = (es, m', s')"
  shows "wn_windows m' w = map_option (close_if_ended (t_confirmed tracker) w) (wn_windows m w)"
    and "wn_size m' = wn_size m"
proof -
  obtain m1 s1 es1 where loop: "fold (trigger_window emit (t_confirmed tracker)) order (m, s, []) = (m1, s1, es1)"
    by (metis prod_cases3)
  then have "m' = m1" using assms(2) by (simp add: maybe_trigger_def confirmed_of_def)
  then show "wn_windows m' w = map_option (close_if_ended (t_confirmed tracker) w) (wn_windows m w)"
      and "wn_size m' = wn_size m"
    using trigger_fold_windows [OF _ loop] assms(1) by (auto simp: enum_of_def domIff)
qed

section \<open>The catalog\<close>

definition entry_shows :: "window_id \<Rightarrow> managed_window option \<Rightarrow> nat \<Rightarrow> nat \<Rightarrow> catalog_entry option \<Rightarrow> bool" where
  "entry_shows w mw events late entry \<longleftrightarrow>
     (case (mw, entry) of
        (None, None) \<Rightarrow> events = 0 \<and> late = 0
      | (Some mw, Some e) \<Rightarrow> ce_window e = window_string w \<and> ce_state e = window_state_string (mw_state mw) \<and>
          ce_events e = of_nat events \<and> ce_late e = of_nat late
      | _ \<Rightarrow> False)"

definition catalog_shows :: "int64 \<Rightarrow> (event \<times> ingest_outcome) list \<Rightarrow> window_manager \<Rightarrow> bool" where
  "catalog_shows sz hist m \<longleftrightarrow> wn_size m = sz \<and>
     (\<forall>w. (\<forall>mw. wn_windows m w = Some mw \<longrightarrow> mw_state mw = WindowOpen \<or> mw_state mw = WindowClosed) \<and>
        entry_shows w (wn_windows m w) (length (taken sz w OutcomeAccepted hist))
          (length (taken sz w OutcomeLate hist)) (ca_entries (wn_catalog m) w))"

lemmas catalog_defs = catalog_edit_def catalog_open_def record_event_def record_late_def
  catalog_close_def fresh_entry_def Let_def

lemma catalog_shows_at:
  "catalog_shows sz hist m \<Longrightarrow> entry_shows w (wn_windows m w) (length (taken sz w OutcomeAccepted hist))
     (length (taken sz w OutcomeLate hist)) (ca_entries (wn_catalog m) w)"
  by (simp add: catalog_shows_def)

lemma catalog_shows_update:
  assumes "catalog_shows sz hist m" "wn_size m' = wn_size m" "wn_windows m' = (wn_windows m)(w0 \<mapsto> mw)"
    and "ca_entries (wn_catalog m') = (ca_entries (wn_catalog m))(w0 \<mapsto> e)"
    and "\<And>w x. w \<noteq> w0 \<Longrightarrow> taken sz w x hist' = taken sz w x hist"
    and "mw_state mw = WindowOpen \<or> mw_state mw = WindowClosed"
    and "entry_shows w0 (Some mw) (length (taken sz w0 OutcomeAccepted hist'))
      (length (taken sz w0 OutcomeLate hist')) (Some e)"
  shows "catalog_shows sz hist' m'"
proof -
  have "(\<forall>mw. wn_windows m' w = Some mw \<longrightarrow> mw_state mw = WindowOpen \<or> mw_state mw = WindowClosed) \<and>
      entry_shows w (wn_windows m' w) (length (taken sz w OutcomeAccepted hist'))
        (length (taken sz w OutcomeLate hist')) (ca_entries (wn_catalog m') w)" for w
  proof (cases "w = w0")
    case False
    then show ?thesis using assms(1) by (simp add: assms(3,4,5) catalog_shows_def)
  qed (use assms(3,4,6,7) in simp)
  moreover have "wn_size m' = sz" using assms(1,2) by (simp add: catalog_shows_def)
  ultimately show ?thesis by (simp add: catalog_shows_def)
qed

lemma ingest_catalog:
  assumes inv: "catalog_shows sz hist m" and step: "ingest late ev (m, s) = Inr (out, m', s')"
  shows "catalog_shows sz (hist @ [(ev, out)]) m'"
proof -
  have sz: "wn_size m = sz" using inv by (simp add: catalog_shows_def)
  obtain w where w: "window_for sz (ev_timestamp ev) = Inr w"
    using step sz by (auto simp: ingest_def elim!: go_bind_InrE)
  have same: "taken sz x y (hist @ [(ev, out)]) = taken sz x y hist" if "x \<noteq> w" for x y
    using that w by (auto simp: taken_snoc)
  note at = catalog_shows_at [OF inv, of w]
  show ?thesis
  proof (cases "wn_windows m w")
    case None
    with at have none: "ca_entries (wn_catalog m) w = None" by (auto simp: entry_shows_def split: option.splits)
    have "out = OutcomeAccepted" and sz': "wn_size m' = wn_size m"
        and ws': "wn_windows m' = (wn_windows m)(w \<mapsto> \<lparr>mw_state = WindowOpen, mw_values = [ev_value ev]\<rparr>)"
        and es': "ca_entries (wn_catalog m') = (ca_entries (wn_catalog m))
          (w \<mapsto> (fresh_entry w WindowOpen (ev_timestamp ev))\<lparr>ce_events := 1\<rparr>)"
      using step sz w None none by (auto simp: ingest_def catalog_defs)
    with at None none show ?thesis
      by (intro catalog_shows_update [OF inv sz' ws' es' same])
         (simp_all add: entry_shows_def taken_snoc w fresh_entry_def)
  next
    case (Some mw)
    with at obtain e where e: "ca_entries (wn_catalog m) w = Some e"
      by (auto simp: entry_shows_def split: option.splits)
    have st: "mw_state mw = WindowOpen \<or> mw_state mw = WindowClosed"
      using inv Some by (simp add: catalog_shows_def)
    show ?thesis
    proof (cases "mw_state mw = WindowClosed")
      case True
      have "out = OutcomeLate" and sz': "wn_size m' = wn_size m"
          and ws': "wn_windows m' = (wn_windows m)(w \<mapsto> mw)"
          and es': "ca_entries (wn_catalog m') = (ca_entries (wn_catalog m))(w \<mapsto> e\<lparr>ce_late := ce_late e + 1\<rparr>)"
        using step sz w Some e True by (auto simp: ingest_def catalog_defs fun_upd_idem)
      with at Some e st show ?thesis
        by (intro catalog_shows_update [OF inv sz' ws' es' same])
           (simp_all add: entry_shows_def taken_snoc w)
    next
      case False
      have "out = OutcomeAccepted" and sz': "wn_size m' = wn_size m"
          and ws': "wn_windows m' = (wn_windows m)(w \<mapsto> mw\<lparr>mw_values := mw_values mw @ [ev_value ev]\<rparr>)"
          and es': "ca_entries (wn_catalog m') = (ca_entries (wn_catalog m))(w \<mapsto> e\<lparr>ce_events := ce_events e + 1\<rparr>)"
        using step sz w Some e False by (auto simp: ingest_def catalog_defs)
      with at Some e st show ?thesis
        by (intro catalog_shows_update [OF inv sz' ws' es' same])
           (simp_all add: entry_shows_def taken_snoc w)
    qed
  qed
qed

lemma trigger_window_catalog:
  assumes inv: "catalog_shows sz hist m" and step: "trigger_window emit confirmed w (m, s, es) = (m', s', es')"
  shows "catalog_shows sz hist m'"
proof (cases "wn_windows m w")
  case None
  then show ?thesis using inv step by (simp add: trigger_window_def)
next
  case (Some mw)
  with inv obtain e where e: "ca_entries (wn_catalog m) w = Some e"
    by (force simp: catalog_shows_def entry_shows_def split: option.splits)
  show ?thesis
  proof (cases "closes confirmed w mw")
    case False
    then show ?thesis
      using inv step Some by (auto simp: trigger_window_def closes_def word_sless_alt)
  next
    case True
    then have m': "wn_size m' = wn_size m" "wn_windows m' = (wn_windows m)(w \<mapsto> mw\<lparr>mw_state := WindowClosed\<rparr>)"
        "wn_catalog m' = catalog_close w confirmed (wn_catalog m)"
      using step Some by (auto simp: trigger_window_def closes_def word_sless_alt Let_def split: prod.splits)
    then have es': "ca_entries (wn_catalog m') = (ca_entries (wn_catalog m))
        (w \<mapsto> e\<lparr>ce_state := window_state_string WindowClosed, ce_closed_at := confirmed\<rparr>)"
      using e by (simp add: catalog_defs)
    show ?thesis
      using catalog_shows_at [OF inv, of w] Some e
      by (intro catalog_shows_update [OF inv m'(1,2) es']) (simp_all add: entry_shows_def)
  qed
qed

lemma trigger_fold_catalog:
  "catalog_shows sz hist m \<Longrightarrow> fold (trigger_window emit confirmed) ws (m, s, es) = (m', s', es') \<Longrightarrow>
   catalog_shows sz hist m'"
proof (induction ws arbitrary: m s es)
  case (Cons w ws)
  obtain m1 s1 es1 where one: "trigger_window emit confirmed w (m, s, es) = (m1, s1, es1)"
    by (metis prod_cases3)
  show ?case using Cons.IH [OF trigger_window_catalog [OF Cons.prems(1) one]] Cons.prems(2) one by simp
qed simp

lemma maybe_trigger_catalog:
  assumes "catalog_shows sz hist m" and "maybe_trigger emit order tracker (m, s) = (es, m', s')"
  shows "catalog_shows sz hist m'"
proof -
  obtain m1 s1 es1 where loop: "fold (trigger_window emit (confirmed_of tracker)) order (m, s, []) = (m1, s1, es1)"
    by (metis prod_cases3)
  then show ?thesis
    using trigger_fold_catalog [OF assms(1) loop] assms(2) by (simp add: maybe_trigger_def)
qed

lemma win_run_catalog:
  "win_run emit late start hist rs ms \<Longrightarrow> catalog_shows sz [] (fst start) \<Longrightarrow> catalog_shows sz hist (fst ms)"
proof (induction rule: win_run.induct)
  case (ingest hist rs ms ev out ms')
  obtain m s m' s' where "ms = (m, s)" "ms' = (m', s')" by (cases ms, cases ms')
  with ingest show ?case using ingest_catalog [of sz hist m late ev s out m' s'] by simp
next
  case (trigger hist rs ms order tracker es ms')
  obtain m s m' s' where "ms = (m, s)" "ms' = (m', s')" by (cases ms, cases ms')
  with trigger show ?case using maybe_trigger_catalog [of sz hist m emit order tracker s es m' s'] by simp
qed

lemma catalog_shows_new: "catalog_shows sz [] (new_window_manager sz)"
  by (simp add: catalog_shows_def entry_shows_def new_window_manager_def new_catalog_def)

section \<open>The iteration order does not show\<close>

text \<open>The whole loop in closed form: each window of the list is closed on its own, against the state
  before the loop.\<close>

text \<open>The windows known before are known after, in the same state or a later one.\<close>

definition moves_forward :: "window_manager \<Rightarrow> window_manager \<Rightarrow> bool" where
  "moves_forward m m' \<longleftrightarrow> (\<forall>w mw. wn_windows m w = Some mw \<longrightarrow>
     (\<exists>mw'. wn_windows m' w = Some mw' \<and> mw_state mw \<le> mw_state mw' \<and> prefix (mw_values mw) (mw_values mw')))"

lemma moves_forward_refl: "moves_forward m m"
  by (simp add: moves_forward_def)

lemma moves_forward_trans: "moves_forward m1 m2 \<Longrightarrow> moves_forward m2 m3 \<Longrightarrow> moves_forward m1 m3"
  unfolding moves_forward_def by (meson order_trans prefix_order.order_trans)

lemma ingest_forward:
  assumes "ingest late ev (m, s) = Inr (out, m', s')"
  shows "moves_forward m m'"
  using assms
  by (auto simp: ingest_def Let_def moves_forward_def elim!: go_bind_InrE split: option.splits if_splits)

lemma maybe_trigger_forward:
  assumes "enum_of order (wn_windows m)" and "maybe_trigger emit order tracker (m, s) = (es, m', s')"
  shows "moves_forward m m'"
  by (auto simp: moves_forward_def maybe_trigger_windows(1) [OF assms] close_if_ended_def)

lemma win_run_forward: "win_run emit late ms hist rs ms' \<Longrightarrow> moves_forward (fst ms) (fst ms')"
proof (induction rule: win_run.induct)
  case start
  show ?case by (rule moves_forward_refl)
next
  case (ingest hist rs ms ev out ms')
  have "moves_forward (fst ms) (fst ms')"
    using ingest_forward [of late ev "fst ms" "snd ms" out "fst ms'" "snd ms'"] ingest.hyps(2) by simp
  with ingest.IH show ?case by (rule moves_forward_trans)
next
  case (trigger hist rs ms order tracker es ms')
  have "moves_forward (fst ms) (fst ms')"
    using maybe_trigger_forward [OF trigger.hyps(2), of emit tracker "snd ms" es "fst ms'" "snd ms'"] trigger.hyps(3)
    by simp
  with trigger.IH show ?case by (rule moves_forward_trans)
qed

definition closing :: "int64 \<Rightarrow> window_manager \<Rightarrow> window_id \<Rightarrow> bool" where
  "closing confirmed m w \<longleftrightarrow> (case wn_windows m w of None \<Rightarrow> False | Some mw \<Rightarrow> closes confirmed w mw)"

definition held_values :: "window_manager \<Rightarrow> window_id \<Rightarrow> int64 list" where
  "held_values m w = (case wn_windows m w of None \<Rightarrow> [] | Some mw \<Rightarrow> mw_values mw)"

definition closed_manager :: "int64 \<Rightarrow> window_id set \<Rightarrow> window_manager \<Rightarrow> window_manager" where
  "closed_manager confirmed W m = m\<lparr>
     wn_windows := (\<lambda>w. if w \<in> W then map_option (close_if_ended confirmed w) (wn_windows m w) else wn_windows m w),
     wn_catalog := (wn_catalog m)\<lparr>ca_entries := (\<lambda>w. if w \<in> W \<and> closing confirmed m w
       then ca_entries (catalog_close w confirmed (wn_catalog m)) w else ca_entries (wn_catalog m) w)\<rparr>\<rparr>"

definition closed_store :: "int64 \<Rightarrow> window_id set \<Rightarrow> window_manager \<Rightarrow> agg_store \<Rightarrow> agg_store" where
  "closed_store confirmed W m s = s\<lparr>a_results := (\<lambda>w. if w \<in> W \<and> closing confirmed m w
     then a_results (snd (emit_result w (held_values m w) s)) w else a_results s w)\<rparr>"

definition closed_result :: "int64 \<Rightarrow> window_manager \<Rightarrow> agg_store \<Rightarrow> window_id \<Rightarrow> window_result list" where
  "closed_result confirmed m s w = (if closing confirmed m w
     then (case fst (emit_result w (held_values m w) s) of None \<Rightarrow> [] | Some r \<Rightarrow> [r]) else [])"

lemma emit_result_local:
  assumes "a_results s' w = a_results s w"
  shows "fst (emit_result w vs s') = fst (emit_result w vs s)"
    and "a_results (snd (emit_result w vs s')) w = a_results (snd (emit_result w vs s)) w"
  using assms by (simp_all add: emit_result_def agg_entry_def Let_def)

lemma emit_result_elsewhere: "x \<noteq> w \<Longrightarrow> a_results (snd (emit_result w vs s)) x = a_results s x"
  by (simp add: emit_result_def Let_def)

lemma trigger_window_closed:
  "trigger_window emit_result confirmed w (m, s, es) =
     (closed_manager confirmed {w} m, closed_store confirmed {w} m s, es @ closed_result confirmed m s w)"
proof (cases "closing confirmed m w")
  case False
  have "closed_manager confirmed {w} m = m" "closed_store confirmed {w} m s = s"
    using False by (auto simp: closed_manager_def closed_store_def closing_def close_if_ended_def
        fun_eq_iff split: option.splits intro!: window_manager.equality agg_store.equality catalog.equality)
  with False show ?thesis
    by (auto simp: trigger_window_def closed_result_def closing_def closes_def word_sless_alt split: option.splits)
next
  case True
  then obtain mw where mw: "wn_windows m w = Some mw" "closes confirmed w mw"
    by (auto simp: closing_def split: option.splits)
  have store: "closed_store confirmed {w} m s = snd (emit_result w (held_values m w) s)"
    using True emit_result_elsewhere [of _ w "held_values m w" s]
    by (auto simp: closed_store_def fun_eq_iff intro!: agg_store.equality)
  have manager: "closed_manager confirmed {w} m = m\<lparr>wn_windows := (wn_windows m)(w \<mapsto> mw\<lparr>mw_state := WindowClosed\<rparr>),
      wn_catalog := catalog_close w confirmed (wn_catalog m)\<rparr>"
    using True mw by (auto simp: closed_manager_def close_if_ended_def catalog_defs fun_eq_iff
        intro!: window_manager.equality catalog.equality)
  show ?thesis
    using True mw unfolding store manager
    by (auto simp: trigger_window_def closes_def word_sless_alt closed_result_def held_values_def Let_def
        split: prod.splits option.splits)
qed

lemma closed_manager_compose:
  assumes "w \<notin> W"
  shows "closed_manager confirmed W (closed_manager confirmed {w} m) = closed_manager confirmed (insert w W) m"
    and "x \<noteq> w \<Longrightarrow> closing confirmed (closed_manager confirmed {w} m) x = closing confirmed m x"
    and "x \<noteq> w \<Longrightarrow> held_values (closed_manager confirmed {w} m) x = held_values m x"
  using assms
  by (auto simp: closed_manager_def closing_def held_values_def catalog_defs fun_eq_iff
      intro!: window_manager.equality catalog.equality)

lemma closed_store_compose:
  assumes "w \<notin> W"
  shows "closed_store confirmed W (closed_manager confirmed {w} m) (closed_store confirmed {w} m s) =
         closed_store confirmed (insert w W) m s"
proof (rule agg_store.equality)
  have away: "a_results (closed_store confirmed {w} m s) x = a_results s x" if "x \<noteq> w" for x
    using that by (simp add: closed_store_def)
  show "a_results (closed_store confirmed W (closed_manager confirmed {w} m) (closed_store confirmed {w} m s)) =
      a_results (closed_store confirmed (insert w W) m s)"
  proof
    fix x
    show "a_results (closed_store confirmed W (closed_manager confirmed {w} m) (closed_store confirmed {w} m s)) x =
        a_results (closed_store confirmed (insert w W) m s) x"
    proof (cases "x = w")
      case True
      then show ?thesis using assms by (simp add: closed_store_def)
    next
      case False
      show ?thesis
        using False closed_manager_compose(2,3) [OF assms False, of confirmed m]
          emit_result_local(2) [OF away [OF False], of "held_values m x"] away [OF False]
        by (simp add: closed_store_def [of confirmed W] closed_store_def [of confirmed "insert w W"])
    qed
  qed
qed simp

lemma trigger_fold_closed:
  "distinct ws \<Longrightarrow> fold (trigger_window emit_result confirmed) ws (m, s, es) =
     (closed_manager confirmed (set ws) m, closed_store confirmed (set ws) m s,
      es @ concat (map (closed_result confirmed m s) ws))"
proof (induction ws arbitrary: m s es)
  case Nil
  then show ?case by (simp add: closed_manager_def closed_store_def)
next
  case (Cons w ws)
  have w: "w \<notin> set ws" and d: "distinct ws" using Cons.prems by simp_all
  have "closed_result confirmed (closed_manager confirmed {w} m) (closed_store confirmed {w} m s) x =
      closed_result confirmed m s x" if "x \<in> set ws" for x
  proof -
    have "x \<noteq> w" using that w by auto
    then show ?thesis
      using closed_manager_compose(2,3) [OF w, of x confirmed m]
        emit_result_local(1) [of "closed_store confirmed {w} m s" x s "held_values m x"]
      by (simp add: closed_result_def closed_store_def)
  qed
  then have results: "map (closed_result confirmed (closed_manager confirmed {w} m) (closed_store confirmed {w} m s)) ws =
      map (closed_result confirmed m s) ws" by simp
  show ?case
    by (simp only: fold_simps trigger_window_closed Cons.IH [OF d] closed_manager_compose(1) [OF w]
        closed_store_compose [OF w] results) simp
qed

text \<open>All windows of a manager are windows of some timestamp, so their starts tell them apart.\<close>

definition aligned :: "window_manager \<Rightarrow> bool" where
  "aligned m \<longleftrightarrow> (\<forall>w \<in> dom (wn_windows m). \<exists>ts. window_for (wn_size m) ts = Inr w)"

lemma ingest_aligned:
  assumes "ingest late ev (m, s) = Inr (out, m', s')" "aligned m"
  shows "aligned m'"
proof -
  obtain w where w: "window_for (wn_size m) (ev_timestamp ev) = Inr w"
    using assms(1) by (auto simp: ingest_def elim!: go_bind_InrE)
  then have "wn_size m' = wn_size m \<and> dom (wn_windows m') \<subseteq> insert w (dom (wn_windows m))"
    using assms(1) by (auto simp: ingest_def Let_def split: option.splits if_splits)
  then show ?thesis using assms(2) w unfolding aligned_def by (metis insert_iff subsetD)
qed

lemma win_run_aligned: "win_run emit late start hist rs ms \<Longrightarrow> aligned (fst start) \<Longrightarrow> aligned (fst ms)"
proof (induction rule: win_run.induct)
  case (ingest hist rs ms ev out ms')
  obtain m s m' s' where "ms = (m, s)" "ms' = (m', s')" by (cases ms, cases ms')
  with ingest show ?case using ingest_aligned [of late ev m s out m' s'] by simp
next
  case (trigger hist rs ms order tracker es ms')
  obtain m s m' s' where eq: "ms = (m, s)" "ms' = (m', s')" by (cases ms, cases ms')
  have ord: "enum_of order (wn_windows m)" and mt: "maybe_trigger emit order tracker (m, s) = (es, m', s')"
    using trigger.hyps eq by simp_all
  have "dom (wn_windows m') = dom (wn_windows m)"
    by (rule set_eqI) (simp add: domIff maybe_trigger_windows(1) [OF ord mt])
  then show ?case using trigger eq maybe_trigger_windows(2) [OF ord mt] by (simp add: aligned_def)
qed

lemma aligned_start_inj:
  assumes "aligned m" "w \<in> dom (wn_windows m)" "w' \<in> dom (wn_windows m)" "w_start w = w_start w'"
  shows "w = w'"
proof -
  have "w_end w = w_start w + wn_size m \<and> w_key w = []" if in_dom: "w \<in> dom (wn_windows m)" for w
  proof -
    obtain ts where "window_for (wn_size m) ts = Inr w" using assms(1) in_dom by (auto simp: aligned_def)
    then show ?thesis by (auto simp: window_for_eq Let_def split: if_splits)
  qed
  from this [OF assms(2)] this [OF assms(3)] assms(4) show ?thesis by (simp add: window_id.equality)
qed

lemma sort_slice_perm:
  assumes "mset xs = mset ys" "distinct (map key xs)"
  shows "sort_slice key xs = sort_slice key ys"
proof (rule sort_slice_unique)
  show "mset (sort_slice key xs) = mset ys" using assms(1) by simp
  show "distinct (map key ys)"
    using assms by (metis distinct_map mset_eq_imp_distinct_iff mset_eq_setD)
qed simp

lemma agg_run_shows:
  assumes "win_run emit_result agg_late_update (new_window_manager sz, new_agg_store) hist rs (m, s)"
  shows "win_shows published untouched sz hist rs (m, s)"
  using ag.win_run_shows [OF assms win_shows_new] .

text \<open>In a reachable state a trigger publishes, for every window it closes, the fold of its values.\<close>

lemma agg_run_results:
  assumes run: "win_run emit_result agg_late_update (new_window_manager sz, new_agg_store) hist rs (m, s)"
  shows "concat (map (closed_result confirmed m s) ws) =
         map (\<lambda>w. window_outcome w (held_values m w)) (filter (closing confirmed m) ws)"
proof (induction ws)
  case (Cons w ws)
  have "closed_result confirmed m s w = [window_outcome w (held_values m w)]" if cl: "closing confirmed m w"
  proof -
    obtain mw where mw: "wn_windows m w = Some mw" "closes confirmed w mw"
      using cl by (auto simp: closing_def split: option.splits)
    note inv = agg_run_shows [OF run]
    have "w_key w = []" using inv mw(1) by (simp add: win_shows_def)
    from win_shows_at [OF inv this] mw have "w \<in> untouched s"
      by (auto simp: window_shows_def closes_def can_close_def split: if_splits)
    then show ?thesis using cl ag.emit_value by (simp add: closed_result_def)
  qed
  moreover have "closed_result confirmed m s w = []" if "\<not> closing confirmed m w"
    using that by (simp add: closed_result_def)
  ultimately show ?case using Cons.IH by simp
qed simp

section \<open>Properties\<close>

text \<open>C4: every window is published at most once, and with exactly what it took: over any run of
  ingests and triggers, in any order of events, watermarks and map iterations, an open window holds
  the values it accepted and nothing of it was published; a closed one was returned by exactly one
  trigger, with the fold of the values it accepted, which is what the store still holds, whatever
  arrived late since.\<close>

theorem windows_publish_exactly_once:
  assumes "win_run emit_result agg_late_update (new_window_manager sz, new_agg_store) hist rs (m, s)"
    and "w_key w = ''''"
  shows "case wn_windows m w of
     None \<Rightarrow> taken sz w OutcomeAccepted hist = [] \<and> results_of w rs = [] \<and> published s w = None
   | Some mw \<Rightarrow> mw_values mw = taken sz w OutcomeAccepted hist \<and>
       (if mw_state mw = WindowClosed
        then results_of w rs = [window_outcome w (taken sz w OutcomeAccepted hist)] \<and>
             published s w = Some (window_outcome w (taken sz w OutcomeAccepted hist))
        else mw_state mw = WindowOpen \<and> results_of w rs = [] \<and> published s w = None)"
proof -
  note at = win_shows_at [OF agg_run_shows [OF assms(1)] assms(2)]
  then show ?thesis
    using ag.untouched_unpublished [of w s] by (simp add: window_shows_def split: option.splits)
qed

text \<open>C5: a trigger closes exactly the open windows whose end is at or below the confirmed watermark:
  none is closed early, none is left open, values are kept, and closed windows stay closed.\<close>

theorem trigger_closes_exactly_ended:
  assumes "win_run emit late (new_window_manager sz, s0) hist rs (m, s)"
    and "enum_of order (wn_windows m)" and "maybe_trigger emit order tracker (m, s) = (es, m', s')"
  shows "case wn_windows m w of
     None \<Rightarrow> wn_windows m' w = None
   | Some mw \<Rightarrow> \<exists>mw'. wn_windows m' w = Some mw' \<and> mw_values mw' = mw_values mw \<and>
       (mw_state mw' = WindowClosed \<longleftrightarrow>
          mw_state mw = WindowClosed \<or> sint (w_end w) \<le> sint (t_confirmed tracker)) \<and>
       (mw_state mw' \<noteq> WindowClosed \<longrightarrow> mw_state mw' = WindowOpen)"
proof (cases "wn_windows m w")
  case (Some mw)
  have "catalog_shows sz hist m"
    using win_run_catalog [OF assms(1), of sz] catalog_shows_new by simp
  then have "mw_state mw = WindowOpen \<or> mw_state mw = WindowClosed"
    using Some by (simp add: catalog_shows_def)
  then show ?thesis
    using Some maybe_trigger_windows(1) [OF assms(2,3), of w]
    by (auto simp: close_if_ended_def closes_def can_close_def)
qed (simp add: maybe_trigger_windows(1) [OF assms(2,3)])

text \<open>C30: Go's random map iteration does not show: in every reachable state, the results a trigger
  returns, the windows, the catalog and the store after it are the same for every iteration
  order.\<close>

theorem trigger_order_irrelevant:
  assumes "win_run emit_result agg_late_update (new_window_manager sz, new_agg_store) hist rs (m, s)"
    and "enum_of order (wn_windows m)" and "enum_of order' (wn_windows m)"
  shows "maybe_trigger emit_result order tracker (m, s) = maybe_trigger emit_result order' tracker (m, s)"
proof -
  let ?c = "t_confirmed tracker" and ?out = "\<lambda>w. window_outcome w (held_values m w)"
  let ?key = "\<lambda>r. sint (w_start (r_window r))"
  have al: "aligned m"
    using win_run_aligned [OF assms(1)] by (simp add: aligned_def new_window_manager_def)
  have d: "distinct order" "distinct order'" and same: "set order = set order'"
    and dom: "set order = dom (wn_windows m)"
    using assms(2,3) by (simp_all add: enum_of_def)
  have "inj_on (?key \<circ> ?out) (dom (wn_windows m))"
    by (rule inj_onI) (simp add: sint_inject64 aligned_start_inj [OF al])
  then have "distinct (map ?key (map ?out (filter (closing ?c m) order)))"
    using d(1) dom by (simp add: distinct_map inj_on_def)
  moreover have "mset order = mset order'" using d same by (simp add: set_eq_iff_mset_eq_distinct)
  ultimately have "sort_slice ?key (map ?out (filter (closing ?c m) order)) =
      sort_slice ?key (map ?out (filter (closing ?c m) order'))"
    by (intro sort_slice_perm) simp_all
  then show ?thesis
    by (simp add: maybe_trigger_def confirmed_of_def trigger_fold_closed d same agg_run_results [OF assms(1)])
qed


text \<open>C37: the catalog mirrors the windows: it lists exactly the known ones, each in its state, with
  the number of events it accepted and the number that came late.\<close>

theorem catalog_mirrors_windows:
  assumes "win_run emit late (new_window_manager sz, s0) hist rs (m, s)"
  shows "case ca_entries (wn_catalog m) w of
     None \<Rightarrow> wn_windows m w = None
   | Some e \<Rightarrow> \<exists>mw. wn_windows m w = Some mw \<and> ce_state e = window_state_string (mw_state mw) \<and>
       ce_events e = of_nat (length (taken sz w OutcomeAccepted hist)) \<and>
       ce_late e = of_nat (length (taken sz w OutcomeLate hist)) \<and> ce_window e = window_string w"
proof -
  have "catalog_shows sz hist m"
    using win_run_catalog [OF assms(1), of sz] catalog_shows_new by simp
  from catalog_shows_at [OF this, of w] show ?thesis
    by (auto simp: entry_shows_def split: option.splits)
qed

text \<open>C6: the states of a window only move forward along open, triggering, closing and closed, the
  values it holds are only extended at the end, and no window is ever forgotten.\<close>

theorem windows_only_move_forward:
  assumes "win_run emit late (m, s) hist rs (m', s')" and "wn_windows m w = Some mw"
  shows "\<exists>mw'. wn_windows m' w = Some mw' \<and> mw_state mw \<le> mw_state mw' \<and> prefix (mw_values mw) (mw_values mw')"
  using win_run_forward [OF assms(1)] assms(2) by (auto simp: moves_forward_def)

section \<open>Witnesses\<close>

text \<open>Two windows of size ten, \<open>[0,10)\<close> and \<open>[10,20)\<close>, with one event each.\<close>

definition demo_window :: "int64 \<Rightarrow> window_id" where
  "demo_window start = \<lparr>w_start = start, w_end = start + 10, w_key = ''''\<rparr>"

definition demo_manager :: window_manager where
  "demo_manager = \<lparr>wn_size = 10,
     wn_windows = [demo_window 0 \<mapsto> \<lparr>mw_state = WindowOpen, mw_values = [5]\<rparr>,
                   demo_window 10 \<mapsto> \<lparr>mw_state = WindowOpen, mw_values = [7]\<rparr>],
     wn_catalog = record_event (demo_window 10) 13 (catalog_open (demo_window 10) 13
       (record_event (demo_window 0) 3 (catalog_open (demo_window 0) 3 new_catalog))),
     wn_kind = WindowTumbling\<rparr>"

definition demo_history :: "(event \<times> ingest_outcome) list" where
  "demo_history = [(new_data ''a'' 5 3 1, OutcomeAccepted), (new_data ''b'' 7 13 2, OutcomeAccepted)]"

lemma demo_window_for:
  "window_for 10 3 = Inr (demo_window 0)" "window_for 10 13 = Inr (demo_window 10)"
  by code_simp+

lemma demo_windows_distinct [simp]: "demo_window 0 \<noteq> demo_window 10" "demo_window 10 \<noteq> demo_window 0"
  by (simp_all add: demo_window_def)

lemma demo_run: "win_run emit late (new_window_manager 10, s) demo_history [] (demo_manager, s)"
proof -
  let ?m = "\<lparr>wn_size = 10, wn_windows = [demo_window 0 \<mapsto> \<lparr>mw_state = WindowOpen, mw_values = [5]\<rparr>],
     wn_catalog = record_event (demo_window 0) 3 (catalog_open (demo_window 0) 3 new_catalog),
     wn_kind = WindowTumbling\<rparr>"
  have one: "ingest late (new_data ''a'' 5 3 1) (new_window_manager 10, s) = Inr (OutcomeAccepted, ?m, s)"
    by (simp add: ingest_def new_window_manager_def demo_window_for Let_def)
  have two: "ingest late (new_data ''b'' 7 13 2) (?m, s) = Inr (OutcomeAccepted, demo_manager, s)"
    by (simp add: ingest_def demo_window_for demo_manager_def Let_def)
  show ?thesis
    using win_run.ingest [OF win_run.ingest [OF win_run.start one] two]
    by (simp add: demo_history_def)
qed

lemma demo_order: "enum_of [demo_window 0, demo_window 10] (wn_windows demo_manager)"
    "enum_of [demo_window 10, demo_window 0] (wn_windows demo_manager)"
  by (auto simp: enum_of_def demo_manager_def)

lemma demo_taken: "taken 10 (demo_window 0) OutcomeAccepted demo_history = [5]"
    "taken 10 (demo_window 0) OutcomeLate demo_history = []"
  using demo_windows_distinct by (simp_all add: taken_def demo_history_def demo_window_for)

text \<open>A trigger at watermark ten closes the first window only.\<close>

definition demo_trigger :: "window_result list \<times> window_manager \<times> agg_store \<Rightarrow> bool" where
  "demo_trigger st \<longleftrightarrow>
     maybe_trigger emit_result [demo_window 0, demo_window 10] (new_tracker 10) (demo_manager, new_agg_store) = st"

lemma demo_triggers: "\<exists>es m s. demo_trigger (es, m, s)"
  unfolding demo_trigger_def by (metis prod_cases3)

lemma demo_trigger_run:
  assumes "demo_trigger (es, m, s)"
  shows "win_run emit_result agg_late_update (new_window_manager 10, new_agg_store) demo_history es (m, s)"
proof -
  have "enum_of [demo_window 0, demo_window 10] (wn_windows (fst (demo_manager, new_agg_store)))"
    using demo_order by simp
  from win_run.trigger [OF demo_run this] assms show ?thesis by (simp add: demo_trigger_def)
qed

lemma demo_trigger_window:
  assumes "demo_trigger (es, m, s)"
  shows "wn_windows m (demo_window 0) = Some \<lparr>mw_state = WindowClosed, mw_values = [5]\<rparr>"
  using maybe_trigger_windows(1) [OF demo_order(1) assms [unfolded demo_trigger_def], of "demo_window 0"]
  by (simp add: demo_manager_def close_if_ended_def closes_def can_close_def demo_window_def new_tracker_def)

theorem windows_publish_exactly_once_witness:
  "\<exists>es m s. demo_trigger (es, m, s) \<and>
     published s (demo_window 0) = Some (window_outcome (demo_window 0) [5])"
proof -
  obtain es m s where d: "demo_trigger (es, m, s)" using demo_triggers by blast
  have "published s (demo_window 0) = Some (window_outcome (demo_window 0) [5])"
    using windows_publish_exactly_once [OF demo_trigger_run [OF d], of "demo_window 0"]
      demo_trigger_window [OF d] by (simp add: demo_window_def demo_taken [unfolded demo_window_def])
  with d show ?thesis by blast
qed

theorem trigger_closes_exactly_ended_witness:
  "\<exists>es m s mw. demo_trigger (es, m, s) \<and> wn_windows m (demo_window 10) = Some mw \<and> mw_state mw = WindowOpen"
proof -
  obtain es m s where d: "demo_trigger (es, m, s)" using demo_triggers by blast
  show ?thesis
    using trigger_closes_exactly_ended [OF demo_run demo_order(1) d [unfolded demo_trigger_def], of "demo_window 10"] d
    by (auto simp: demo_manager_def new_tracker_def demo_window_def)
qed

theorem trigger_order_irrelevant_witness:
  "maybe_trigger emit_result [demo_window 0, demo_window 10] (new_tracker 20) (demo_manager, new_agg_store) =
   maybe_trigger emit_result [demo_window 10, demo_window 0] (new_tracker 20) (demo_manager, new_agg_store)"
  by (rule trigger_order_irrelevant [OF demo_run demo_order])


theorem catalog_mirrors_windows_witness:
  "\<exists>e. ca_entries (wn_catalog demo_manager) (demo_window 0) = Some e \<and> ce_events e = 1"
proof -
  have "ca_entries (wn_catalog demo_manager) (demo_window 0) \<noteq> None"
    by (simp add: demo_manager_def catalog_defs)
  then show ?thesis
    using catalog_mirrors_windows [OF demo_run [of emit_result agg_late_update new_agg_store], of "demo_window 0"]
    by (auto simp: demo_taken)
qed

theorem windows_only_move_forward_witness:
  "\<exists>es m s mw. demo_trigger (es, m, s) \<and> wn_windows m (demo_window 0) = Some mw \<and> prefix [5] (mw_values mw)"
proof -
  obtain es m s where d: "demo_trigger (es, m, s)" using demo_triggers by blast
  have "enum_of [demo_window 0, demo_window 10] (wn_windows (fst (demo_manager, new_agg_store)))"
    using demo_order by simp
  then have "win_run emit_result agg_late_update (demo_manager, new_agg_store) [] ([] @ es) (m, s)"
    by (rule win_run.trigger [OF win_run.start]) (use d in \<open>simp add: demo_trigger_def\<close>)
  from windows_only_move_forward [OF this, of "demo_window 0"] show ?thesis
    using d by (auto simp: demo_manager_def)
qed

end
