(* ===== verification/Sessions.thy ===== *)
theory Sessions
  imports Agg_Store
begin

text \<open>
  \<^verbatim>\<open>internal/window/session.go\<close>: session windows keyed by routing key. Every
  touch slides the end, a scan closes the sessions that were silent for longer than the timeout and
  hands their values to the sink, which is an argument as in \<open>Windows\<close>.
\<close>

section \<open>Operations\<close>

record session_state =
  ss_window :: window_id
  ss_last :: int64
  ss_values :: "int64 list"
  ss_state :: window_state

record session_manager =
  se_timeout :: int64
  se_sessions :: "string \<rightharpoonup> session_state"

definition new_session_manager :: "int64 \<Rightarrow> session_manager" where
  "new_session_manager timeout = \<lparr>se_timeout = timeout, se_sessions = Map.empty\<rparr>"

definition touch :: "string \<Rightarrow> int64 \<Rightarrow> int64 \<Rightarrow> bool \<Rightarrow> session_manager \<Rightarrow> session_manager" where
  "touch key ts v has_value m =
     (let ss = (case se_sessions m key of
            None \<Rightarrow> \<lparr>ss_window = \<lparr>w_start = ts, w_end = ts + se_timeout m, w_key = key\<rparr>,
                     ss_last = ts, ss_values = [], ss_state = WindowOpen\<rparr>
          | Some ss \<Rightarrow>
              let ss = (if ts <s w_start (ss_window ss)
                        then ss\<lparr>ss_window := (ss_window ss)\<lparr>w_start := ts\<rparr>\<rparr> else ss);
                  ss = ss\<lparr>ss_last := ts\<rparr>
              in ss\<lparr>ss_window := (ss_window ss)\<lparr>w_end := ts + se_timeout m\<rparr>\<rparr>);
          ss = (if has_value then ss\<lparr>ss_values := ss_values ss @ [v]\<rparr> else ss)
      in m\<lparr>se_sessions := (se_sessions m)(key \<mapsto> ss)\<rparr>)"

definition scan_session :: "(window_id \<Rightarrow> int64 list \<Rightarrow> 's \<Rightarrow> window_result option \<times> 's) \<Rightarrow> int64 \<Rightarrow> string \<Rightarrow>
    session_manager \<times> 's \<times> window_result list \<Rightarrow> session_manager \<times> 's \<times> window_result list" where
  "scan_session emit now key st = (case st of (m, s, emitted) \<Rightarrow>
     (case se_sessions m key of
        None \<Rightarrow> (m, s, emitted)
      | Some ss \<Rightarrow>
          if ss_state ss = WindowClosed then (m, s, emitted)
          else if now - ss_last ss \<le>s se_timeout m then (m, s, emitted)
          else let ss = ss\<lparr>ss_state := WindowTriggering\<rparr>;
                   (result, s) = emit (ss_window ss) (ss_values ss) s;
                   emitted = (case result of Some r \<Rightarrow> emitted @ [r] | None \<Rightarrow> emitted);
                   ss = ss\<lparr>ss_state := WindowClosed\<rparr>
               in (m\<lparr>se_sessions := (se_sessions m)(key := None)\<rparr>, s, emitted)))"

definition scan_timeout :: "(window_id \<Rightarrow> int64 list \<Rightarrow> 's \<Rightarrow> window_result option \<times> 's) \<Rightarrow> string list \<Rightarrow>
    int64 \<Rightarrow> session_manager \<times> 's \<Rightarrow> window_result list \<times> session_manager \<times> 's" where
  "scan_timeout emit order now ms = (case ms of (m, s) \<Rightarrow>
     let (m, s, emitted) = fold (scan_session emit now) order (m, s, [])
     in (sort_slice (\<lambda>r. sint (w_start (r_window r))) emitted, m, s))"

definition is_active :: "string \<Rightarrow> session_manager \<Rightarrow> bool" where
  "is_active key m = (case se_sessions m key of None \<Rightarrow> False | Some ss \<Rightarrow> ss_state ss \<noteq> WindowClosed)"

definition session_count :: "session_manager \<Rightarrow> nat" where
  "session_count m = card (dom (se_sessions m))"

definition session_snapshot :: "string list \<Rightarrow> session_manager \<Rightarrow> (string \<rightharpoonup> string)" where
  "session_snapshot order m =
     range_fold (\<lambda>key ss out. out(key \<mapsto> window_string (ss_window ss))) order (se_sessions m) Map.empty"

section \<open>The invariant\<close>

text \<open>Every tracked session is open, filed under its key, and ends one timeout after its last
  activity.\<close>

definition session_ok :: "int64 \<Rightarrow> string \<Rightarrow> session_state \<Rightarrow> bool" where
  "session_ok timeout key ss \<longleftrightarrow> ss_state ss = WindowOpen \<and> w_key (ss_window ss) = key \<and>
     w_end (ss_window ss) = ss_last ss + timeout \<and> sint (w_start (ss_window ss)) \<le> sint (ss_last ss)"

definition sessions_ok :: "session_manager \<Rightarrow> bool" where
  "sessions_ok m \<longleftrightarrow> (\<forall>key ss. se_sessions m key = Some ss \<longrightarrow> session_ok (se_timeout m) key ss)"

lemma sessions_ok_new [inv_intro]: "sessions_ok (new_session_manager timeout)"
  by (simp add: sessions_ok_def new_session_manager_def)

lemma touch_timeout [frame]: "se_timeout (touch key ts v h m) = se_timeout m"
  by (simp add: touch_def Let_def)

lemma touch_elsewhere [frame]: "x \<noteq> key \<Longrightarrow> se_sessions (touch key ts v h m) x = se_sessions m x"
  by (simp add: touch_def Let_def)

lemma touch_session:
  "\<exists>ss. se_sessions (touch key ts v h m) key = Some ss \<and> ss_last ss = ts \<and>
     ss_values ss = (case se_sessions m key of None \<Rightarrow> [] | Some ss0 \<Rightarrow> ss_values ss0) @ (if h then [v] else []) \<and>
     (sessions_ok m \<longrightarrow> session_ok (se_timeout m) key ss)"
proof (cases "se_sessions m key")
  case None
  then show ?thesis by (simp add: touch_def Let_def session_ok_def)
next
  case (Some ss0)
  then have "sessions_ok m \<longrightarrow> session_ok (se_timeout m) key ss0" by (simp add: sessions_ok_def)
  with Some show ?thesis by (auto simp: touch_def Let_def session_ok_def word_sless_alt)
qed

lemma sessions_ok_touch [inv_intro]:
  assumes "sessions_ok m"
  shows "sessions_ok (touch key ts v h m)"
  unfolding sessions_ok_def
proof (intro allI impI)
  fix x ss assume "se_sessions (touch key ts v h m) x = Some ss"
  then show "session_ok (se_timeout (touch key ts v h m)) x ss"
    using assms touch_session [of key ts v h m] touch_elsewhere [of x key ts v h m]
    by (cases "x = key") (auto simp: touch_timeout sessions_ok_def)
qed

section \<open>Scans\<close>

definition expired :: "int64 \<Rightarrow> session_manager \<Rightarrow> string \<Rightarrow> bool" where
  "expired now m key \<longleftrightarrow> (case se_sessions m key of None \<Rightarrow> False
     | Some ss \<Rightarrow> ss_state ss \<noteq> WindowClosed \<and> sint (se_timeout m) < sint (now - ss_last ss))"

lemma scan_session_cases:
  "scan_session emit now key (m, s, es) =
     (if expired now m key
      then let ss = the (se_sessions m key); (result, s') = emit (ss_window ss) (ss_values ss) s
           in (m\<lparr>se_sessions := (se_sessions m)(key := None)\<rparr>, s',
               es @ (case result of Some r \<Rightarrow> [r] | None \<Rightarrow> []))
      else (m, s, es))"
  by (auto simp: scan_session_def expired_def Let_def word_sle_eq split: option.splits prod.splits)

lemma scan_session_sessions:
  assumes "scan_session emit now key (m, s, es) = (m', s', es')"
  shows "m' = m\<lparr>se_sessions := (\<lambda>x. if x = key \<and> expired now m x then None else se_sessions m x)\<rparr>"
  using assms
  by (auto simp: scan_session_cases Let_def fun_eq_iff split: prod.splits if_splits
      intro!: session_manager.equality)

lemma scan_fold_sessions:
  "distinct ks \<Longrightarrow> fold (scan_session emit now) ks (m, s, es) = (m', s', es') \<Longrightarrow>
   m' = m\<lparr>se_sessions := (\<lambda>x. if x \<in> set ks \<and> expired now m x then None else se_sessions m x)\<rparr>"
proof (induction ks arbitrary: m s es)
  case (Cons k ks)
  obtain m1 s1 es1 where one: "scan_session emit now k (m, s, es) = (m1, s1, es1)"
    by (metis prod_cases3)
  note m1 = scan_session_sessions [OF one]
  have k: "k \<notin> set ks" "distinct ks" using Cons.prems(1) by simp_all
  have "m' = m1\<lparr>se_sessions := (\<lambda>x. if x \<in> set ks \<and> expired now m1 x then None else se_sessions m1 x)\<rparr>"
    using Cons.IH [OF k(2), of m1 s1 es1] Cons.prems(2) one by simp
  moreover have "expired now m1 x = expired now m x" if "x \<noteq> k" for x
    using that by (cases "se_sessions m x") (simp_all add: m1 expired_def)
  ultimately show ?case
    using k by (auto simp: m1 fun_eq_iff intro!: session_manager.equality)
qed simp

lemma scan_timeout_sessions:
  assumes "enum_of order (se_sessions m)" and "scan_timeout emit order now (m, s) = (es, m', s')"
  shows "m' = m\<lparr>se_sessions := (\<lambda>x. if expired now m x then None else se_sessions m x)\<rparr>"
proof -
  obtain m1 s1 es1 where loop: "fold (scan_session emit now) order (m, s, []) = (m1, s1, es1)"
    by (metis prod_cases3)
  have d: "distinct order" "set order = dom (se_sessions m)" using assms(1) by (simp_all add: enum_of_def)
  have "x \<in> set order \<and> expired now m x \<longleftrightarrow> expired now m x" for x
    using d(2) by (auto simp: expired_def split: option.splits)
  then show ?thesis
    using scan_fold_sessions [OF d(1) loop] loop assms(2) by (simp add: scan_timeout_def)
qed

lemma sessions_ok_scan [inv_intro]:
  assumes "sessions_ok m" "enum_of order (se_sessions m)" "scan_timeout emit order now (m, s) = (es, m', s')"
  shows "sessions_ok m'"
  using assms(1) by (auto simp: scan_timeout_sessions [OF assms(2,3)] sessions_ok_def split: if_splits)

section \<open>Histories\<close>

text \<open>A run over any sink; it records the data values that were touched, with their keys.\<close>

inductive session_run :: "(window_id \<Rightarrow> int64 list \<Rightarrow> 's \<Rightarrow> window_result option \<times> 's) \<Rightarrow>
    session_manager \<times> 's \<Rightarrow> (string \<times> int64) list \<Rightarrow> session_manager \<times> 's \<Rightarrow> bool"
  for emit begins where
  session_begin: "session_run emit begins [] begins"
| session_touch: "session_run emit begins (data @ (if h then [(key, v)] else [])) (touch key ts v h m, s)"
    if "session_run emit begins data (m, s)"
| session_scan: "session_run emit begins data ms'"
    if "session_run emit begins data ms" and "enum_of order (se_sessions (fst ms))"
      and "scan_timeout emit order now ms = (es, ms')"

text \<open>A sink that only writes down what it is handed.\<close>

definition record_emit :: "window_id \<Rightarrow> int64 list \<Rightarrow> (window_id \<times> int64 list) list \<Rightarrow>
    window_result option \<times> (window_id \<times> int64 list) list" where
  "record_emit w vs handed = (None, handed @ [(w, vs)])"

definition key_values :: "string \<Rightarrow> (string \<times> int64) list \<Rightarrow> int64 list" where
  "key_values key data = map snd (filter (\<lambda>(k, _). k = key) data)"

definition handed_values :: "string \<Rightarrow> (window_id \<times> int64 list) list \<Rightarrow> int64 list" where
  "handed_values key handed = concat (map snd (filter (\<lambda>(w, _). w_key w = key) handed))"

definition open_values :: "string \<Rightarrow> session_manager \<Rightarrow> int64 list" where
  "open_values key m = (case se_sessions m key of None \<Rightarrow> [] | Some ss \<Rightarrow> ss_values ss)"

definition accounted :: "(string \<times> int64) list \<Rightarrow> session_manager \<times> (window_id \<times> int64 list) list \<Rightarrow> bool" where
  "accounted data ms \<longleftrightarrow> (case ms of (m, handed) \<Rightarrow>
     sessions_ok m \<and> (\<forall>key. key_values key data = handed_values key handed @ open_values key m))"

lemma accounted_touch:
  assumes "accounted data (m, handed)"
  shows "accounted (data @ (if h then [(key, v)] else [])) (touch key ts v h m, handed)"
proof -
  have "open_values x (touch key ts v h m) = open_values x m @ (if h \<and> x = key then [v] else [])" for x
    using touch_session [of key ts v h m] touch_elsewhere [of x key ts v h m]
    by (cases "x = key") (auto simp: open_values_def split: option.splits)
  moreover have "key_values x (data @ (if h then [(key, v)] else [])) =
      key_values x data @ (if h \<and> x = key then [v] else [])" for x
    by (simp add: key_values_def)
  ultimately show ?thesis using assms by (simp add: accounted_def sessions_ok_touch)
qed

lemma accounted_scan_session:
  assumes "accounted data (m, handed)" "scan_session record_emit now key (m, handed, es) = (m', handed', es')"
  shows "accounted data (m', handed')"
proof (cases "expired now m key")
  case True
  then obtain ss where ss: "se_sessions m key = Some ss" by (auto simp: expired_def split: option.splits)
  then have key: "w_key (ss_window ss) = key" using assms(1) by (simp add: accounted_def sessions_ok_def session_ok_def)
  have new: "m' = m\<lparr>se_sessions := (se_sessions m)(key := None)\<rparr>" "handed' = handed @ [(ss_window ss, ss_values ss)]"
    using assms(2) True ss by (auto simp: scan_session_cases record_emit_def)
  have "handed_values x handed' @ open_values x m' = handed_values x handed @ open_values x m" for x
    using ss key by (cases "x = key") (simp_all add: new handed_values_def open_values_def)
  moreover have "sessions_ok m'" using assms(1) by (simp add: new accounted_def sessions_ok_def)
  ultimately show ?thesis using assms(1) by (simp add: accounted_def)
qed (use assms in \<open>simp add: scan_session_cases\<close>)

lemma accounted_scan_fold:
  "accounted data (m, handed) \<Longrightarrow> fold (scan_session record_emit now) ks (m, handed, es) = (m', handed', es') \<Longrightarrow>
   accounted data (m', handed')"
proof (induction ks arbitrary: m handed es)
  case (Cons k ks)
  obtain m1 s1 es1 where one: "scan_session record_emit now k (m, handed, es) = (m1, s1, es1)"
    by (metis prod_cases3)
  show ?case using Cons.IH [OF accounted_scan_session [OF Cons.prems(1) one]] Cons.prems(2) one by simp
qed simp

lemma accounted_run:
  "session_run record_emit begins data ms \<Longrightarrow> accounted [] begins \<Longrightarrow> accounted data ms"
proof (induction rule: session_run.induct)
  case (session_touch data m s h key v ts)
  then show ?case by (simp only: accounted_touch)
next
  case (session_scan data ms order now es ms')
  obtain m s m' s' where eq: "ms = (m, s)" "ms' = (m', s')" by (cases ms, cases ms')
  obtain m1 s1 es1 where loop: "fold (scan_session record_emit now) order (m, s, []) = (m1, s1, es1)"
    by (metis prod_cases3)
  have "accounted data (m1, s1)"
    using accounted_scan_fold [OF _ loop] session_scan eq by simp
  then show ?case using session_scan.hyps(3) eq loop by (simp add: scan_timeout_def)
qed simp

text \<open>What a scan does to the unkeyed windows of a sink that keeps the contract: nothing, as long as
  no session has the empty key.\<close>

context result_sink
begin

lemma scan_session_frame:
  assumes "sessions_ok m" "se_sessions m '''' = None" "w_key w = ''''"
    and "scan_session emit now key (m, s, es) = (m', s', es')"
  shows "published s' w = published s w" "w \<in> untouched s' \<longleftrightarrow> w \<in> untouched s"
    and "sessions_ok m'" "se_sessions m' '''' = None"
proof -
  have "published s' w = published s w \<and> (w \<in> untouched s' \<longleftrightarrow> w \<in> untouched s)"
  proof (cases "expired now m key")
    case True
    then obtain ss where ss: "se_sessions m key = Some ss" by (auto simp: expired_def split: option.splits)
    then have "w_key (ss_window ss) = key" "key \<noteq> []"
      using assms(1,2) by (auto simp: sessions_ok_def session_ok_def)
    then have other: "ss_window ss \<noteq> w" using assms(3) by auto
    have "s' = snd (emit (ss_window ss) (ss_values ss) s)"
      using assms(4) True ss by (simp add: scan_session_cases split: prod.splits)
    then show ?thesis
      using other by (simp add: emit_other [OF not_sym [OF other]] emit_touches)
  qed (use assms(4) in \<open>simp add: scan_session_cases\<close>)
  then show "published s' w = published s w" "w \<in> untouched s' \<longleftrightarrow> w \<in> untouched s" by simp_all
  show "sessions_ok m'" "se_sessions m' '''' = None"
    using assms(1,2) scan_session_sessions [OF assms(4)] by (auto simp: sessions_ok_def)
qed

lemma scan_fold_frame:
  "sessions_ok m \<Longrightarrow> se_sessions m '''' = None \<Longrightarrow> w_key w = '''' \<Longrightarrow>
   fold (scan_session emit now) ks (m, s, es) = (m', s', es') \<Longrightarrow>
   published s' w = published s w \<and> (w \<in> untouched s' \<longleftrightarrow> w \<in> untouched s)"
proof (induction ks arbitrary: m s es)
  case (Cons k ks)
  obtain m1 s1 es1 where one: "scan_session emit now k (m, s, es) = (m1, s1, es1)"
    by (metis prod_cases3)
  note f = scan_session_frame [OF Cons.prems(1-3) one]
  show ?case using Cons.IH [OF f(3,4) Cons.prems(3), of s1 es1] Cons.prems(4) one f(1,2) by simp
qed simp

lemma scan_timeout_frame:
  assumes "sessions_ok m" "se_sessions m '''' = None" "w_key w = ''''"
    and "scan_timeout emit order now (m, s) = (es, m', s')"
  shows "published s' w = published s w \<and> (w \<in> untouched s' \<longleftrightarrow> w \<in> untouched s)"
proof -
  obtain m1 s1 es1 where loop: "fold (scan_session emit now) order (m, s, []) = (m1, s1, es1)"
    by (metis prod_cases3)
  then show ?thesis using scan_fold_frame [OF assms(1-3) loop] assms(4) by (simp add: scan_timeout_def)
qed

end

context kept_by_sink
begin

lemma kept_scan_fold: "kept s \<Longrightarrow> fold (scan_session emit now) ks (m, s, es) = (m', s', es') \<Longrightarrow> kept s'"
proof (induction ks arbitrary: m s es)
  case (Cons k ks)
  obtain m1 s1 es1 where one: "scan_session emit now k (m, s, es) = (m1, s1, es1)" by (metis prod_cases3)
  then have "kept s1"
    using Cons.prems(1)
    by (auto simp: scan_session_def Let_def split: option.splits if_splits prod.splits intro: kept_emit_pair)
  then show ?case using Cons.IH Cons.prems(2) one by simp
qed simp

lemma kept_scan: "kept s \<Longrightarrow> scan_timeout emit order now (m, s) = (es, m', s') \<Longrightarrow> kept s'"
  by (auto simp: scan_timeout_def Let_def split: prod.splits intro: kept_scan_fold)

end

lemma session_run_ok:
  "session_run emit begins data ms \<Longrightarrow> sessions_ok (fst begins) \<Longrightarrow>
   sessions_ok (fst ms) \<and> se_timeout (fst ms) = se_timeout (fst begins)"
proof (induction rule: session_run.induct)
  case (session_scan data ms order now es ms')
  obtain m s m' s' where eq: "ms = (m, s)" "ms' = (m', s')" by (cases ms, cases ms')
  have ord: "enum_of order (se_sessions m)" and sc: "scan_timeout emit order now (m, s) = (es, m', s')"
    using session_scan.hyps eq by simp_all
  show ?case
    using session_scan eq sessions_ok_scan [OF _ ord sc] scan_timeout_sessions [OF ord sc] by simp
qed (simp_all add: inv_intro frame)

section \<open>Properties\<close>

text \<open>Whatever is touched and scanned, every tracked session is open, sits under its own key, and
  its window starts at or before its last activity and ends one timeout after it.\<close>

theorem session_window_follows_activity:
  assumes "session_run emit (new_session_manager timeout, s0) data (m, s)" and "se_sessions m key = Some ss"
  shows "ss_state ss = WindowOpen \<and> w_key (ss_window ss) = key \<and>
     w_end (ss_window ss) = ss_last ss + timeout \<and> sint (w_start (ss_window ss)) \<le> sint (ss_last ss)"
  using session_run_ok [OF assms(1)] assms(2) sessions_ok_new [of timeout]
  by (auto simp: sessions_ok_def session_ok_def new_session_manager_def)

theorem session_window_follows_activity_witness:
  "\<exists>ss. se_sessions (touch ''k'' 7 1 True (new_session_manager 30)) ''k'' = Some ss \<and> w_end (ss_window ss) = 37"
proof -
  have "session_run record_emit (new_session_manager 30, []) ([] @ (if True then [(''k'', 1)] else []))
      (touch ''k'' 7 1 True (new_session_manager 30), [])"
    by (rule session_run.session_touch [OF session_run.session_begin])
  from session_window_follows_activity [OF this, of "''k''"] show ?thesis
    by (simp add: touch_def new_session_manager_def Let_def)
qed

text \<open>C29: a scan removes exactly the sessions that were silent for longer than the timeout and leaves
  the others as they are, in any iteration order.\<close>

theorem scan_removes_exactly_expired:
  assumes "sessions_ok m" and "enum_of order (se_sessions m)"
    and "scan_timeout emit order now (m, s) = (es, m', s')"
  shows "se_sessions m' key = (case se_sessions m key of None \<Rightarrow> None
     | Some ss \<Rightarrow> if sint (se_timeout m) < sint (now - ss_last ss) then None else Some ss)"
  using assms(1) scan_timeout_sessions [OF assms(2,3)]
  by (auto simp: expired_def sessions_ok_def session_ok_def split: option.splits)

theorem scan_removes_exactly_expired_witness:
  "\<exists>es m' s'. scan_timeout emit_result [''k''] 50 (touch ''k'' 7 1 True (new_session_manager 30), new_agg_store)
     = (es, m', s') \<and> se_sessions m' ''k'' = None"
proof -
  let ?m = "touch ''k'' 7 1 True (new_session_manager 30)"
  have ok: "sessions_ok ?m" by (intro inv_intro)
  have ord: "enum_of [''k''] (se_sessions ?m)"
    by (simp add: enum_of_def touch_def new_session_manager_def Let_def)
  obtain es m' s' where sc: "scan_timeout emit_result [''k''] 50 (?m, new_agg_store) = (es, m', s')"
    by (metis prod_cases3)
  show ?thesis
    using sc scan_removes_exactly_expired [OF ok ord sc, of "''k''"]
    by (auto simp: touch_def new_session_manager_def Let_def)
qed

text \<open>An event that arrives before the scan, at most one timeout before the scanned instant, keeps
  its session: the scan does not split it and its value is in the session.\<close>

theorem touched_session_survives_scan:
  assumes "sessions_ok m" and "enum_of order (se_sessions (touch key ts v True m))"
    and "sint ts \<le> sint now" and "sint now - sint ts \<le> sint (se_timeout m)"
    and "scan_timeout emit order now (touch key ts v True m, s) = (es, m', s')"
  shows "is_active key m' \<and> open_values key m' = open_values key m @ [v]"
proof -
  obtain ss where ss: "se_sessions (touch key ts v True m) key = Some ss" "ss_last ss = ts"
      "ss_values ss = (case se_sessions m key of None \<Rightarrow> [] | Some ss0 \<Rightarrow> ss_values ss0) @ [v]"
      "session_ok (se_timeout m) key ss"
    using touch_session [of key ts v True m] assms(1) by auto
  have "in_int64 (sint now - sint ts)" using assms(3,4) sint_range64 [of "se_timeout m"] by simp
  then have "\<not> expired now (touch key ts v True m) key"
    using ss(1,2) assms(4) sint_diff64 [of now ts] by (simp add: expired_def touch_timeout)
  then have "se_sessions m' key = Some ss"
    using ss(1) scan_timeout_sessions [OF assms(2,5)] by simp
  then show ?thesis
    using ss(3,4) by (auto simp: is_active_def open_values_def session_ok_def split: option.splits)
qed

theorem touched_session_survives_scan_witness:
  "\<exists>es m' s'. scan_timeout emit_result [''k''] 37 (touch ''k'' 7 1 True (new_session_manager 30), new_agg_store)
     = (es, m', s') \<and> is_active ''k'' m'"
proof -
  have ord: "enum_of [''k''] (se_sessions (touch ''k'' 7 1 True (new_session_manager 30)))"
    by (simp add: enum_of_def touch_def new_session_manager_def Let_def)
  obtain es m' s' where sc: "scan_timeout emit_result [''k''] 37
      (touch ''k'' 7 1 True (new_session_manager 30), new_agg_store) = (es, m', s')"
    by (metis prod_cases3)
  show ?thesis
    using sc touched_session_survives_scan [OF sessions_ok_new ord _ _ sc]
    by (auto simp: new_session_manager_def)
qed

text \<open>C28: every data value that touches a session is handed to the sink exactly once, in arrival order
  per key, with a window of its own key, or is still in the open session.\<close>

theorem sessions_hand_over_every_value:
  assumes "session_run record_emit (new_session_manager timeout, []) data (m, handed)"
  shows "key_values key data = handed_values key handed @ open_values key m"
proof -
  have "accounted [] (new_session_manager timeout, [])"
    by (simp add: accounted_def inv_intro key_values_def handed_values_def)
       (simp add: open_values_def new_session_manager_def)
  from accounted_run [OF assms this] show ?thesis by (simp add: accounted_def)
qed

theorem sessions_hand_over_every_value_witness:
  "open_values ''k'' (touch ''k'' 9 4 True (touch ''k'' 7 1 True (new_session_manager 30))) = [1, 4]"
proof -
  have "session_run record_emit (new_session_manager 30, [])
      (([] @ (if True then [(''k'', 1)] else [])) @ (if True then [(''k'', 4)] else []))
      (touch ''k'' 9 4 True (touch ''k'' 7 1 True (new_session_manager 30)), [])"
    by (intro session_run.session_touch session_run.session_begin)
  from sessions_hand_over_every_value [OF this, of "''k''"] show ?thesis
    by (simp add: key_values_def handed_values_def)
qed

text \<open>A touch that arrives out of order moves the last activity and the end of the session
  backwards: the next scan, at an instant no later than an event the session already holds, closes
  the session as timed out.\<close>

theorem out_of_order_touch_closes_live_session:
  assumes "sessions_ok m" and "sint now \<le> sint newest" and "sint early \<le> sint now"
    and "sint (se_timeout m) < sint now - sint early" and "sint now - sint early < 2 ^ 63"
    and "enum_of order (se_sessions (touch key early v2 h2 (touch key newest v1 h1 m)))"
    and "scan_timeout emit order now (touch key early v2 h2 (touch key newest v1 h1 m), s) = (es, m', s')"
  shows "\<not> is_active key m' \<and> se_sessions m' key = None"
proof -
  let ?m = "touch key newest v1 h1 m"
  obtain ss where ss: "se_sessions (touch key early v2 h2 ?m) key = Some ss" "ss_last ss = early"
      "session_ok (se_timeout ?m) key ss"
    using touch_session [of key early v2 h2 ?m] sessions_ok_touch [OF assms(1)] by auto
  have "sint (now - early) = sint now - sint early" using assms(3,5) by (intro sint_diff64) simp
  then have "expired now (touch key early v2 h2 ?m) key"
    using ss assms(4) by (simp add: expired_def touch_timeout session_ok_def)
  then show ?thesis using scan_timeout_sessions [OF assms(6,7)] by (simp add: is_active_def)
qed

theorem out_of_order_touch_closes_live_session_witness:
  "\<exists>es m' s'. scan_timeout emit_result [''k''] 90
     (touch ''k'' 50 2 True (touch ''k'' 100 1 True (new_session_manager 30)), new_agg_store) = (es, m', s') \<and>
     \<not> is_active ''k'' m'"
proof -
  have ord: "enum_of [''k''] (se_sessions (touch ''k'' 50 2 True (touch ''k'' 100 1 True (new_session_manager 30))))"
    by (simp add: enum_of_def touch_def new_session_manager_def Let_def)
  obtain es m' s' where sc: "scan_timeout emit_result [''k''] 90
      (touch ''k'' 50 2 True (touch ''k'' 100 1 True (new_session_manager 30)), new_agg_store) = (es, m', s')"
    by (metis prod_cases3)
  show ?thesis
    using sc out_of_order_touch_closes_live_session [OF sessions_ok_new _ _ _ _ ord sc]
    by (auto simp: new_session_manager_def)
qed

text \<open>When a session's window was published before (the same key, start and end), the scan drops
  the session and its values: nothing is returned and the store does not change.\<close>

theorem republished_session_loses_values:
  assumes "se_sessions m key = Some ss" and "expired now m key" and "published s (ss_window ss) \<noteq> None"
  shows "scan_timeout emit_result [key] now (m, s) =
     ([], m\<lparr>se_sessions := (se_sessions m)(key := None)\<rparr>, s)"
  using assms ag.emit_again [OF assms(3), of "ss_values ss"]
  by (simp add: scan_timeout_def scan_session_cases sort_slice_def)

theorem republished_session_loses_values_witness:
  "let m = touch ''k'' 7 1 True (new_session_manager 30);
       s = snd (emit_result \<lparr>w_start = 7, w_end = 37, w_key = ''k''\<rparr> [9] new_agg_store)
   in fst (scan_timeout emit_result [''k''] 50 (m, s)) = []"
proof -
  let ?m = "touch ''k'' 7 1 True (new_session_manager 30)"
  let ?w = "\<lparr>w_start = 7, w_end = 37, w_key = ''k''\<rparr>"
  let ?s = "snd (emit_result ?w [9] new_agg_store)"
  have ss: "se_sessions ?m ''k'' = Some \<lparr>ss_window = ?w, ss_last = 7, ss_values = [1], ss_state = WindowOpen\<rparr>"
    by (simp add: touch_def new_session_manager_def Let_def)
  have ex: "expired 50 ?m ''k''" using ss by (simp add: expired_def touch_timeout new_session_manager_def)
  have pub: "published ?s (ss_window \<lparr>ss_window = ?w, ss_last = 7, ss_values = [1], ss_state = WindowOpen\<rparr>) \<noteq> None"
    using ag.emit_publishes [of ?w "[9]" new_agg_store] by simp
  show ?thesis using republished_session_loses_values [OF ss ex pub] by simp
qed

end
