(* ===== verification/Dag.thy ===== *)
theory Dag
  imports Model
begin

text \<open>
  \<^verbatim>\<open>internal/topology/dag.go\<close>: the operator graph and its depth-first cycle
  check. The recursive closure \<open>visit\<close> recurses through the graph, so the model carries fuel;
  with more fuel than there are unvisited nodes it never runs out, and the fuel
  \<open>dag_validate\<close> uses is always enough.
\<close>

section \<open>Operations\<close>

record edge =
  e_from :: string
  e_to :: string

record dag =
  d_edges :: "edge list"

definition new_dag :: dag where
  "new_dag = \<lparr>d_edges = []\<rparr>"

definition dag_connect :: "string \<Rightarrow> string \<Rightarrow> dag \<Rightarrow> dag" where
  "dag_connect from to d = d\<lparr>d_edges := d_edges d @ [\<lparr>e_from = from, e_to = to\<rparr>]\<rparr>"

text \<open>Reading a missing key of \<open>adj\<close> yields the nil slice.\<close>

definition succs :: "(string \<rightharpoonup> string list) \<Rightarrow> string \<Rightarrow> string list" where
  "succs adj node = (case adj node of None \<Rightarrow> [] | Some xs \<Rightarrow> xs)"

definition build_adj :: "edge list \<Rightarrow> (string \<rightharpoonup> string list)" where
  "build_adj edges = fold (\<lambda>e adj. adj(e_from e \<mapsto> succs adj (e_from e) @ [e_to e])) edges Map.empty"

text \<open>The states 0, 1 and 2 of the code. The result is \<open>None\<close> when the fuel is used up, an error
  message, or the new states.\<close>

datatype mark = Unvisited | Visiting | Visited

definition cycle_error :: "string \<Rightarrow> string" where
  "cycle_error node = ''cycle detected at operator '' @ node"

fun visit :: "nat \<Rightarrow> (string \<rightharpoonup> string list) \<Rightarrow> string \<Rightarrow> (string \<Rightarrow> mark) \<Rightarrow> (string + (string \<Rightarrow> mark)) option"
  and visit_all :: "nat \<Rightarrow> (string \<rightharpoonup> string list) \<Rightarrow> string list \<Rightarrow> (string \<Rightarrow> mark) \<Rightarrow> (string + (string \<Rightarrow> mark)) option"
where
  "visit 0 adj node st = None"
| "visit (Suc n) adj node st =
     (case st node of
        Visiting \<Rightarrow> Some (Inl (cycle_error node))
      | Visited \<Rightarrow> Some (Inr st)
      | Unvisited \<Rightarrow>
          (case visit_all n adj (succs adj node) (st(node := Visiting)) of
             None \<Rightarrow> None
           | Some (Inl err) \<Rightarrow> Some (Inl err)
           | Some (Inr st') \<Rightarrow> Some (Inr (st'(node := Visited)))))"
| "visit_all n adj [] st = Some (Inr st)"
| "visit_all n adj (x # xs) st =
     (case visit n adj x st of
        None \<Rightarrow> None
      | Some (Inl err) \<Rightarrow> Some (Inl err)
      | Some (Inr st') \<Rightarrow> visit_all n adj xs st')"

text \<open>The order is the iteration order of the map \<open>adj\<close>; the result is the error, if any. A graph
  with \<open>n\<close> edges has at most \<open>2 * n\<close> nodes.\<close>

definition dag_validate :: "string list \<Rightarrow> dag \<Rightarrow> string option" where
  "dag_validate order d =
     (case the (visit_all (2 * length (d_edges d) + 1) (build_adj (d_edges d)) order (\<lambda>_. Unvisited)) of
        Inl err \<Rightarrow> Some err
      | Inr st \<Rightarrow> None)"

definition dag_describe :: "dag \<Rightarrow> string" where
  "dag_describe d = join ''; '' (map (\<lambda>e. e_from e @ '' -> '' @ e_to e) (d_edges d))"

definition topology_node :: "operator_instance \<Rightarrow> dag \<Rightarrow> (string \<rightharpoonup> string)" where
  "topology_node instance d = [''name'' \<mapsto> os_name (oi_spec instance),
     ''state'' \<mapsto> operator_state_string (oi_state instance), ''dag'' \<mapsto> dag_describe d]"

section \<open>The graph\<close>

definition graph_of :: "(string \<rightharpoonup> string list) \<Rightarrow> (string \<times> string) set" where
  "graph_of adj = {(a, b). b \<in> set (succs adj a)}"

definition edge_set :: "dag \<Rightarrow> (string \<times> string) set" where
  "edge_set d = (\<lambda>e. (e_from e, e_to e)) ` set (d_edges d)"

lemma graph_of_iff: "(a, b) \<in> graph_of adj \<longleftrightarrow> b \<in> set (succs adj a)"
  by (simp add: graph_of_def)

lemma build_adj_graph:
  "graph_of (build_adj es) = (\<lambda>e. (e_from e, e_to e)) ` set es \<and> dom (build_adj es) = e_from ` set es"
proof -
  have "graph_of (fold (\<lambda>e adj. adj(e_from e \<mapsto> succs adj (e_from e) @ [e_to e])) es adj) =
      graph_of adj \<union> (\<lambda>e. (e_from e, e_to e)) ` set es \<and>
      dom (fold (\<lambda>e adj. adj(e_from e \<mapsto> succs adj (e_from e) @ [e_to e])) es adj) = dom adj \<union> e_from ` set es" for adj
  proof (induction es arbitrary: adj)
    case (Cons e es)
    have "graph_of (adj(e_from e \<mapsto> succs adj (e_from e) @ [e_to e])) = insert (e_from e, e_to e) (graph_of adj)"
      by (auto simp: graph_of_def succs_def split: if_splits)
    with Cons.IH [of "adj(e_from e \<mapsto> succs adj (e_from e) @ [e_to e])"] show ?case
      by (simp del: fun_upd_apply)
  qed simp
  from this [of Map.empty] show ?thesis by (simp add: build_adj_def graph_of_def succs_def)
qed

text \<open>The nodes: every key and every successor.\<close>

definition nodes_of :: "(string \<rightharpoonup> string list) \<Rightarrow> string set" where
  "nodes_of adj = Field (graph_of adj) \<union> dom adj"

lemma nodes_edges: "nodes_of (build_adj es) = e_from ` set es \<union> e_to ` set es"
  using build_adj_graph [of es] by (auto simp: nodes_of_def Field_def)

lemma nodes_count: "card (nodes_of (build_adj es)) \<le> 2 * length es \<and> finite (nodes_of (build_adj es))"
proof -
  have "card (e_from ` set es) \<le> length es" "card (e_to ` set es) \<le> length es"
    by (meson List.finite_set card_image_le card_length le_trans)+
  then show ?thesis
    using card_Un_le [of "e_from ` set es" "e_to ` set es"] by (simp add: nodes_edges)
qed

section \<open>Successful visits\<close>

lemma visit_InrE:
  assumes "visit n adj node st = Some (Inr st')"
  obtains "st node = Visited" "st' = st"
    | k st1 where "n = Suc k" "st node = Unvisited"
        "visit_all k adj (succs adj node) (st(node := Visiting)) = Some (Inr st1)" "st' = st1(node := Visited)"
  using assms by (cases n) (auto split: mark.splits option.splits sum.splits)

lemma visit_all_InrE:
  assumes "visit_all n adj (x # xs) st = Some (Inr st')"
  obtains st1 where "visit n adj x st = Some (Inr st1)" "visit_all n adj xs st1 = Some (Inr st')"
  using assms by (auto split: option.splits sum.splits)

definition keeps :: "(string \<Rightarrow> mark) \<Rightarrow> (string \<Rightarrow> mark) \<Rightarrow> bool" where
  "keeps st st' \<longleftrightarrow> (\<forall>x. (st' x = Visiting \<longleftrightarrow> st x = Visiting) \<and> (st x = Visited \<longrightarrow> st' x = Visited))"

lemma keeps_trans: "keeps st st1 \<Longrightarrow> keeps st1 st2 \<Longrightarrow> keeps st st2"
  by (simp add: keeps_def)

lemma keeps_mark:
  "keeps (st(node := Visiting)) st1 \<Longrightarrow> st node = Unvisited \<Longrightarrow> keeps st (st1(node := Visited))"
  by (auto simp: keeps_def)

lemma visit_keeps:
  "visit n adj node st = Some (Inr st') \<Longrightarrow> keeps st st' \<and> st' node = Visited"
  "visit_all n adj xs st = Some (Inr st') \<Longrightarrow> keeps st st' \<and> (\<forall>x \<in> set xs. st' x = Visited)"
proof (induction n adj node st and n adj xs st arbitrary: st' and st' rule: visit_visit_all.induct)
  case (2 n adj node st)
  from "2.prems" show ?case
  proof (cases rule: visit_InrE)
    case 1
    then show ?thesis by (simp add: keeps_def)
  next
    case (2 k st1)
    then have "keeps (st(node := Visiting)) st1" using "2.IH" by blast
    from keeps_mark [OF this \<open>st node = Unvisited\<close>]
    show ?thesis unfolding \<open>st' = st1(node := Visited)\<close> by (simp only: fun_upd_same simp_thms)
  qed
next
  case (4 n adj x xs st)
  from "4.prems" obtain st1 where one: "visit n adj x st = Some (Inr st1)" "visit_all n adj xs st1 = Some (Inr st')"
    by (rule visit_all_InrE)
  have a: "keeps st st1 \<and> st1 x = Visited" by (rule "4.IH"(1) [OF one(1)])
  have b: "keeps st1 st' \<and> (\<forall>y \<in> set xs. st' y = Visited)" by (rule "4.IH"(2) [OF one(1) refl one(2)])
  from a b show ?case using keeps_trans by (auto simp: keeps_def)
qed (auto simp: keeps_def)

section \<open>Enough fuel\<close>

definition unseen :: "string set \<Rightarrow> (string \<Rightarrow> mark) \<Rightarrow> string set" where
  "unseen N st = {x \<in> N. st x = Unvisited}"

lemma unseen_keeps: "keeps st st' \<Longrightarrow> unseen N st' \<subseteq> unseen N st"
  by (auto simp: unseen_def keeps_def) (metis mark.exhaust)

lemma visit_fuel:
  assumes "finite N" "Range (graph_of adj) \<subseteq> N"
  shows "node \<in> N \<Longrightarrow> card (unseen N st) < n \<Longrightarrow> visit n adj node st \<noteq> None"
    and "set xs \<subseteq> N \<Longrightarrow> card (unseen N st) < n \<Longrightarrow> visit_all n adj xs st \<noteq> None"
  using assms
proof (induction n adj node st and n adj xs st rule: visit_visit_all.induct)
  case (2 n adj node st)
  show ?case
  proof (cases "st node")
    case Unvisited
    have sub: "set (succs adj node) \<subseteq> N" using "2.prems"(4) by (fastforce simp: graph_of_def)
    have "unseen N (st(node := Visiting)) = unseen N st - {node}" "node \<in> unseen N st"
      using Unvisited "2.prems"(1) by (auto simp: unseen_def)
    then have "card (unseen N (st(node := Visiting))) < n"
      using "2.prems"(2,3) card_Suc_Diff1 [of "unseen N st" node] by (simp add: unseen_def)
    then have "visit_all n adj (succs adj node) (st(node := Visiting)) \<noteq> None"
      by (rule "2.IH" [OF Unvisited sub _ "2.prems"(3,4)])
    then show ?thesis using Unvisited by (auto split: sum.splits)
  qed simp_all
next
  case (4 n adj x xs st)
  have x: "x \<in> N" "set xs \<subseteq> N" using "4.prems"(1) by simp_all
  have "visit n adj x st \<noteq> None" by (rule "4.IH"(1) [OF x(1) "4.prems"(2-4)])
  moreover have "visit_all n adj xs st1 \<noteq> None" if one: "visit n adj x st = Some (Inr st1)" for st1
  proof -
    have "unseen N st1 \<subseteq> unseen N st" using visit_keeps(1) [OF one] unseen_keeps by blast
    moreover have "finite (unseen N st)" using "4.prems"(3) by (simp add: unseen_def)
    ultimately have "card (unseen N st1) \<le> card (unseen N st)" by (simp add: card_mono)
    then have "card (unseen N st1) < n" using "4.prems"(2) by simp
    then show ?thesis by (rule "4.IH"(2) [OF one refl x(2) _ "4.prems"(3,4)])
  qed
  ultimately show ?case by (auto split: sum.splits)
qed simp_all

section \<open>What a visit proves\<close>

text \<open>Visited nodes have only visited successors and lie on no cycle.\<close>

definition settled :: "(string \<rightharpoonup> string list) \<Rightarrow> (string \<Rightarrow> mark) \<Rightarrow> bool" where
  "settled adj st \<longleftrightarrow> (\<forall>b. st b = Visited \<longrightarrow>
     (\<forall>c. (b, c) \<in> graph_of adj \<longrightarrow> st c = Visited) \<and> (b, b) \<notin> (graph_of adj)\<^sup>+)"

lemma settled_reach:
  assumes "settled adj st" "(b, c) \<in> (graph_of adj)\<^sup>*" "st b = Visited"
  shows "st c = Visited"
  using assms(2,3) by (induction rule: rtrancl_induct) (use assms(1) in \<open>auto simp: settled_def\<close>)

lemma settled_mark:
  assumes "settled adj st" "st node = Visiting" "\<And>c. (node, c) \<in> graph_of adj \<Longrightarrow> st c = Visited"
  shows "settled adj (st(node := Visited))"
proof -
  have "(node, node) \<notin> (graph_of adj)\<^sup>+"
  proof
    assume "(node, node) \<in> (graph_of adj)\<^sup>+"
    then obtain c where "(node, c) \<in> graph_of adj" "(c, node) \<in> (graph_of adj)\<^sup>*"
      by (meson tranclD)
    then have "st node = Visited" using assms(3) settled_reach [OF assms(1)] by blast
    with assms(2) show False by simp
  qed
  then show ?thesis using assms(1,3) by (auto simp: settled_def)
qed

lemma visit_settles:
  "visit n adj node st = Some (Inr st') \<Longrightarrow> settled adj st \<Longrightarrow> settled adj st'"
  "visit_all n adj xs st = Some (Inr st') \<Longrightarrow> settled adj st \<Longrightarrow> settled adj st'"
proof (induction n adj node st and n adj xs st arbitrary: st' and st' rule: visit_visit_all.induct)
  case (2 n adj node st)
  from "2.prems"(1) show ?case
  proof (cases rule: visit_InrE)
    case 1
    then show ?thesis using "2.prems"(2) by simp
  next
    case inner: (2 k st1)
    have k: "k = n" using inner(1) by simp
    have "settled adj (st(node := Visiting))"
      using "2.prems"(2) inner(2) by (auto simp: settled_def)
    then have "settled adj st1" using "2.IH" inner k by blast
    moreover have "keeps (st(node := Visiting)) st1 \<and> (\<forall>x \<in> set (succs adj node). st1 x = Visited)"
      by (rule visit_keeps(2) [OF inner(3)])
    ultimately show ?thesis
      unfolding inner(4) by (intro settled_mark) (auto simp: keeps_def graph_of_iff)
  qed
next
  case (4 n adj x xs st)
  from "4.prems"(1) obtain st1 where one: "visit n adj x st = Some (Inr st1)" "visit_all n adj xs st1 = Some (Inr st')"
    by (rule visit_all_InrE)
  show ?case by (rule "4.IH"(2) [OF one(1) refl one(2) "4.IH"(1) [OF one(1) "4.prems"(2)]])
qed auto

text \<open>The nodes being visited all lead to the node at hand, so meeting one of them is a cycle.\<close>

definition trail :: "(string \<rightharpoonup> string list) \<Rightarrow> (string \<Rightarrow> mark) \<Rightarrow> string \<Rightarrow> bool" where
  "trail adj st node \<longleftrightarrow> (\<forall>g. st g = Visiting \<longrightarrow> (g, node) \<in> (graph_of adj)\<^sup>+)"

lemma trail_step:
  assumes "trail adj st node" "(node, c) \<in> graph_of adj"
  shows "trail adj (st(node := Visiting)) c"
  using assms by (auto simp: trail_def intro: trancl_into_trancl)

lemma visit_error:
  "visit n adj node st = Some (Inl err) \<Longrightarrow> trail adj st node \<Longrightarrow>
     \<exists>c. err = cycle_error c \<and> (c, c) \<in> (graph_of adj)\<^sup>+"
  "visit_all n adj xs st = Some (Inl err) \<Longrightarrow> (\<And>x. x \<in> set xs \<Longrightarrow> trail adj st x) \<Longrightarrow>
     \<exists>c. err = cycle_error c \<and> (c, c) \<in> (graph_of adj)\<^sup>+"
proof (induction n adj node st and n adj xs st arbitrary: err and err rule: visit_visit_all.induct)
  case (2 n adj node st)
  show ?case
  proof (cases "st node")
    case Visiting
    then show ?thesis using "2.prems" by (auto simp: trail_def)
  next
    case Unvisited
    then have "visit_all n adj (succs adj node) (st(node := Visiting)) = Some (Inl err)"
      using "2.prems"(1) by (auto split: option.splits sum.splits)
    then show ?thesis
      by (rule "2.IH" [OF Unvisited]) (rule trail_step [OF "2.prems"(2)], simp add: graph_of_iff)
  qed (use "2.prems" in simp)
next
  case (4 n adj x xs st)
  show ?case
  proof (cases "visit n adj x st = Some (Inl err)")
    case True
    then show ?thesis by (rule "4.IH"(1)) (simp add: "4.prems"(2))
  next
    case False
    then obtain st1 where one: "visit n adj x st = Some (Inr st1)" "visit_all n adj xs st1 = Some (Inl err)"
      using "4.prems"(1) by (auto split: option.splits sum.splits)
    have "st1 g = Visiting \<longleftrightarrow> st g = Visiting" for g
      using visit_keeps(1) [OF one(1)] by (simp add: keeps_def)
    then have "trail adj st1 y" if "y \<in> set xs" for y
      using "4.prems"(2) that by (simp add: trail_def)
    then show ?thesis by (rule "4.IH"(2) [OF one(1) refl one(2)])
  qed
qed auto

section \<open>Validation\<close>

definition root_visit :: "string list \<Rightarrow> dag \<Rightarrow> (string + (string \<Rightarrow> mark)) option" where
  "root_visit order d =
     visit_all (2 * length (d_edges d) + 1) (build_adj (d_edges d)) order (\<lambda>_. Unvisited)"

lemma dag_validate_root: "dag_validate order d = (case the (root_visit order d) of Inl err \<Rightarrow> Some err | Inr st \<Rightarrow> None)"
  by (simp add: dag_validate_def root_visit_def)

lemma root_visit_total:
  assumes "set order \<subseteq> nodes_of (build_adj (d_edges d))"
  shows "root_visit order d \<noteq> None"
  unfolding root_visit_def
proof (rule visit_fuel(2) [OF _ _ assms])
  let ?N = "nodes_of (build_adj (d_edges d))"
  show "finite ?N" using nodes_count by blast
  show "Range (graph_of (build_adj (d_edges d))) \<subseteq> ?N" by (auto simp: nodes_of_def Field_def)
  have "unseen ?N (\<lambda>_. Unvisited) = ?N" by (simp add: unseen_def)
  then show "card (unseen ?N (\<lambda>_. Unvisited)) < 2 * length (d_edges d) + 1"
    using nodes_count [of "d_edges d"] by simp
qed

lemma root_visit_error:
  assumes "root_visit order d = Some (Inl err)"
  shows "\<exists>c. err = cycle_error c \<and> (c, c) \<in> (edge_set d)\<^sup>+"
  using visit_error(2) [OF assms [unfolded root_visit_def]] build_adj_graph [of "d_edges d"]
  by (simp add: trail_def edge_set_def)

lemma root_visit_ok:
  assumes "root_visit order d = Some (Inr st)" "set order = dom (build_adj (d_edges d))"
  shows "acyclic (edge_set d)"
  unfolding acyclic_def
proof (intro allI notI)
  let ?adj = "build_adj (d_edges d)"
  have g: "graph_of ?adj = edge_set d" using build_adj_graph [of "d_edges d"] by (simp add: edge_set_def)
  fix x assume x: "(x, x) \<in> (edge_set d)\<^sup>+"
  then obtain c where "(x, c) \<in> edge_set d" by (meson tranclD)
  then have "x \<in> set order" using build_adj_graph [of "d_edges d"] assms(2) by (auto simp: edge_set_def)
  then have "st x = Visited" using visit_keeps(2) [OF assms(1) [unfolded root_visit_def]] by blast
  moreover have "settled ?adj st"
    by (rule visit_settles(2) [OF assms(1) [unfolded root_visit_def]]) (simp add: settled_def)
  ultimately show False using x by (simp add: settled_def g)
qed

lemma validate_ok_iff:
  assumes "enum_of order (build_adj (d_edges d))"
  shows "dag_validate order d = None \<longleftrightarrow> acyclic (edge_set d)"
proof -
  have dom: "set order = dom (build_adj (d_edges d))" using assms by (simp add: enum_of_def)
  then have "root_visit order d \<noteq> None" by (intro root_visit_total) (simp add: nodes_of_def)
  then consider err where "root_visit order d = Some (Inl err)" | st where "root_visit order d = Some (Inr st)"
    by (metis not_Some_eq sum.exhaust)
  then show ?thesis
  proof cases
    case 1
    then show ?thesis using root_visit_error [OF 1] by (auto simp: dag_validate_root acyclic_def)
  next
    case 2
    then show ?thesis using root_visit_ok [OF 2 dom] by (simp add: dag_validate_root)
  qed
qed

section \<open>Properties\<close>

text \<open>C27: \<^verbatim>\<open>Validate\<close> accepts a graph exactly when it has no cycle, in whatever
  order the adjacency map is iterated; a rejection names an operator that lies on a cycle.\<close>

theorem validate_iff_acyclic:
  assumes "enum_of order (build_adj (d_edges d))"
  shows "(dag_validate order d = None \<longleftrightarrow> acyclic (edge_set d)) \<and>
     (\<forall>err. dag_validate order d = Some err \<longrightarrow> (\<exists>c. err = cycle_error c \<and> (c, c) \<in> (edge_set d)\<^sup>+))"
proof -
  have "root_visit order d \<noteq> None"
    using assms by (intro root_visit_total) (simp add: nodes_of_def enum_of_def)
  then show ?thesis
    using validate_ok_iff [OF assms] root_visit_error [of order d]
    by (auto simp: dag_validate_root split: sum.splits)
qed

theorem validate_iff_acyclic_witness:
  "dag_validate [''b'', ''a''] (dag_connect ''b'' ''a'' (dag_connect ''a'' ''b'' new_dag)) \<noteq> None \<and>
   \<not> acyclic (edge_set (dag_connect ''b'' ''a'' (dag_connect ''a'' ''b'' new_dag)))"
proof -
  let ?d = "dag_connect ''b'' ''a'' (dag_connect ''a'' ''b'' new_dag)"
  have "enum_of [''b'', ''a''] (build_adj (d_edges ?d))"
    by (auto simp: enum_of_def dag_connect_def new_dag_def build_adj_def)
  moreover have "dag_validate [''b'', ''a''] ?d \<noteq> None" by code_simp
  ultimately show ?thesis using validate_iff_acyclic [of "[''b'', ''a'']" ?d] by simp
qed

text \<open>C35: the cycle check terminates: with more fuel than twice the number of edges the traversal of
  any operators of the graph returns a verdict.\<close>

theorem cycle_check_terminates:
  assumes "set order \<subseteq> nodes_of (build_adj (d_edges d))" and "2 * length (d_edges d) < n"
  shows "visit_all n (build_adj (d_edges d)) order (\<lambda>_. Unvisited) \<noteq> None"
proof (rule visit_fuel(2) [OF _ _ assms(1)])
  let ?N = "nodes_of (build_adj (d_edges d))"
  show "finite ?N" using nodes_count by blast
  show "Range (graph_of (build_adj (d_edges d))) \<subseteq> ?N" by (auto simp: nodes_of_def Field_def)
  have "unseen ?N (\<lambda>_. Unvisited) = ?N" by (simp add: unseen_def)
  then show "card (unseen ?N (\<lambda>_. Unvisited)) < n"
    using nodes_count [of "d_edges d"] assms(2) by simp
qed

theorem cycle_check_terminates_witness:
  "visit_all 3 (build_adj (d_edges (dag_connect ''a'' ''a'' new_dag))) [''a''] (\<lambda>_. Unvisited) \<noteq> None"
  by (rule cycle_check_terminates) (simp_all add: nodes_edges, simp_all add: dag_connect_def new_dag_def)

end
