(* ===== verification/Topology.thy ===== *)
theory Topology
  imports State_Store Dag
begin

text \<open>
  \<^verbatim>\<open>internal/topology/topology.go\<close>: the operator manager with its pause buffer.
  The manager shares the state backend with the rest of the engine and calls back into the pipeline
  for every event it applies. The callback acts on a world \<open>'w\<close> that contains the backend:
  \<open>sto\<close> reads the backend of a world and \<open>upd\<close> modifies it.
\<close>

section \<open>Operations\<close>

record manager =
  mg_instances :: "string \<rightharpoonup> operator_instance"
  mg_buffer :: "event list"
  mg_paused :: bool
  mg_dag :: dag

definition new_manager :: manager where
  "new_manager = \<lparr>mg_instances = Map.empty, mg_buffer = [], mg_paused = False, mg_dag = new_dag\<rparr>"

definition add_operator :: "operator_spec \<Rightarrow> manager \<Rightarrow> operator_instance \<times> manager" where
  "add_operator spec m =
     (let i = new_operator_instance spec
      in (i, m\<lparr>mg_instances := (mg_instances m)(os_name spec \<mapsto> i)\<rparr>))"

definition unknown_operator :: "string \<Rightarrow> string" where
  "unknown_operator name = ''unknown operator '' @ name"

text \<open>\<open>None\<close> is the nil error; the order is the one in which the validation iterates the graph
  with the new edge.\<close>

definition mg_connect :: "string list \<Rightarrow> string \<Rightarrow> string \<Rightarrow> manager \<Rightarrow> string option \<times> manager" where
  "mg_connect order from to m =
     (if mg_instances m from = None then (Some (unknown_operator from), m)
      else if mg_instances m to = None then (Some (unknown_operator to), m)
      else let d = dag_connect from to (mg_dag m)
           in (dag_validate order d, m\<lparr>mg_dag := d\<rparr>))"

type_synonym 'w store_upd = "(state_store \<Rightarrow> state_store) \<Rightarrow> 'w \<Rightarrow> 'w"
type_synonym 'w apply_fun = "event \<Rightarrow> 'w \<Rightarrow> 'w go"

definition apply_locked :: "('w \<Rightarrow> state_store) \<Rightarrow> 'w store_upd \<Rightarrow> 'w apply_fun \<Rightarrow> event \<Rightarrow> 'w \<Rightarrow> 'w go" where
  "apply_locked sto upd app ev w =
     (if is_applied (ev_offset ev) (sto w) then Inr w
      else let w = upd (mark_applied (ev_offset ev)) w in app ev w)"

definition mg_process :: "('w \<Rightarrow> state_store) \<Rightarrow> 'w store_upd \<Rightarrow> 'w apply_fun \<Rightarrow> event \<Rightarrow>
    manager \<times> 'w \<Rightarrow> (manager \<times> 'w) go" where
  "mg_process sto upd app ev mw = (case mw of (m, w) \<Rightarrow>
     if mg_paused m then Inr (m\<lparr>mg_buffer := mg_buffer m @ [ev]\<rparr>, w)
     else go_bind (apply_locked sto upd app ev w) (\<lambda>w. Inr (m, w)))"

definition apply_now :: "('w \<Rightarrow> state_store) \<Rightarrow> 'w store_upd \<Rightarrow> 'w apply_fun \<Rightarrow> event \<Rightarrow>
    manager \<times> 'w \<Rightarrow> (manager \<times> 'w) go" where
  "apply_now sto upd app ev mw = (case mw of (m, w) \<Rightarrow>
     go_bind (apply_locked sto upd app ev w) (\<lambda>w. Inr (m, w)))"

definition mg_pause :: "manager \<Rightarrow> manager" where
  "mg_pause m = m\<lparr>mg_paused := True, mg_instances := (\<lambda>name. map_option operator_pause (mg_instances m name))\<rparr>"

text \<open>The loop of \<^verbatim>\<open>Resume\<close> over the sorted buffer.\<close>

fun replay_buffer :: "('w \<Rightarrow> state_store) \<Rightarrow> 'w store_upd \<Rightarrow> 'w apply_fun \<Rightarrow> event list \<Rightarrow> event list \<Rightarrow> 'w \<Rightarrow>
    (event list \<times> 'w) go" where
  "replay_buffer sto upd app [] replayed w = Inr (replayed, w)"
| "replay_buffer sto upd app (ev # evs) replayed w =
     (if is_applied (ev_offset ev) (sto w) then replay_buffer sto upd app evs replayed w
      else go_bind (app ev (upd (mark_applied (ev_offset ev)) w)) (\<lambda>w.
           replay_buffer sto upd app evs (replayed @ [ev]) w))"

definition mg_resume :: "('w \<Rightarrow> state_store) \<Rightarrow> 'w store_upd \<Rightarrow> 'w apply_fun \<Rightarrow> string list \<Rightarrow>
    manager \<times> 'w \<Rightarrow> (event list \<times> manager \<times> 'w) go" where
  "mg_resume sto upd app order mw = (case mw of (m, w) \<Rightarrow>
     if \<not> mg_paused m then Inr ([], m, w)
     else if dag_validate order (mg_dag m) \<noteq> None
     then Inr ([], m\<lparr>mg_buffer := [], mg_paused := False\<rparr>, w)
     else let sorted_events = sort_slice (\<lambda>ev. sint (ev_offset ev)) (mg_buffer m)
          in go_bind (replay_buffer sto upd app sorted_events [] w) (\<lambda>(replayed, w).
             Inr (replayed,
                  m\<lparr>mg_buffer := [], mg_paused := False,
                    mg_instances := (\<lambda>name. map_option operator_resume (mg_instances m name))\<rparr>, w)))"

definition buffered_count :: "manager \<Rightarrow> nat" where
  "buffered_count m = length (mg_buffer m)"

definition instance_states :: "manager \<Rightarrow> (string \<rightharpoonup> string)" where
  "instance_states m = (\<lambda>name. map_option (\<lambda>i. operator_state_string (oi_state i)) (mg_instances m name))"

definition node_info :: "string \<Rightarrow> manager \<Rightarrow> (string \<rightharpoonup> string)" where
  "node_info name m = (case mg_instances m name of
     None \<Rightarrow> [''name'' \<mapsto> name, ''state'' \<mapsto> ''unknown'']
   | Some i \<Rightarrow> topology_node i (mg_dag m))"

definition mg_describe :: "manager \<Rightarrow> string" where
  "mg_describe m = dag_describe (mg_dag m)"

section \<open>What the manager relies on\<close>

text \<open>The backend is a component of the world, and the callback does not touch the set of applied
  offsets.\<close>

locale applier =
  fixes sto :: "'w \<Rightarrow> state_store" and upd :: "'w store_upd" and app :: "'w apply_fun"
  assumes sto_upd: "sto (upd f w) = f (sto w)"
    and apply_keeps: "app ev w = Inr w' \<Longrightarrow> st_applied (sto w') = st_applied (sto w)"
begin

lemma apply_locked_applied:
  assumes "apply_locked sto upd app ev w = Inr w'"
  shows "st_applied (sto w') = insert (ev_offset ev) (st_applied (sto w))"
  using assms apply_keeps
  by (auto simp: apply_locked_def is_applied_def mark_applied_def Let_def sto_upd split: if_splits)

lemma replay_buffer_applied:
  "replay_buffer sto upd app evs replayed w = Inr (out, w') \<Longrightarrow>
   st_applied (sto w') = ev_offset ` set evs \<union> st_applied (sto w)"
proof (induction evs arbitrary: replayed w)
  case (Cons ev evs)
  show ?case
  proof (cases "is_applied (ev_offset ev) (sto w)")
    case True
    then show ?thesis using Cons.IH [of replayed w] Cons.prems by (auto simp: is_applied_def)
  next
    case False
    then obtain w1 where w1: "app ev (upd (mark_applied (ev_offset ev)) w) = Inr w1"
        "replay_buffer sto upd app evs (replayed @ [ev]) w1 = Inr (out, w')"
      using Cons.prems by (auto elim: go_bind_InrE)
    show ?thesis
      using Cons.IH [OF w1(2)] apply_keeps [OF w1(1)] by (auto simp: sto_upd mark_applied_def)
  qed
qed simp

lemma resume_applied:
  assumes "mg_resume sto upd app order (m, w) = Inr (replayed, m', w')" "mg_paused m"
    "dag_validate order (mg_dag m) = None"
  shows "st_applied (sto w') = ev_offset ` set (mg_buffer m) \<union> st_applied (sto w) \<and>
     mg_buffer m' = [] \<and> \<not> mg_paused m' \<and> mg_dag m' = mg_dag m"
proof -
  let ?evs = "sort_slice (\<lambda>ev. sint (ev_offset ev)) (mg_buffer m)"
  from assms have replay: "replay_buffer sto upd app ?evs [] w = Inr (replayed, w')"
      and "mg_buffer m' = [] \<and> \<not> mg_paused m' \<and> mg_dag m' = mg_dag m"
    by (auto simp: mg_resume_def elim!: go_bind_InrE)
  then show ?thesis using replay_buffer_applied [OF replay] by simp
qed

text \<open>What the callback and an update of the backend leave alone stays the same over the calls of the
  manager.\<close>

lemma apply_locked_same:
  assumes "apply_locked sto upd app ev w = Inr w'"
    and "\<And>ev w w'. app ev w = Inr w' \<Longrightarrow> view w' = view w" and "\<And>f w. view (upd f w) = view w"
  shows "view w' = view w"
  using assms by (auto simp: apply_locked_def Let_def split: if_splits)

lemma replay_buffer_same:
  assumes app: "\<And>ev w w'. app ev w = Inr w' \<Longrightarrow> view w' = view w" and upd: "\<And>f w. view (upd f w) = view w"
  shows "replay_buffer sto upd app evs replayed w = Inr (out, w') \<Longrightarrow> view w' = view w"
proof (induction evs arbitrary: replayed w)
  case (Cons ev evs)
  show ?case
  proof (cases "is_applied (ev_offset ev) (sto w)")
    case True
    then show ?thesis using Cons by simp
  next
    case False
    then obtain w1 where w1: "app ev (upd (mark_applied (ev_offset ev)) w) = Inr w1"
        "replay_buffer sto upd app evs (replayed @ [ev]) w1 = Inr (out, w')"
      using Cons.prems by (auto elim: go_bind_InrE)
    then show ?thesis using Cons.IH [OF w1(2)] app [OF w1(1)] upd by simp
  qed
qed simp

lemma resume_same:
  assumes "mg_resume sto upd app order (m, w) = Inr (replayed, m', w')"
    and "\<And>ev w w'. app ev w = Inr w' \<Longrightarrow> view w' = view w" and "\<And>f w. view (upd f w) = view w"
  shows "view w' = view w"
proof -
  have "w' = w \<or> (\<exists>evs. replay_buffer sto upd app evs [] w = Inr (replayed, w'))"
    using assms(1) by (auto simp: mg_resume_def Let_def split: if_splits elim!: go_bind_InrE)
  then show ?thesis
  proof
    assume "\<exists>evs. replay_buffer sto upd app evs [] w = Inr (replayed, w')"
    then obtain evs where "replay_buffer sto upd app evs [] w = Inr (replayed, w')" by blast
    then show ?thesis by (rule replay_buffer_same [rotated 2]) (fact assms)+
  qed simp
qed

end

section \<open>Runs\<close>

text \<open>Any interleaving of \<^verbatim>\<open>Process\<close>, \<^verbatim>\<open>ApplyNow\<close>,
  \<^verbatim>\<open>Pause\<close> and \<^verbatim>\<open>Resume\<close>; it records the events the
  manager was given.\<close>

inductive manager_run :: "('w \<Rightarrow> state_store) \<Rightarrow> 'w store_upd \<Rightarrow> 'w apply_fun \<Rightarrow> manager \<times> 'w \<Rightarrow>
    event list \<Rightarrow> manager \<times> 'w \<Rightarrow> bool"
  for sto upd app begins where
  run_begin: "manager_run sto upd app begins [] begins"
| run_process: "manager_run sto upd app begins (fed @ [ev]) mw'"
    if "manager_run sto upd app begins fed mw" and "mg_process sto upd app ev mw = Inr mw'"
| run_apply_now: "manager_run sto upd app begins (fed @ [ev]) mw'"
    if "manager_run sto upd app begins fed mw" and "apply_now sto upd app ev mw = Inr mw'"
| run_pause: "manager_run sto upd app begins fed (mg_pause m, w)"
    if "manager_run sto upd app begins fed (m, w)"
| run_resume: "manager_run sto upd app begins fed mw'"
    if "manager_run sto upd app begins fed mw"
      and "enum_of order (build_adj (d_edges (mg_dag (fst mw))))"
      and "mg_resume sto upd app order mw = Inr (replayed, mw')"

text \<open>A world that is the backend and the list of the callbacks made, in order.\<close>

record trace =
  tw_store :: state_store
  tw_events :: "event list"

definition trace_apply :: "trace apply_fun" where
  "trace_apply ev w = Inr (w\<lparr>tw_events := tw_events w @ [ev]\<rparr>)"

definition new_trace :: trace where
  "new_trace = \<lparr>tw_store = new_state_store, tw_events = []\<rparr>"

interpretation tr: applier tw_store tw_store_update trace_apply
  by unfold_locales (auto simp: trace_apply_def)

abbreviation trace_run :: "manager \<times> trace \<Rightarrow> event list \<Rightarrow> manager \<times> trace \<Rightarrow> bool" where
  "trace_run \<equiv> manager_run tw_store tw_store_update trace_apply"

lemma replay_trace:
  "replay_buffer tw_store tw_store_update trace_apply evs replayed w = Inr (out, w') \<Longrightarrow>
   \<exists>new. out = replayed @ new \<and> tw_events w' = tw_events w @ new \<and> set new \<subseteq> set evs \<and>
     distinct (map ev_offset new) \<and> (\<forall>ev \<in> set new. ev_offset ev \<notin> st_applied (tw_store w)) \<and>
     (sorted (map (\<lambda>ev. sint (ev_offset ev)) evs) \<longrightarrow> sorted (map (\<lambda>ev. sint (ev_offset ev)) new)) \<and>
     st_applied (tw_store w') = ev_offset ` set new \<union> st_applied (tw_store w)"
proof (induction evs arbitrary: replayed w)
  case (Cons ev evs)
  show ?case
  proof (cases "is_applied (ev_offset ev) (tw_store w)")
    case True
    then obtain new where "out = replayed @ new" "tw_events w' = tw_events w @ new" "set new \<subseteq> set evs"
        "distinct (map ev_offset new)" "\<forall>ev \<in> set new. ev_offset ev \<notin> st_applied (tw_store w)"
        "sorted (map (\<lambda>ev. sint (ev_offset ev)) evs) \<longrightarrow> sorted (map (\<lambda>ev. sint (ev_offset ev)) new)"
        "st_applied (tw_store w') = ev_offset ` set new \<union> st_applied (tw_store w)"
      using Cons.IH [of replayed w] Cons.prems by auto
    then show ?thesis by (intro exI [of _ new]) auto
  next
    case False
    let ?w1 = "(tw_store_update (mark_applied (ev_offset ev)) w)\<lparr>tw_events := tw_events w @ [ev]\<rparr>"
    have "trace_apply ev (tw_store_update (mark_applied (ev_offset ev)) w) = Inr ?w1"
      by (simp add: trace_apply_def)
    then
    have "replay_buffer tw_store tw_store_update trace_apply evs (replayed @ [ev]) ?w1 = Inr (out, w')"
      using Cons.prems False by simp
    from Cons.IH [OF this] obtain new where new: "out = (replayed @ [ev]) @ new" "tw_events w' = tw_events ?w1 @ new"
        "set new \<subseteq> set evs" "distinct (map ev_offset new)"
        "\<forall>x \<in> set new. ev_offset x \<notin> st_applied (tw_store ?w1)"
        "sorted (map (\<lambda>ev. sint (ev_offset ev)) evs) \<longrightarrow> sorted (map (\<lambda>ev. sint (ev_offset ev)) new)"
        "st_applied (tw_store w') = ev_offset ` set new \<union> st_applied (tw_store ?w1)"
      by blast
    then show ?thesis
      using False by (intro exI [of _ "ev # new"]) (auto simp: mark_applied_def is_applied_def)
  qed
qed simp

text \<open>The callbacks are distinct by offset, the backend has marked exactly their offsets, and every
  event given to the manager was called back or waits in the buffer of a paused manager.\<close>

definition reconciled :: "dag \<Rightarrow> event list \<Rightarrow> manager \<times> trace \<Rightarrow> bool" where
  "reconciled d fed mw \<longleftrightarrow> (case mw of (m, w) \<Rightarrow>
     mg_dag m = d \<and> distinct (map ev_offset (tw_events w)) \<and>
     ev_offset ` set (tw_events w) = st_applied (tw_store w) \<and>
     set (tw_events w) \<union> set (mg_buffer m) \<subseteq> set fed \<and>
     (\<forall>ev \<in> set fed. ev_offset ev \<in> st_applied (tw_store w) \<or> ev \<in> set (mg_buffer m)) \<and>
     (\<not> mg_paused m \<longrightarrow> mg_buffer m = []))"

lemma reconciled_apply:
  assumes "reconciled d fed (m, w)" "apply_locked tw_store tw_store_update trace_apply ev w = Inr w'"
  shows "reconciled d (fed @ [ev]) (m, w')"
proof -
  have "ev_offset x \<in> st_applied (tw_store w)" if "x \<in> set (tw_events w)" for x
    using assms(1) that by (auto simp: reconciled_def)
  with assms show ?thesis
    by (auto simp: reconciled_def apply_locked_def is_applied_def mark_applied_def trace_apply_def Let_def
        split: if_splits)
qed

lemma reconciled_run:
  assumes "trace_run (m0, new_trace) fed mw" "mg_dag m0 = d" "mg_buffer m0 = []" "acyclic (edge_set d)"
  shows "reconciled d fed mw"
  using assms(1)
proof (induction rule: manager_run.induct)
  case run_begin
  then show ?case using assms by (simp add: reconciled_def new_trace_def new_state_store_def)
next
  case (run_process fed mw ev mw')
  obtain m w where mw: "mw = (m, w)" by (cases mw)
  show ?case
  proof (cases "mg_paused m")
    case True
    then have "mw' = (m\<lparr>mg_buffer := mg_buffer m @ [ev]\<rparr>, w)"
      using run_process.hyps mw by (simp add: mg_process_def)
    then show ?thesis using run_process.IH mw True by (auto simp: reconciled_def)
  next
    case False
    then obtain w' where "apply_locked tw_store tw_store_update trace_apply ev w = Inr w'" "mw' = (m, w')"
      using run_process.hyps mw by (auto simp: mg_process_def elim: go_bind_InrE)
    then show ?thesis using reconciled_apply [of d fed m w] run_process.IH mw by simp
  qed
next
  case (run_apply_now fed mw ev mw')
  obtain m w where mw: "mw = (m, w)" by (cases mw)
  then obtain w' where "apply_locked tw_store tw_store_update trace_apply ev w = Inr w'" "mw' = (m, w')"
    using run_apply_now.hyps by (auto simp: apply_now_def elim: go_bind_InrE)
  then show ?case using reconciled_apply [of d fed m w] run_apply_now.IH mw by simp
next
  case (run_pause fed m w)
  then show ?case by (simp add: reconciled_def mg_pause_def)
next
  case (run_resume fed mw order replayed mw')
  obtain m w m' w' where mw: "mw = (m, w)" "mw' = (m', w')" by (cases mw, cases mw')
  have d: "mg_dag m = d" using run_resume.IH mw by (simp add: reconciled_def)
  have valid: "dag_validate order (mg_dag m) = None"
    using validate_ok_iff [of order "mg_dag m"] run_resume.hyps(2) assms(4) mw d by simp
  show ?case
  proof (cases "mg_paused m")
    case False
    then show ?thesis using run_resume mw by (simp add: mg_resume_def)
  next
    case True
    let ?evs = "sort_slice (\<lambda>ev. sint (ev_offset ev)) (mg_buffer m)"
    have replay: "replay_buffer tw_store tw_store_update trace_apply ?evs [] w = Inr (replayed, w')"
      using run_resume.hyps(3) mw True valid by (auto simp: mg_resume_def elim!: go_bind_InrE)
    have tr_facts: "st_applied (tw_store w') = ev_offset ` set (mg_buffer m) \<union> st_applied (tw_store w) \<and>
        mg_buffer m' = [] \<and> \<not> mg_paused m' \<and> mg_dag m' = mg_dag m"
      by (rule tr.resume_applied [OF _ True valid]) (use run_resume.hyps(3) mw in simp)
    from replay_trace [OF replay] obtain new where
      "tw_events w' = tw_events w @ new" "set new \<subseteq> set (mg_buffer m)" "distinct (map ev_offset new)"
      "\<forall>ev \<in> set new. ev_offset ev \<notin> st_applied (tw_store w)"
      "st_applied (tw_store w') = ev_offset ` set new \<union> st_applied (tw_store w)" by auto
    moreover have "ev_offset ev \<in> st_applied (tw_store w')" if "ev \<in> set fed" for ev
      using that run_resume.IH tr_facts by (auto simp: mw reconciled_def)
    moreover have "ev_offset x \<in> st_applied (tw_store w)" if "x \<in> set (tw_events w)" for x
      using that run_resume.IH by (auto simp: mw reconciled_def)
    ultimately show ?thesis
      using run_resume.IH tr_facts d unfolding mw reconciled_def by auto
  qed
qed

section \<open>Properties\<close>

lemma replay_trace_total:
  "\<exists>out w'. replay_buffer tw_store tw_store_update trace_apply evs replayed w = Inr (out, w')"
proof (induction evs arbitrary: replayed w)
  case (Cons ev evs)
  then show ?case by (simp add: trace_apply_def)
qed simp

lemma resume_trace_empties:
  assumes ok: "reconciled d fed (m, w)" and d: "acyclic (edge_set d)" and order: "enum_of order (build_adj (d_edges d))"
  shows "\<exists>replayed m' w'. mg_resume tw_store tw_store_update trace_apply order (m, w) = Inr (replayed, m', w') \<and>
     \<not> mg_paused m' \<and> mg_buffer m' = [] \<and> (\<forall>ev \<in> set fed. is_applied (ev_offset ev) (tw_store w'))"
proof (cases "mg_paused m")
  case False
  then have "mg_resume tw_store tw_store_update trace_apply order (m, w) = Inr ([], m, w)" by (simp add: mg_resume_def)
  then show ?thesis using False ok by (auto simp: reconciled_def is_applied_def)
next
  case True
  have dag: "mg_dag m = d" using ok by (simp add: reconciled_def)
  have valid: "dag_validate order (mg_dag m) = None" using validate_ok_iff [of order d] order d by (simp add: dag)
  then obtain replayed m' w' where res: "mg_resume tw_store tw_store_update trace_apply order (m, w) = Inr (replayed, m', w')"
    using True replay_trace_total [of "sort_slice (\<lambda>ev. sint (ev_offset ev)) (mg_buffer m)" "[]" w]
    by (auto simp: mg_resume_def)
  have "st_applied (tw_store w') = ev_offset ` set (mg_buffer m) \<union> st_applied (tw_store w) \<and>
      mg_buffer m' = [] \<and> \<not> mg_paused m' \<and> mg_dag m' = mg_dag m"
    by (rule tr.resume_applied [OF res True valid])
  then show ?thesis using res ok by (auto simp: reconciled_def is_applied_def)
qed

text \<open>C3: pause and resume lose and repeat nothing: under an acyclic graph, for any interleaving of
  events, out-of-band applications, pauses and resumes, no offset is applied twice, only events the
  manager was given are applied, and every such event has been applied or waits in the buffer of a
  paused manager; when the manager is not paused all of them have been applied and its buffer is empty. From
  every such state a resume succeeds, leaves the manager running with an empty buffer, and then all events
  have been applied.\<close>

theorem pause_resume_exactly_once:
  assumes "manager_run tw_store tw_store_update trace_apply (m0, new_trace) fed (m, w)"
    and "acyclic (edge_set (mg_dag m0))" and "mg_buffer m0 = []"
  shows "distinct (map ev_offset (tw_events w)) \<and> set (tw_events w) \<subseteq> set fed \<and>
     ev_offset ` set (tw_events w) = st_applied (tw_store w) \<and>
     (\<forall>ev \<in> set fed. is_applied (ev_offset ev) (tw_store w) \<or> mg_paused m \<and> ev \<in> set (mg_buffer m)) \<and>
     (\<not> mg_paused m \<longrightarrow> mg_buffer m = []) \<and>
     (\<forall>order. enum_of order (build_adj (d_edges (mg_dag m0))) \<longrightarrow>
        (\<exists>replayed m' w'. mg_resume tw_store tw_store_update trace_apply order (m, w) = Inr (replayed, m', w') \<and>
           \<not> mg_paused m' \<and> mg_buffer m' = [] \<and> (\<forall>ev \<in> set fed. is_applied (ev_offset ev) (tw_store w'))))"
proof -
  have ok: "reconciled (mg_dag m0) fed (m, w)" by (rule reconciled_run [OF assms(1) refl assms(3,2)])
  show ?thesis using resume_trace_empties [OF ok assms(2)] ok by (auto simp: reconciled_def is_applied_def)
qed

text \<open>A manager with two connected operators, for the witnesses.\<close>

definition demo_mgr :: manager where
  "demo_mgr = snd (mg_connect [''a''] ''a'' ''b''
     (snd (add_operator \<lparr>os_name = ''b'', os_parallelism = 1, os_stateful = False\<rparr>
       (snd (add_operator \<lparr>os_name = ''a'', os_parallelism = 1, os_stateful = False\<rparr> new_manager)))))"

lemma demo_mgr_facts:
  "mg_dag demo_mgr = dag_connect ''a'' ''b'' new_dag" "mg_buffer demo_mgr = []" "\<not> mg_paused demo_mgr"
  "mg_instances demo_mgr ''a'' \<noteq> None" "mg_instances demo_mgr ''b'' \<noteq> None"
  by (simp_all add: demo_mgr_def mg_connect_def add_operator_def new_manager_def Let_def)

theorem pause_resume_exactly_once_witness:
  "\<exists>w. manager_run tw_store tw_store_update trace_apply (demo_mgr, new_trace)
     [new_data ''k'' 1 5 1] (mg_pause demo_mgr, w) \<and> is_applied 1 (tw_store w)"
proof -
  obtain w where w: "mg_process tw_store tw_store_update trace_apply (new_data ''k'' 1 5 1) (demo_mgr, new_trace) =
      Inr (demo_mgr, w)"
    by (simp add: mg_process_def demo_mgr_facts apply_locked_def trace_apply_def is_applied_def new_trace_def
        new_state_store_def Let_def)
  have one: "manager_run tw_store tw_store_update trace_apply (demo_mgr, new_trace) [new_data ''k'' 1 5 1] (demo_mgr, w)"
    using manager_run.run_process [OF manager_run.run_begin w] by simp
  have ac: "acyclic (edge_set (mg_dag demo_mgr))"
    by (auto simp: demo_mgr_facts edge_set_def dag_connect_def new_dag_def acyclic_def elim: tranclE)
  show ?thesis
    using manager_run.run_pause [OF one] pause_resume_exactly_once [OF one ac demo_mgr_facts(2)] demo_mgr_facts(3)
    by auto
qed

text \<open>What \<^verbatim>\<open>Resume\<close> returns is exactly what it applied: buffered events not
  applied before, each offset once, in ascending order of offsets.\<close>

theorem resume_replays_in_offset_order:
  assumes "mg_resume tw_store tw_store_update trace_apply order (m, w) = Inr (replayed, m', w')"
  shows "tw_events w' = tw_events w @ replayed \<and> sorted (map (\<lambda>ev. sint (ev_offset ev)) replayed) \<and>
     distinct (map ev_offset replayed) \<and> set replayed \<subseteq> set (mg_buffer m) \<and>
     (\<forall>ev \<in> set replayed. \<not> is_applied (ev_offset ev) (tw_store w))"
proof (cases "mg_paused m \<and> dag_validate order (mg_dag m) = None")
  case False
  then have "replayed = [] \<and> w' = w"
    using assms by (cases "mg_paused m") (auto simp: mg_resume_def)
  then show ?thesis by simp
next
  case True
  let ?evs = "sort_slice (\<lambda>ev. sint (ev_offset ev)) (mg_buffer m)"
  have "replay_buffer tw_store tw_store_update trace_apply ?evs [] w = Inr (replayed, w')"
    using assms True by (auto simp: mg_resume_def elim!: go_bind_InrE)
  from replay_trace [OF this] show ?thesis by (auto simp: is_applied_def)
qed

theorem resume_replays_in_offset_order_witness:
  "\<exists>replayed m' w'. mg_resume tw_store tw_store_update trace_apply [''a'']
     ((mg_pause demo_mgr)\<lparr>mg_buffer := [new_data ''k'' 1 5 9, new_data ''k'' 2 5 4]\<rparr>, new_trace) = Inr (replayed, m', w') \<and>
     sorted (map (\<lambda>ev. sint (ev_offset ev)) replayed)"
proof -
  let ?m = "(mg_pause demo_mgr)\<lparr>mg_buffer := [new_data ''k'' 1 5 9, new_data ''k'' 2 5 4]\<rparr>"
  have "dag_validate [''a''] (dag_connect ''a'' ''b'' new_dag) = None" by code_simp
  then have "\<exists>replayed m' w'. mg_resume tw_store tw_store_update trace_apply [''a''] (?m, new_trace) = Inr (replayed, m', w')"
    by (simp add: mg_resume_def mg_pause_def demo_mgr_facts sort_slice_def trace_apply_def is_applied_def
        new_trace_def new_state_store_def mark_applied_def)
  then show ?thesis using resume_replays_in_offset_order by blast
qed

text \<open>An edge that \<^verbatim>\<open>Connect\<close> rejects because it closes a cycle stays in the
  graph, and from then on every resume throws the buffered events away: an event buffered after a
  pause is dropped without having been applied, and nothing is returned.\<close>

theorem rejected_edge_makes_resume_drop_events:
  assumes "mg_connect order from to m = (Some err, m1)"
    and "mg_instances m from \<noteq> None" and "mg_instances m to \<noteq> None"
    and "enum_of order (build_adj (d_edges (dag_connect from to (mg_dag m))))"
    and "enum_of order' (build_adj (d_edges (mg_dag m1)))"
    and "mg_process sto upd app ev (mg_pause m1, w) = Inr (m2, w2)"
  shows "ev \<in> set (mg_buffer m2) \<and> w2 = w \<and>
     mg_resume sto upd app order' (m2, w2) = Inr ([], m2\<lparr>mg_buffer := [], mg_paused := False\<rparr>, w)"
proof -
  have d: "mg_dag m1 = dag_connect from to (mg_dag m)"
      and err: "dag_validate order (dag_connect from to (mg_dag m)) = Some err"
    using assms(1-3) by (auto simp: mg_connect_def Let_def)
  then have "\<not> acyclic (edge_set (mg_dag m1))" using validate_ok_iff [OF assms(4)] by simp
  then have invalid: "dag_validate order' (mg_dag m1) \<noteq> None" using validate_ok_iff [OF assms(5)] by simp
  have m2: "m2 = (mg_pause m1)\<lparr>mg_buffer := mg_buffer m1 @ [ev]\<rparr>" "w2 = w"
    using assms(6) by (simp_all add: mg_process_def mg_pause_def)
  then show ?thesis using invalid by (simp add: mg_resume_def mg_pause_def)
qed

theorem rejected_edge_makes_resume_drop_events_witness:
  "\<exists>err m1. mg_connect [''a'', ''b''] ''b'' ''a'' demo_mgr = (Some err, m1) \<and>
     (\<exists>m2. mg_resume tw_store tw_store_update trace_apply [''a'', ''b'']
        ((mg_pause m1)\<lparr>mg_buffer := [new_data ''k'' 1 5 9]\<rparr>, new_trace) = Inr ([], m2, new_trace))"
proof -
  let ?d = "dag_connect ''b'' ''a'' (dag_connect ''a'' ''b'' new_dag)"
  let ?m1 = "demo_mgr\<lparr>mg_dag := ?d\<rparr>"
  have "dag_validate [''a'', ''b''] ?d \<noteq> None" by code_simp
  then obtain err where err: "dag_validate [''a'', ''b''] ?d = Some err" by blast
  have con: "mg_connect [''a'', ''b''] ''b'' ''a'' demo_mgr = (Some err, ?m1)"
    using err demo_mgr_facts by (auto simp: mg_connect_def Let_def)
  have ord: "enum_of [''a'', ''b''] (build_adj (d_edges ?d))"
    by (auto simp: enum_of_def dag_connect_def new_dag_def build_adj_def)
  have pr: "mg_process tw_store tw_store_update trace_apply (new_data ''k'' 1 5 9) (mg_pause ?m1, new_trace) =
      Inr ((mg_pause ?m1)\<lparr>mg_buffer := [new_data ''k'' 1 5 9]\<rparr>, new_trace)"
    by (simp add: mg_process_def mg_pause_def demo_mgr_facts)
  have "mg_resume tw_store tw_store_update trace_apply [''a'', ''b'']
      ((mg_pause ?m1)\<lparr>mg_buffer := [new_data ''k'' 1 5 9]\<rparr>, new_trace) =
      Inr ([], (mg_pause ?m1)\<lparr>mg_buffer := [new_data ''k'' 1 5 9], mg_buffer := [], mg_paused := False\<rparr>, new_trace)"
    using rejected_edge_makes_resume_drop_events [OF con _ _ _ _ pr, of "[''a'', ''b'']"] demo_mgr_facts ord by simp
  then show ?thesis using con by blast
qed

end
