(* ===== verification/Pipeline.thy ===== *)
theory Pipeline
  imports Windows Sessions Router Topology Source Checkpoint Results
begin

text \<open>
  \<^verbatim>\<open>internal/topology/pipeline.go\<close>: the whole chain. The record
  \<open>engine\<close> is what the operator chain and the triggers work on; it is the world of the topology
  manager's callback. The record \<open>pipeline\<close> adds the manager, the source, the tracker and the
  coordinator. The components the code shares by pointer appear once.
\<close>

section \<open>State\<close>

record engine =
  en_metrics :: "metrics option"
  en_idle :: idle_detector
  en_sessions :: session_manager
  en_router :: router
  en_parts :: part_store
  en_state :: state_store
  en_windows :: window_manager
  en_agg :: agg_store
  en_sink :: sink
  en_deltas :: "string \<rightharpoonup> int64"
  en_flush_every :: int64

record pipeline =
  pl_engine :: engine
  pl_topology :: manager
  pl_source :: source
  pl_tracker :: tracker
  pl_offsets :: offset_tracker
  pl_coordinator :: coordinator

section \<open>Processing\<close>

text \<open>A nil metrics pointer is \<open>None\<close>.\<close>

definition count_metric :: "(metrics \<Rightarrow> metrics) \<Rightarrow> engine \<Rightarrow> engine" where
  "count_metric f e = e\<lparr>en_metrics := map_option f (en_metrics e)\<rparr>"

text \<open>The batch handed to \<^verbatim>\<open>ApplyRound\<close> is a copy of the pending deltas
  (\<open>copy_map_id\<close>).\<close>

definition maybe_flush_deltas :: "event \<Rightarrow> engine \<Rightarrow> engine" where
  "maybe_flush_deltas ev e =
     (let e = e\<lparr>en_deltas := bump (ev_key ev) (ev_value ev) (en_deltas e)\<rparr>
      in if int (card (dom (en_deltas e))) < sint (en_flush_every e) then e
         else e\<lparr>en_state := apply_round (en_deltas e) (en_state e), en_deltas := Map.empty\<rparr>)"

definition process :: "event \<Rightarrow> engine \<Rightarrow> engine go" where
  "process ev e =
     (let e = count_metric add_ingested e;
          e = e\<lparr>en_idle := note_event (ev_timestamp ev) (en_idle e)\<rparr>
      in if ev_kind ev \<noteq> KindData
         then Inr (e\<lparr>en_sessions := touch (ev_key ev) (ev_timestamp ev) (ev_value ev) False (en_sessions e)\<rparr>)
         else go_bind (route (ev_key ev) (en_router e)) (\<lambda>(part, router).
              go_bind (part_add part (ev_key ev) (ev_value ev) (en_parts e)) (\<lambda>parts.
              let e = e\<lparr>en_router := router, en_parts := parts,
                        en_state := state_record (ev_key ev) (ev_value ev) (en_state e)\<rparr>
              in go_bind (ingest agg_late_update ev (en_windows e, en_agg e)) (\<lambda>(outcome, windows, agg).
                 let e = e\<lparr>en_windows := windows, en_agg := agg\<rparr>;
                     e = count_metric (if outcome = OutcomeAccepted then add_aggregated else add_late_dropped) e;
                     e = e\<lparr>en_sessions := touch (ev_key ev) (ev_timestamp ev) (ev_value ev) True (en_sessions e)\<rparr>;
                     e = e\<lparr>en_sink := snd (sink_write (ev_key ev) (ev_value ev) (en_sink e))\<rparr>
                 in Inr (maybe_flush_deltas ev e)))))"

section \<open>Triggers\<close>

text \<open>The two lists are the iteration orders of the windows and the sessions.\<close>

definition trigger_on_watermark :: "window_id list \<times> string list \<Rightarrow> int64 \<Rightarrow> pipeline \<Rightarrow> pipeline" where
  "trigger_on_watermark orders confirmed p =
     (let e = pl_engine p;
          (results, windows, agg) = maybe_trigger emit_result (fst orders) (pl_tracker p) (en_windows e, en_agg e);
          (_, sessions, agg) = scan_timeout emit_result (snd orders) confirmed (en_sessions e, agg);
          e = e\<lparr>en_windows := windows, en_sessions := sessions, en_agg := agg\<rparr>
      in p\<lparr>pl_engine := fold (\<lambda>_. count_metric add_emitted) results e\<rparr>)"

definition on_watermark_confirmed :: "window_id list \<times> string list \<Rightarrow> pipeline observer" where
  "on_watermark_confirmed orders confirmed p = trigger_on_watermark orders confirmed p"

section \<open>The operations of the pipeline\<close>

abbreviation topology_process :: "event \<Rightarrow> manager \<times> engine \<Rightarrow> (manager \<times> engine) go" where
  "topology_process \<equiv> mg_process en_state en_state_update process"

definition pl_emit :: "event \<Rightarrow> pipeline \<Rightarrow> pipeline go" where
  "pl_emit ev p = go_bind (source_emit None ev (pl_source p, ())) (\<lambda>(s, _). Inr (p\<lparr>pl_source := s\<rparr>))"

text \<open>\<^verbatim>\<open>Advance\<close> with the fanout that \<^verbatim>\<open>NewPipeline\<close>
  builds, whose only observer is the pipeline itself.\<close>

definition pl_advance :: "window_id list \<times> string list \<Rightarrow> int64 \<Rightarrow> pipeline \<Rightarrow> pipeline go" where
  "pl_advance orders ts p =
     go_bind (advance_to topology_process ts (pl_source p, pl_tracker p, (pl_topology p, pl_engine p)))
       (\<lambda>(s, t, m, e).
         let p = p\<lparr>pl_source := s, pl_tracker := t, pl_topology := m, pl_engine := e\<rparr>;
             fanout = fanout_add (on_watermark_confirmed orders) new_fanout
         in Inr (fanout_notify fanout (confirmed_of (pl_tracker p)) p))"

definition pl_pause :: "pipeline \<Rightarrow> pipeline" where
  "pl_pause p = p\<lparr>pl_topology := mg_pause (pl_topology p)\<rparr>"

definition pl_resume :: "string list \<Rightarrow> pipeline \<Rightarrow> pipeline go" where
  "pl_resume order p =
     go_bind (mg_resume en_state en_state_update process order (pl_topology p, pl_engine p)) (\<lambda>(_, m, e).
     Inr (p\<lparr>pl_topology := m, pl_engine := e\<rparr>))"

definition pl_apply_now :: "event \<Rightarrow> pipeline \<Rightarrow> pipeline go" where
  "pl_apply_now ev p =
     go_bind (apply_now en_state en_state_update process ev (pl_topology p, pl_engine p)) (\<lambda>(m, e).
     Inr (p\<lparr>pl_topology := m, pl_engine := e\<rparr>))"

definition pl_resize :: "string list list \<Rightarrow> int64 \<Rightarrow> pipeline \<Rightarrow> pipeline go" where
  "pl_resize orders n p =
     go_bind (resize orders n (en_router (pl_engine p)) (en_parts (pl_engine p))) (\<lambda>(r, ps).
     Inr (p\<lparr>pl_engine := (pl_engine p)\<lparr>en_router := r, en_parts := ps\<rparr>\<rparr>))"

text \<open>The coordinator works on the components it shares with the pipeline.\<close>

definition pl_shared :: "pipeline \<Rightarrow> shared" where
  "pl_shared p = \<lparr>sh_store = en_state (pl_engine p), sh_sink = en_sink (pl_engine p),
     sh_offsets = pl_offsets p, sh_metrics = en_metrics (pl_engine p)\<rparr>"

definition put_shared :: "coordinator \<times> shared \<Rightarrow> pipeline \<Rightarrow> pipeline" where
  "put_shared cs p = (case cs of (c, sh) \<Rightarrow>
     p\<lparr>pl_coordinator := c, pl_offsets := sh_offsets sh,
       pl_engine := (pl_engine p)\<lparr>en_state := sh_store sh, en_sink := sh_sink sh, en_metrics := sh_metrics sh\<rparr>\<rparr>)"

text \<open>\<^verbatim>\<open>RunCheckpoint\<close> without concurrent mutations: the first attempt of the
  fence is quiet.\<close>

definition run_checkpoint :: "int64 \<Rightarrow> pipeline \<Rightarrow> pipeline go" where
  "run_checkpoint offset p =
     (case snapshot_state [[]] (en_state (pl_engine p)) of
        None \<Rightarrow> Inl Deadlock
      | Some (snap, st) \<Rightarrow>
          let p = p\<lparr>pl_engine := (pl_engine p)\<lparr>en_state := st\<rparr>\<rparr>
          in go_bind (cp_commit offset (pl_coordinator p, pl_shared p)) (\<lambda>cs. Inr (put_shared cs p)))"

definition pl_restore :: "snapshot_data \<Rightarrow> int64 \<Rightarrow> pipeline \<Rightarrow> pipeline go" where
  "pl_restore snap offset p =
     go_bind (cp_restore snap offset (pl_coordinator p, pl_shared p)) (\<lambda>cs. Inr (put_shared cs p))"

definition retry_checkpoint :: "int64 \<Rightarrow> (int64 \<Rightarrow> coordinator \<times> pipeline \<Rightarrow> 'r \<times> coordinator \<times> pipeline) \<Rightarrow>
    pipeline \<Rightarrow> 'r \<times> pipeline" where
  "retry_checkpoint attempt_offset replay p =
     (case cp_retry attempt_offset replay (pl_coordinator p, p) of (r, c, p) \<Rightarrow> (r, p\<lparr>pl_coordinator := c\<rparr>))"

text \<open>The demo feed asks the idle detector of the pipeline directly.\<close>

definition pl_should_advance :: "int64 \<Rightarrow> pipeline \<Rightarrow> (int64 \<times> bool) \<times> pipeline" where
  "pl_should_advance now p =
     (case should_advance now (en_idle (pl_engine p)) of (r, d) \<Rightarrow>
        (r, p\<lparr>pl_engine := (pl_engine p)\<lparr>en_idle := d\<rparr>\<rparr>))"

definition emitted_results :: "window_id list \<Rightarrow> pipeline \<Rightarrow> window_result list" where
  "emitted_results order p =
     sort_slice (\<lambda>r. window_string (r_window r)) (combine (agg_summary order (en_agg (pl_engine p))))"

text \<open>The loop at the head of \<^verbatim>\<open>Status\<close>.\<close>

definition max_key_partitions :: "string list \<Rightarrow> pipeline \<Rightarrow> nat" where
  "max_key_partitions order p =
     fold (\<lambda>key best. let count = partition_count key (en_parts (pl_engine p)) in if best < count then count else best)
       (part_keys order (en_parts (pl_engine p))) 0"

section \<open>Construction\<close>

definition new_engine :: "engine_config \<Rightarrow> metrics option \<Rightarrow> engine go" where
  "new_engine cfg ms =
     go_bind (new_partitioned_store (c_partitions cfg)) (\<lambda>parts. Inr
       \<lparr>en_metrics = ms, en_idle = new_idle_detector (c_idle_timeout_ms cfg),
        en_sessions = new_session_manager (c_session_timeout cfg),
        en_router = new_router (c_partitions cfg), en_parts = parts, en_state = new_state_store,
        en_windows = new_window_manager (c_window_size_ms cfg), en_agg = new_agg_store,
        en_sink = new_sink, en_deltas = Map.empty, en_flush_every = 8\<rparr>)"

text \<open>The three operators and the two edges; the errors of \<^verbatim>\<open>Connect\<close> are
  ignored.\<close>

definition engine_topology :: "int64 \<Rightarrow> manager" where
  "engine_topology partitions =
     (let m = new_manager;
          m = snd (add_operator \<lparr>os_name = ''window-aggregate'', os_parallelism = partitions, os_stateful = True\<rparr> m);
          m = snd (add_operator \<lparr>os_name = ''session-track'', os_parallelism = partitions, os_stateful = True\<rparr> m);
          m = snd (add_operator \<lparr>os_name = ''sink-commit'', os_parallelism = 1, os_stateful = False\<rparr> m);
          m = snd (mg_connect [''window-aggregate''] ''window-aggregate'' ''sink-commit'' m);
          m = snd (mg_connect [''window-aggregate'', ''session-track''] ''session-track'' ''sink-commit'' m)
      in m)"

definition new_pipeline :: "engine_config \<Rightarrow> metrics option \<Rightarrow> pipeline go" where
  "new_pipeline cfg ms =
     go_bind (new_engine cfg ms) (\<lambda>e. Inr
       \<lparr>pl_engine = e, pl_topology = engine_topology (c_partitions cfg),
        pl_source = new_source (new_buffer (c_buffer_size cfg)), pl_tracker = new_tracker 0,
        pl_offsets = new_offset_tracker 0, pl_coordinator = new_coordinator\<rparr>)"

lemma engine_topology_facts:
  "mg_dag (engine_topology n) = dag_connect ''session-track'' ''sink-commit'' (dag_connect ''window-aggregate'' ''sink-commit'' new_dag)"
  "mg_buffer (engine_topology n) = []" "\<not> mg_paused (engine_topology n)"
  by (simp_all add: engine_topology_def add_operator_def mg_connect_def new_manager_def Let_def)

lemma engine_topology_acyclic: "acyclic (edge_set (mg_dag (engine_topology n)))"
proof -
  let ?r = "edge_set (mg_dag (engine_topology n))"
  have "\<exists>a. (a, b) \<in> ?r \<Longrightarrow> (b, c) \<notin> ?r" for b c
    by (auto simp: engine_topology_facts edge_set_def dag_connect_def new_dag_def)
  then show ?thesis unfolding acyclic_def by (metis tranclD tranclD2)
qed

section \<open>What one call of process does\<close>

lemma process_ping:
  assumes "ev_kind ev \<noteq> KindData"
  shows "process ev e = Inr (e\<lparr>en_metrics := map_option add_ingested (en_metrics e),
     en_idle := note_event (ev_timestamp ev) (en_idle e),
     en_sessions := touch (ev_key ev) (ev_timestamp ev) (ev_value ev) False (en_sessions e)\<rparr>)"
  using assms by (simp add: process_def count_metric_def Let_def)

lemma flush_frame:
  "en_metrics (maybe_flush_deltas ev e) = en_metrics e" "en_idle (maybe_flush_deltas ev e) = en_idle e"
  "en_sessions (maybe_flush_deltas ev e) = en_sessions e" "en_router (maybe_flush_deltas ev e) = en_router e"
  "en_parts (maybe_flush_deltas ev e) = en_parts e" "en_windows (maybe_flush_deltas ev e) = en_windows e"
  "en_agg (maybe_flush_deltas ev e) = en_agg e" "en_sink (maybe_flush_deltas ev e) = en_sink e"
  "en_flush_every (maybe_flush_deltas ev e) = en_flush_every e"
  "st_applied (en_state (maybe_flush_deltas ev e)) = st_applied (en_state e)"
  "st_latest (en_state (maybe_flush_deltas ev e)) = st_latest (en_state e)"
  by (simp_all add: maybe_flush_deltas_def Let_def apply_round_def)

text \<open>Whether it flushes or not, the data and the pending deltas together grow by the event.\<close>

definition held_total :: "engine \<Rightarrow> string \<Rightarrow> int64" where
  "held_total e key = getd (st_data (en_state e)) key + getd (en_deltas e) key"

lemma flush_total:
  "held_total (maybe_flush_deltas ev e) key = held_total e key + (if key = ev_key ev then ev_value ev else 0)"
  by (simp add: held_total_def maybe_flush_deltas_def Let_def apply_round_def getd_bump algebra_simps)

lemma flush_bound:
  assumes "int (card (dom (en_deltas e))) < sint (en_flush_every e)" "0 < sint (en_flush_every e)"
  shows "int (card (dom (en_deltas (maybe_flush_deltas ev e)))) < sint (en_flush_every e)"
  using assms by (simp add: maybe_flush_deltas_def Let_def)

lemma process_data:
  assumes "ev_kind ev = KindData" "process ev e = Inr e'"
  obtains r ps out wn ag where
    "route_add (ev_key ev) (ev_value ev) (en_router e) (en_parts e) = Inr (r, ps)"
    "ingest agg_late_update ev (en_windows e, en_agg e) = Inr (out, wn, ag)"
    "e' = maybe_flush_deltas ev (e\<lparr>
       en_idle := note_event (ev_timestamp ev) (en_idle e), en_router := r, en_parts := ps,
       en_state := state_record (ev_key ev) (ev_value ev) (en_state e), en_windows := wn, en_agg := ag,
       en_metrics := map_option (\<lambda>m. (if out = OutcomeAccepted then add_aggregated else add_late_dropped) (add_ingested m))
         (en_metrics e),
       en_sessions := touch (ev_key ev) (ev_timestamp ev) (ev_value ev) True (en_sessions e),
       en_sink := snd (sink_write (ev_key ev) (ev_value ev) (en_sink e))\<rparr>)"
proof -
  from assms obtain part r ps out wn ag where
    steps: "route (ev_key ev) (en_router e) = Inr (part, r)"
      "part_add part (ev_key ev) (ev_value ev) (en_parts e) = Inr ps"
      "ingest agg_late_update ev (en_windows e, en_agg e) = Inr (out, wn, ag)"
    by (auto simp: process_def count_metric_def Let_def elim!: go_bind_InrE)
  show thesis
  proof (rule that)
    show "route_add (ev_key ev) (ev_value ev) (en_router e) (en_parts e) = Inr (r, ps)"
      using steps by (simp add: route_add_def)
    show "ingest agg_late_update ev (en_windows e, en_agg e) = Inr (out, wn, ag)" by (rule steps)
    show "e' = maybe_flush_deltas ev (e\<lparr>
       en_idle := note_event (ev_timestamp ev) (en_idle e), en_router := r, en_parts := ps,
       en_state := state_record (ev_key ev) (ev_value ev) (en_state e), en_windows := wn, en_agg := ag,
       en_metrics := map_option (\<lambda>m. (if out = OutcomeAccepted then add_aggregated else add_late_dropped) (add_ingested m))
         (en_metrics e),
       en_sessions := touch (ev_key ev) (ev_timestamp ev) (ev_value ev) True (en_sessions e),
       en_sink := snd (sink_write (ev_key ev) (ev_value ev) (en_sink e))\<rparr>)"
      using assms steps by (cases out) (simp_all add: process_def count_metric_def Let_def option.map_comp comp_def)
  qed
qed

lemma process_total:
  assumes "router_ok (en_router e) (en_parts e)" "wn_size (en_windows e) \<noteq> 0"
  shows "\<exists>e'. process ev e = Inr e'"
proof (cases "ev_kind ev = KindData")
  case False
  then show ?thesis by (simp add: process_ping)
next
  case True
  obtain r ps where "route_add (ev_key ev) (ev_value ev) (en_router e) (en_parts e) = Inr (r, ps)"
    using route_add_facts [OF assms(1)] by blast
  then obtain part where "route (ev_key ev) (en_router e) = Inr (part, r)"
      "part_add part (ev_key ev) (ev_value ev) (en_parts e) = Inr ps"
    by (auto simp: route_add_def elim!: go_bind_InrE)
  moreover obtain w where "window_for (wn_size (en_windows e)) (ev_timestamp ev) = Inr w"
    using assms(2) by (simp add: window_for_eq Let_def)
  then have "\<exists>x. ingest agg_late_update ev (en_windows e, en_agg e) = Inr x"
    by (simp add: ingest_def Let_def split: option.splits)
  then obtain out wn ag where "ingest agg_late_update ev (en_windows e, en_agg e) = Inr (out, wn, ag)"
    by (metis prod_cases3)
  ultimately show ?thesis using True by (simp add: process_def count_metric_def Let_def)
qed

text \<open>The same holds of a drain through the manager.\<close>

context applier begin

lemma ingest_same:
  assumes app: "\<And>ev w w'. app ev w = Inr w' \<Longrightarrow> view w' = view w" and upd: "\<And>f w. view (upd f w) = view w"
  shows "ingest_all (mg_process sto upd app) evs (m, w) = Inr (m', w') \<Longrightarrow> view w' = view w"
proof (induction evs arbitrary: m w)
  case (Cons ev evs)
  then obtain m1 w1 where step: "mg_process sto upd app ev (m, w) = Inr (m1, w1)"
      and rest: "ingest_all (mg_process sto upd app) evs (m1, w1) = Inr (m', w')"
    by (auto elim!: go_bind_InrE)
  have "view w1 = view w"
    using step apply_locked_same [where view = view, OF _ app upd]
    by (auto simp: mg_process_def split: if_splits elim!: go_bind_InrE)
  then show ?case using Cons.IH [OF rest] by simp
qed simp

end

interpretation en: applier en_state en_state_update process
proof
  show "en_state (en_state_update f w) = f (en_state w)" for f w by simp
  fix ev e e' assume p: "process ev e = Inr e'"
  show "st_applied (en_state e') = st_applied (en_state e)"
  proof (cases "ev_kind ev = KindData")
    case True
    show ?thesis by (rule process_data [OF True p]) (simp only: flush_frame, simp add: state_record_def)
  next
    case False
    then show ?thesis using p by (auto simp: process_ping)
  qed
qed

section \<open>The invariant of the chain\<close>

text \<open>
  What the engine shows after applying the events of \<open>log\<close>, in that order: \<open>hist\<close> are its data
  events with the outcome the windows gave them, \<open>rs\<close> the results of the triggers. The values of a
  key:
\<close>

definition data_events :: "event list \<Rightarrow> event list" where
  "data_events log = filter (\<lambda>ev. ev_kind ev = KindData) log"

definition key_total :: "string \<Rightarrow> event list \<Rightarrow> int64" where
  "key_total key log = sum_list (map ev_value (filter (\<lambda>ev. ev_key ev = key) (data_events log)))"

definition outcomes :: "ingest_outcome \<Rightarrow> (event \<times> ingest_outcome) list \<Rightarrow> nat" where
  "outcomes out hist = length (filter (\<lambda>(_, x). x = out) hist)"

definition metrics_shows :: "event list \<Rightarrow> (event \<times> ingest_outcome) list \<Rightarrow> window_result list \<Rightarrow> metrics option \<Rightarrow> bool" where
  "metrics_shows log hist rs mo \<longleftrightarrow> (case mo of None \<Rightarrow> True | Some m \<Rightarrow>
     m_ingested m = of_nat (length log) \<and> m_aggregated m = of_nat (outcomes OutcomeAccepted hist) \<and>
     m_late_dropped m = of_nat (outcomes OutcomeLate hist) \<and> m_emitted m = of_nat (length rs))"

definition sink_shows :: "event list \<Rightarrow> sink \<Rightarrow> bool" where
  "sink_shows log s \<longleftrightarrow> (\<exists>m. sink_abs (map (\<lambda>ev. (ev_key ev, ev_value ev)) (data_events log), m) s)"

definition totals_show :: "event list \<Rightarrow> engine \<Rightarrow> bool" where
  "totals_show log e \<longleftrightarrow> router_ok (en_router e) (en_parts e) \<and>
     (\<forall>key. part_total key (en_parts e) = key_total key log \<and> held_total e key = key_total key log)"

text \<open>The pending deltas only ever hold keys of the data events, fewer than eight, and as long as
  there are fewer than eight keys none was flushed.\<close>

definition data_keys :: "event list \<Rightarrow> string set" where
  "data_keys log = ev_key ` set (data_events log)"

definition deltas_show :: "event list \<Rightarrow> engine \<Rightarrow> bool" where
  "deltas_show log e \<longleftrightarrow> en_flush_every e = 8 \<and> card (dom (en_deltas e)) < 8 \<and>
     dom (en_deltas e) \<subseteq> data_keys log \<and> (card (data_keys log) < 8 \<longrightarrow> st_data (en_state e) = Map.empty)"

text \<open>The idle detector was told the time of the last event of the chain.\<close>

definition last_time :: "event list \<Rightarrow> int64" where
  "last_time log = (if log = [] then 0 else ev_timestamp (last log))"

definition chain_shows :: "int64 \<Rightarrow> event list \<Rightarrow> (event \<times> ingest_outcome) list \<Rightarrow> window_result list \<Rightarrow> engine \<Rightarrow> bool" where
  "chain_shows sz log hist rs e \<longleftrightarrow>
     map fst hist = data_events log \<and> metrics_shows log hist rs (en_metrics e) \<and>
     sink_shows log (en_sink e) \<and> totals_show log e \<and> deltas_show log e \<and>
     win_shows published untouched sz hist rs (en_windows e, en_agg e) \<and>
     catalog_shows sz hist (en_windows e) \<and> agg_ok (en_agg e) \<and>
     sessions_ok (en_sessions e) \<and> se_sessions (en_sessions e) '''' = None \<and>
     i_last_event (en_idle e) = last_time log \<and> (\<forall>ev \<in> set log. ev_key ev \<noteq> '''')"

lemma log_snoc [simp]:
  "data_events (log @ [ev]) = data_events log @ (if ev_kind ev = KindData then [ev] else [])"
  "key_total key (log @ [ev]) = key_total key log +
     (if ev_kind ev = KindData \<and> ev_key ev = key then ev_value ev else 0)"
  "outcomes out (hist @ [(ev, x)]) = outcomes out hist + (if x = out then 1 else 0)"
  by (simp_all add: data_events_def key_total_def outcomes_def)

lemma last_time_snoc [simp]: "last_time (log @ [ev]) = ev_timestamp ev"
  by (simp add: last_time_def)

lemma last_event_note [simp]: "i_last_event (note_event t d) = t"
  by (simp add: note_event_def)

lemma data_keys_snoc [simp]:
  "data_keys (log @ [ev]) = (if ev_kind ev = KindData then insert (ev_key ev) (data_keys log) else data_keys log)"
  by (simp add: data_keys_def)

lemma deltas_flush:
  assumes "deltas_show log e" "ev_kind ev = KindData"
  shows "deltas_show (log @ [ev]) (maybe_flush_deltas ev e)"
proof -
  let ?d = "bump (ev_key ev) (ev_value ev) (en_deltas e)"
  have dom: "dom ?d = insert (ev_key ev) (dom (en_deltas e))" by (auto simp: bump_def)
  have fin: "finite (data_keys log)" by (simp add: data_keys_def)
  have sub: "dom ?d \<subseteq> data_keys (log @ [ev])" using assms by (auto simp: deltas_show_def dom)
  have "card (data_keys log) \<le> card (data_keys (log @ [ev]))" using fin by (intro card_mono) auto
  moreover have "card (dom ?d) \<le> card (data_keys (log @ [ev]))" using fin sub by (intro card_mono) auto
  ultimately show ?thesis
    using assms sub by (auto simp: deltas_show_def maybe_flush_deltas_def Let_def)
qed

lemma chain_ping:
  assumes "chain_shows sz log hist rs e" "ev_kind ev \<noteq> KindData" "ev_key ev \<noteq> ''''" "process ev e = Inr e'"
  shows "chain_shows sz (log @ [ev]) hist rs e'"
proof -
  have e': "e' = e\<lparr>en_metrics := map_option add_ingested (en_metrics e),
     en_idle := note_event (ev_timestamp ev) (en_idle e),
     en_sessions := touch (ev_key ev) (ev_timestamp ev) (ev_value ev) False (en_sessions e)\<rparr>"
    using assms(2,4) by (simp add: process_ping)
  show ?thesis
    using assms(1-3)
    by (auto simp: e' chain_shows_def metrics_shows_def add_ingested_def totals_show_def held_total_def
        sink_shows_def deltas_show_def touch_elsewhere inv_intro split: option.splits)
qed

lemma chain_data:
  assumes inv: "chain_shows sz log hist rs e" and data: "ev_kind ev = KindData"
    and key: "ev_key ev \<noteq> ''''" and step: "process ev e = Inr e'"
  shows "\<exists>out. chain_shows sz (log @ [ev]) (hist @ [(ev, out)]) rs e'"
proof -
  from data step obtain r ps out wn ag where
    ra: "route_add (ev_key ev) (ev_value ev) (en_router e) (en_parts e) = Inr (r, ps)"
    and ing: "ingest agg_late_update ev (en_windows e, en_agg e) = Inr (out, wn, ag)"
    and e': "e' = maybe_flush_deltas ev (e\<lparr>
       en_idle := note_event (ev_timestamp ev) (en_idle e), en_router := r, en_parts := ps,
       en_state := state_record (ev_key ev) (ev_value ev) (en_state e), en_windows := wn, en_agg := ag,
       en_metrics := map_option (\<lambda>m. (if out = OutcomeAccepted then add_aggregated else add_late_dropped) (add_ingested m))
         (en_metrics e),
       en_sessions := touch (ev_key ev) (ev_timestamp ev) (ev_value ev) True (en_sessions e),
       en_sink := snd (sink_write (ev_key ev) (ev_value ev) (en_sink e))\<rparr>)"
    by (rule process_data)
  have metrics: "metrics_shows (log @ [ev]) (hist @ [(ev, out)]) rs (en_metrics e')"
    using inv by (cases out) (auto simp: e' flush_frame chain_shows_def metrics_shows_def add_ingested_def
        add_aggregated_def add_late_dropped_def split: option.splits)
  have "router_ok r ps \<and> (\<forall>x. part_total x ps = part_total x (en_parts e) + (if x = ev_key ev then ev_value ev else 0))"
    using inv route_add_facts [of "en_router e" "en_parts e" "ev_key ev" "ev_value ev"] ra
    by (auto simp: chain_shows_def totals_show_def)
  then have totals: "totals_show (log @ [ev]) e'"
    using inv data
    by (simp add: totals_show_def chain_shows_def e' flush_frame flush_total)
       (simp add: held_total_def state_record_def)
  have deltas: "deltas_show (log @ [ev]) e'"
    unfolding e' by (rule deltas_flush) (use inv data in \<open>simp_all add: chain_shows_def deltas_show_def state_record_def\<close>)
  have sink: "sink_shows (log @ [ev]) (en_sink e')"
  proof -
    obtain m where "sink_abs (map (\<lambda>ev. (ev_key ev, ev_value ev)) (data_events log), m) (en_sink e)"
      using inv by (auto simp: chain_shows_def sink_shows_def)
    from sink_abs_write [OF this, of "ev_key ev" "ev_value ev"] data show ?thesis
      by (auto simp: sink_shows_def e' flush_frame)
  qed
  have windows: "win_shows published untouched sz (hist @ [(ev, out)]) rs (wn, ag)"
      "catalog_shows sz (hist @ [(ev, out)]) wn"
    using inv ag.ingest_shows [OF _ ing] ingest_catalog [OF _ ing] by (simp_all add: chain_shows_def)
  have filed: "agg_ok ag" using inv ak.kept_ingest [OF _ ing] by (simp add: chain_shows_def)
  show ?thesis
    using inv metrics totals deltas sink windows filed data key
    by (intro exI [of _ out])
       (auto simp: chain_shows_def e' flush_frame touch_elsewhere inv_intro)
qed

lemma chain_process:
  assumes "chain_shows sz log hist rs e" "ev_key ev \<noteq> ''''" "process ev e = Inr e'"
  shows "\<exists>hist'. chain_shows sz (log @ [ev]) hist' rs e'"
  using chain_data [OF assms(1) _ assms(2,3)] chain_ping [OF assms(1) _ assms(2,3)]
  by (cases "ev_kind ev = KindData") blast+

section \<open>The ledger of applied offsets\<close>

text \<open>The events that went through the chain are those whose offsets the backend has marked, each
  once.\<close>

definition ledger_shows :: "int64 \<Rightarrow> event list \<Rightarrow> window_result list \<Rightarrow> engine \<Rightarrow> bool" where
  "ledger_shows sz log rs e \<longleftrightarrow> (\<exists>hist. chain_shows sz log hist rs e) \<and>
     distinct (map ev_offset log) \<and> ev_offset ` set log = st_applied (en_state e)"

lemma chain_mark: "chain_shows sz log hist rs (en_state_update (mark_applied n) e) = chain_shows sz log hist rs e"
  by (simp add: chain_shows_def totals_show_def deltas_show_def held_total_def mark_applied_def)

lemma ledger_step:
  assumes "ledger_shows sz log rs e" "ev_key ev \<noteq> ''''" "\<not> is_applied (ev_offset ev) (en_state e)"
    "process ev (en_state_update (mark_applied (ev_offset ev)) e) = Inr e'"
  shows "ledger_shows sz (log @ [ev]) rs e'"
proof -
  obtain hist where "chain_shows sz log hist rs (en_state_update (mark_applied (ev_offset ev)) e)"
    using assms(1) by (auto simp: ledger_shows_def chain_mark)
  from chain_process [OF this assms(2,4)] have "\<exists>hist'. chain_shows sz (log @ [ev]) hist' rs e'" .
  moreover have "st_applied (en_state e') = insert (ev_offset ev) (st_applied (en_state e))"
    using en.apply_keeps [OF assms(4)] by (simp add: mark_applied_def)
  ultimately show ?thesis
    using assms(1,3) by (auto simp: ledger_shows_def is_applied_def)
qed

lemma ledger_apply_locked:
  assumes "ledger_shows sz log rs e" "ev_key ev \<noteq> ''''"
    "apply_locked en_state en_state_update process ev e = Inr e'"
  shows "\<exists>log'. ledger_shows sz log' rs e' \<and> set log' \<subseteq> insert ev (set log)"
proof (cases "is_applied (ev_offset ev) (en_state e)")
  case True
  then show ?thesis using assms by (auto simp: apply_locked_def)
next
  case False
  then have "process ev (en_state_update (mark_applied (ev_offset ev)) e) = Inr e'"
    using assms(3) by (simp add: apply_locked_def)
  from ledger_step [OF assms(1,2) False this] show ?thesis by (intro exI [of _ "log @ [ev]"]) simp
qed

lemma ledger_replay:
  "ledger_shows sz log rs e \<Longrightarrow> \<forall>ev \<in> set evs. ev_key ev \<noteq> '''' \<Longrightarrow>
   replay_buffer en_state en_state_update process evs replayed e = Inr (out, e') \<Longrightarrow>
   \<exists>log'. ledger_shows sz log' rs e' \<and> set log' \<subseteq> set evs \<union> set log"
proof (induction evs arbitrary: log e replayed)
  case (Cons ev evs)
  show ?case
  proof (cases "is_applied (ev_offset ev) (en_state e)")
    case True
    then show ?thesis using Cons.IH [OF Cons.prems(1), of replayed] Cons.prems(2,3) by auto
  next
    case False
    then obtain e1 where e1: "process ev (en_state_update (mark_applied (ev_offset ev)) e) = Inr e1"
        "replay_buffer en_state en_state_update process evs (replayed @ [ev]) e1 = Inr (out, e')"
      using Cons.prems(3) by (auto elim: go_bind_InrE)
    have "ev_key ev \<noteq> ''''" using Cons.prems(2) by simp
    from ledger_step [OF Cons.prems(1) this False e1(1)] have "ledger_shows sz (log @ [ev]) rs e1" .
    from Cons.IH [OF this _ e1(2)] Cons.prems(2) show ?thesis by auto
  qed
qed auto

text \<open>A drain through the topology: a paused manager buffers everything, a running one applies.\<close>

lemma ingest_paused:
  "mg_paused m \<Longrightarrow> ingest_all topology_process evs (m, e) = Inr (m\<lparr>mg_buffer := mg_buffer m @ evs\<rparr>, e)"
  by (induction evs arbitrary: m) (simp_all add: mg_process_def)

lemma ingest_running:
  "\<not> mg_paused m \<Longrightarrow> ledger_shows sz log rs e \<Longrightarrow> \<forall>ev \<in> set evs. ev_key ev \<noteq> '''' \<Longrightarrow>
   ingest_all topology_process evs (m, e) = Inr (m', e') \<Longrightarrow>
   m' = m \<and> (\<exists>log'. ledger_shows sz log' rs e' \<and> set log' \<subseteq> set evs \<union> set log) \<and>
   st_applied (en_state e') = ev_offset ` set evs \<union> st_applied (en_state e)"
proof (induction evs arbitrary: log e)
  case (Cons ev evs)
  have "topology_process ev (m, e) = go_bind (apply_locked en_state en_state_update process ev e) (\<lambda>e. Inr (m, e))"
    using Cons.prems(1) by (simp add: mg_process_def)
  with Cons.prems(4) obtain e1 where e1: "apply_locked en_state en_state_update process ev e = Inr e1"
      "ingest_all topology_process evs (m, e1) = Inr (m', e')"
    by (auto elim!: go_bind_InrE)
  have "ev_key ev \<noteq> ''''" using Cons.prems(3) by simp
  from ledger_apply_locked [OF Cons.prems(2) this e1(1)] obtain log1
    where log1: "ledger_shows sz log1 rs e1" "set log1 \<subseteq> insert ev (set log)" by blast
  from Cons.IH [OF Cons.prems(1) log1(1) _ e1(2)] Cons.prems(3)
  have IH: "m' = m" "\<exists>log'. ledger_shows sz log' rs e' \<and> set log' \<subseteq> set evs \<union> set log1"
      "st_applied (en_state e') = ev_offset ` set evs \<union> st_applied (en_state e1)" by simp_all
  then obtain log' where log': "ledger_shows sz log' rs e'" "set log' \<subseteq> set evs \<union> set log1" by blast
  have "set log' \<subseteq> set (ev # evs) \<union> set log" using log'(2) log1(2) by auto
  then show ?case using IH log'(1) en.apply_locked_applied [OF e1(1)] by auto
qed auto

section \<open>Triggers, checkpoints and resizes\<close>

lemma count_emitted:
  "fold (\<lambda>_. count_metric add_emitted) rs e =
     e\<lparr>en_metrics := map_option (\<lambda>m. m\<lparr>m_emitted := m_emitted m + of_nat (length rs)\<rparr>) (en_metrics e)\<rparr>"
proof (induction rs arbitrary: e)
  case Nil
  then show ?case by (cases "en_metrics e") simp_all
next
  case (Cons r rs)
  then show ?case by (cases "en_metrics e") (simp_all add: count_metric_def add_emitted_def add.assoc)
qed

lemma ledger_trigger:
  assumes inv: "ledger_shows sz log rs (pl_engine p)"
    and ord: "enum_of (snd orders) (se_sessions (en_sessions (pl_engine p)))"
  shows "\<exists>rs'. ledger_shows sz log (rs @ rs') (pl_engine (trigger_on_watermark orders confirmed p))"
proof -
  let ?e = "pl_engine p"
  obtain hist where ch: "chain_shows sz log hist rs ?e" using inv by (auto simp: ledger_shows_def)
  obtain es wn ag where mt: "maybe_trigger emit_result (fst orders) (pl_tracker p) (en_windows ?e, en_agg ?e) = (es, wn, ag)"
    by (metis prod_cases3)
  obtain ss se ag' where sc: "scan_timeout emit_result (snd orders) confirmed (en_sessions ?e, ag) = (ss, se, ag')"
    by (metis prod_cases3)
  have e': "pl_engine (trigger_on_watermark orders confirmed p) =
      ?e\<lparr>en_windows := wn, en_sessions := se, en_agg := ag',
        en_metrics := map_option (\<lambda>m. m\<lparr>m_emitted := m_emitted m + of_nat (length es)\<rparr>) (en_metrics ?e)\<rparr>"
    by (simp add: trigger_on_watermark_def Let_def mt sc count_emitted)
  have "win_shows published untouched sz hist (rs @ es) (wn, ag)"
    by (rule ag.maybe_trigger_shows [OF _ mt]) (use ch in \<open>simp add: chain_shows_def\<close>)
  then have "win_shows published untouched sz hist (rs @ es) (wn, ag')"
    by (rule win_shows_frame) (rule ag.scan_timeout_frame [OF _ _ _ sc], use ch in \<open>simp_all add: chain_shows_def\<close>)
  moreover have "catalog_shows sz hist wn"
    by (rule maybe_trigger_catalog [OF _ mt]) (use ch in \<open>simp add: chain_shows_def\<close>)
  moreover have "agg_ok ag'" using ch ak.kept_scan [OF ak.kept_trigger [OF _ mt] sc] by (simp add: chain_shows_def)
  moreover have "sessions_ok se" "se_sessions se '''' = None"
    using ch sessions_ok_scan [OF _ ord sc] scan_timeout_sessions [OF ord sc] by (simp_all add: chain_shows_def)
  moreover have "metrics_shows log hist (rs @ es)
      (map_option (\<lambda>m. m\<lparr>m_emitted := m_emitted m + of_nat (length es)\<rparr>) (en_metrics ?e))"
    using ch by (auto simp: chain_shows_def metrics_shows_def split: option.splits)
  ultimately have "chain_shows sz log hist (rs @ es) (pl_engine (trigger_on_watermark orders confirmed p))"
    using ch by (simp add: e' chain_shows_def totals_show_def deltas_show_def held_total_def)
  then show ?thesis using inv by (auto simp: ledger_shows_def e')
qed

lemma run_checkpoint_engine:
  assumes "run_checkpoint offset p = Inr p'"
  shows "p' = p\<lparr>pl_coordinator := pl_coordinator p', pl_offsets := pl_offsets p',
     pl_engine := (pl_engine p)\<lparr>en_state := (en_state (pl_engine p))\<lparr>st_pending := Map.empty\<rparr>,
       en_sink := commit_up_to offset (en_sink (pl_engine p)),
       en_metrics := map_option add_checkpoint (en_metrics (pl_engine p))\<rparr>\<rparr>"
  using assms
  by (auto simp: run_checkpoint_def state_version_def state_snapshot_def Let_def cp_commit_def pl_shared_def
      put_shared_def elim!: go_bind_InrE)

lemma run_checkpoint_frame:
  assumes "run_checkpoint offset p = Inr p'"
  shows "pl_source p' = pl_source p" "pl_topology p' = pl_topology p" "pl_tracker p' = pl_tracker p"
    "st_applied (en_state (pl_engine p')) = st_applied (en_state (pl_engine p))"
    "en_sink (pl_engine p') = commit_up_to offset (en_sink (pl_engine p))"
    "lg_capacity (co_log (pl_coordinator p)) = 32 \<Longrightarrow> lg_capacity (co_log (pl_coordinator p')) = 32"
proof -
  obtain l where l: "log_append \<lparr>le_offset = offset, le_seq = st_seq (en_state (pl_engine p)), le_kind = ''commit''\<rparr>
        (co_log (pl_coordinator p)) = Inr l"
    and p': "p' = p\<lparr>pl_coordinator := (pl_coordinator p)\<lparr>co_last := offset,
        co_manifest := new_manifest (st_seq (en_state (pl_engine p))) offset, co_log := l\<rparr>,
      pl_offsets := offset_commit offset (pl_offsets p),
      pl_engine := (pl_engine p)\<lparr>en_state := (en_state (pl_engine p))\<lparr>st_pending := Map.empty\<rparr>,
       en_sink := commit_up_to offset (en_sink (pl_engine p)),
       en_metrics := map_option add_checkpoint (en_metrics (pl_engine p))\<rparr>\<rparr>"
    using assms
    by (auto simp: run_checkpoint_def state_version_def state_snapshot_def Let_def cp_commit_def pl_shared_def
        put_shared_def elim!: go_bind_InrE)
  show "pl_source p' = pl_source p" "pl_topology p' = pl_topology p" "pl_tracker p' = pl_tracker p"
    "st_applied (en_state (pl_engine p')) = st_applied (en_state (pl_engine p))"
    "en_sink (pl_engine p') = commit_up_to offset (en_sink (pl_engine p))"
    by (simp_all add: p')
  show "lg_capacity (co_log (pl_coordinator p')) = 32" if "lg_capacity (co_log (pl_coordinator p)) = 32"
    using log_append_keeps_last [of "co_log (pl_coordinator p)"] that l by (auto simp: p')
qed

lemma ledger_checkpoint:
  assumes inv: "ledger_shows sz log rs (pl_engine p)" and len: "length log < 2 ^ 63"
    and step: "run_checkpoint offset p = Inr p'"
  shows "ledger_shows sz log rs (pl_engine p')"
proof -
  let ?e = "pl_engine p"
  obtain hist where ch: "chain_shows sz log hist rs ?e" using inv by (auto simp: ledger_shows_def)
  have e': "pl_engine p' = ?e\<lparr>en_state := (en_state ?e)\<lparr>st_pending := Map.empty\<rparr>,
      en_sink := commit_up_to offset (en_sink ?e), en_metrics := map_option add_checkpoint (en_metrics ?e)\<rparr>"
    using arg_cong [OF run_checkpoint_engine [OF step], of pl_engine] by simp
  obtain m where sink: "sink_abs (map (\<lambda>ev. (ev_key ev, ev_value ev)) (data_events log), m) (en_sink ?e)"
    using ch by (auto simp: chain_shows_def sink_shows_def)
  have "length (data_events log) \<le> length log" by (simp add: data_events_def)
  then have "length (data_events log) < 2 ^ 63" using len by simp
  then have "sink_shows log (commit_up_to offset (en_sink ?e))"
    using sink_abs_commit [OF sink, of offset] by (auto simp: sink_shows_def)
  then have "chain_shows sz log hist rs (pl_engine p')"
    using ch by (auto simp: e' chain_shows_def totals_show_def deltas_show_def held_total_def metrics_shows_def
        add_checkpoint_def split: option.splits)
  then show ?thesis using inv by (auto simp: ledger_shows_def e')
qed

lemma ledger_resize:
  assumes inv: "ledger_shows sz log rs (pl_engine p)" and n: "0 < sint n"
    and ord: "list_all2 enum_of orders (p_parts (en_parts (pl_engine p)))" and step: "pl_resize orders n p = Inr p'"
  shows "ledger_shows sz log rs (pl_engine p')"
proof -
  let ?e = "pl_engine p"
  obtain hist where ch: "chain_shows sz log hist rs ?e" using inv by (auto simp: ledger_shows_def)
  then have "router_ok (en_router ?e) (en_parts ?e)" by (simp add: chain_shows_def totals_show_def)
  moreover obtain r ps where resized: "resize orders n (en_router ?e) (en_parts ?e) = Inr (r, ps)"
      and e': "pl_engine p' = ?e\<lparr>en_router := r, en_parts := ps\<rparr>"
    using step by (auto simp: pl_resize_def elim!: go_bind_InrE)
  ultimately have r: "router_ok r ps" "\<forall>x. part_total x ps = part_total x (en_parts ?e)"
    using resize_facts [OF _ n ord resized] by simp_all
  have "chain_shows sz log hist rs (pl_engine p')"
    using ch r by (simp add: e' chain_shows_def totals_show_def deltas_show_def held_total_def)
  then show ?thesis using inv by (auto simp: ledger_shows_def e')
qed

section \<open>Runs of the pipeline\<close>

text \<open>
  Any sequence of emits, advances, pauses, resumes, out-of-band applications, checkpoints, resizes,
  questions to the idle detector and retries, with any iteration orders of the maps. (What the
  callback of a retry does is a sequence of these steps of its own.) \<open>fed\<close> lists the events the pipeline was given
  and \<open>lost\<close> those the full reorder buffer evicted.
\<close>

inductive pipeline_run :: "pipeline \<Rightarrow> event list \<Rightarrow> event list \<Rightarrow> pipeline \<Rightarrow> bool" for p0 where
  pr_start: "pipeline_run p0 [] [] p0"
| pr_emit: "pipeline_run p0 (fed @ [ev]) lost' p'"
    if "pipeline_run p0 fed lost p" "ev_key ev \<noteq> ''''" "pl_emit ev p = Inr p'"
      "source_emit collect_evicted ev (pl_source p, lost) = Inr (s, lost')"
| pr_advance: "pipeline_run p0 fed lost p'"
    if "pipeline_run p0 fed lost p"
      "advance_to topology_process ts (pl_source p, pl_tracker p, (pl_topology p, pl_engine p)) = Inr (s, t, m, e)"
      "enum_of (fst orders) (wn_windows (en_windows e))" "enum_of (snd orders) (se_sessions (en_sessions e))"
      "pl_advance orders ts p = Inr p'"
| pr_pause: "pipeline_run p0 fed lost (pl_pause p)" if "pipeline_run p0 fed lost p"
| pr_resume: "pipeline_run p0 fed lost p'"
    if "pipeline_run p0 fed lost p" "enum_of order (build_adj (d_edges (mg_dag (pl_topology p))))"
      "pl_resume order p = Inr p'"
| pr_apply_now: "pipeline_run p0 (fed @ [ev]) lost p'"
    if "pipeline_run p0 fed lost p" "ev_key ev \<noteq> ''''" "pl_apply_now ev p = Inr p'"
| pr_checkpoint: "pipeline_run p0 fed lost p'"
    if "pipeline_run p0 fed lost p" "run_checkpoint offset p = Inr p'"
| pr_idle: "pipeline_run p0 fed lost (snd (pl_should_advance now p))" if "pipeline_run p0 fed lost p"
| pr_retry: "pipeline_run p0 fed lost (p\<lparr>pl_coordinator := c\<rparr>)"
    if "pipeline_run p0 fed lost p" "cp_retry offset (\<lambda>from (c, _). ((), c, ())) (pl_coordinator p, ()) = ((), c, ())"
| pr_resize: "pipeline_run p0 fed lost p'"
    if "pipeline_run p0 fed lost p" "0 < sint n" "list_all2 enum_of orders (p_parts (en_parts (pl_engine p)))"
      "pl_resize orders n p = Inr p'"

text \<open>Where the events are: applied, in the buffer of the paused topology, in the reorder buffer, or
  evicted.\<close>

definition places :: "event list \<Rightarrow> event list \<Rightarrow> pipeline \<Rightarrow> bool" where
  "places fed lost p \<longleftrightarrow>
     set (mg_buffer (pl_topology p)) \<union> set_mset (buffer_events (so_buffer (pl_source p))) \<subseteq> set fed \<and>
     (\<forall>ev \<in> set fed. is_applied (ev_offset ev) (en_state (pl_engine p)) \<or> ev \<in> set (mg_buffer (pl_topology p)) \<or>
        ev \<in># buffer_events (so_buffer (pl_source p)) \<or> ev \<in> set lost)"

definition plumbing_ok :: "manager \<Rightarrow> pipeline \<Rightarrow> bool" where
  "plumbing_ok m0 p \<longleftrightarrow> buffer_ok (so_buffer (pl_source p)) \<and> so_pending (pl_source p) = 0 \<and>
     \<not> so_stopped (pl_source p) \<and> tracker_ok (pl_tracker p) \<and> mg_dag (pl_topology p) = mg_dag m0 \<and>
     lg_capacity (co_log (pl_coordinator p)) = 32 \<and> (\<not> mg_paused (pl_topology p) \<longrightarrow> mg_buffer (pl_topology p) = [])"

definition pipeline_shows :: "int64 \<Rightarrow> manager \<Rightarrow> event list \<Rightarrow> event list \<Rightarrow> pipeline \<Rightarrow> bool" where
  "pipeline_shows sz m0 fed lost p \<longleftrightarrow> plumbing_ok m0 p \<and> places fed lost p \<and>
     (\<forall>ev \<in> set fed. ev_key ev \<noteq> '''') \<and>
     (\<exists>log rs. ledger_shows sz log rs (pl_engine p) \<and> set log \<subseteq> set fed)"

lemma source_emit_nil:
  assumes "source_emit collect_evicted ev (s, lost) = Inr (s', lost')" "buffer_ok (so_buffer s)" "\<not> so_stopped s"
  shows "source_emit None ev (s, x) = Inr (s', x) \<and>
     set_mset (buffer_events (so_buffer s')) \<subseteq> insert ev (set_mset (buffer_events (so_buffer s))) \<and>
     insert ev (set_mset (buffer_events (so_buffer s))) \<subseteq> set_mset (buffer_events (so_buffer s')) \<union> set lost' \<and>
     set lost \<subseteq> set lost' \<and> so_pending s' = so_pending s \<and> \<not> so_stopped s' \<and> buffer_ok (so_buffer s')"
proof -
  obtain b where add: "buffer_add collect_evicted ev (so_buffer s) lost = Inr (b, lost')"
      and s': "s' = s\<lparr>so_buffer := b, so_last := ev_offset ev\<rparr>"
    using assms(1,3) by (auto simp: source_emit_def elim!: go_bind_InrE)
  have nil: "buffer_add None ev (so_buffer s) x = Inr (b, x)"
    using add by (auto simp: buffer_add_def Let_def split: if_splits elim!: go_bind_InrE)
  show ?thesis
  proof (cases "int (Suc (buffer_size (so_buffer s))) \<le> sint (b_max_size (so_buffer s))")
    case True
    from buffer_add_room [OF assms(2) True, of collect_evicted ev lost] add
    have "buffer_events b = add_mset ev (buffer_events (so_buffer s))" "lost' = lost" "buffer_ok b" by auto
    then show ?thesis using nil assms(3) by (auto simp: source_emit_def s')
  next
    case False
    then have full: "sint (b_max_size (so_buffer s)) < int (Suc (buffer_size (so_buffer s)))" by simp
    obtain over where over: "lost' = lost @ [over]" "buffer_ok b"
        "add_mset over (buffer_events b) = add_mset ev (buffer_events (so_buffer s))"
      using buffer_add_full [OF assms(2) full, of collect_evicted ev lost] add by (auto simp: collect_evicted_def)
    have "set_mset (add_mset over (buffer_events b)) = set_mset (add_mset ev (buffer_events (so_buffer s)))"
      by (simp only: over(3))
    then show ?thesis using nil assms(3) over(1,2) by (auto simp: source_emit_def s')
  qed
qed

lemma shows_emit:
  assumes inv: "pipeline_shows sz m0 fed lost p" and key: "ev_key ev \<noteq> ''''" and step: "pl_emit ev p = Inr p'"
    and ev: "source_emit collect_evicted ev (pl_source p, lost) = Inr (s, lost')"
  shows "pipeline_shows sz m0 (fed @ [ev]) lost' p'"
proof -
  have "buffer_ok (so_buffer (pl_source p))" "\<not> so_stopped (pl_source p)"
    using inv by (simp_all add: pipeline_shows_def plumbing_ok_def)
  note f = source_emit_nil [OF ev this, of "()"]
  then have p': "p' = p\<lparr>pl_source := s\<rparr>" using step by (simp add: pl_emit_def)
  show ?thesis
    using inv f key unfolding pipeline_shows_def plumbing_ok_def places_def p' by auto
qed

lemma shows_apply_now:
  assumes inv: "pipeline_shows sz m0 fed lost p" and key: "ev_key ev \<noteq> ''''" and step: "pl_apply_now ev p = Inr p'"
  shows "pipeline_shows sz m0 (fed @ [ev]) lost p'"
proof -
  obtain e where e: "apply_locked en_state en_state_update process ev (pl_engine p) = Inr e"
      and p': "p' = p\<lparr>pl_topology := pl_topology p, pl_engine := e\<rparr>"
    using step by (auto simp: pl_apply_now_def apply_now_def elim!: go_bind_InrE)
  obtain log rs where log: "ledger_shows sz log rs (pl_engine p)" "set log \<subseteq> set fed"
    using inv by (auto simp: pipeline_shows_def)
  obtain log' where log': "ledger_shows sz log' rs e" "set log' \<subseteq> insert ev (set log)"
    using ledger_apply_locked [OF log(1) key e] by blast
  have sub: "set log' \<subseteq> set (fed @ [ev])" using log(2) log'(2) by auto
  have pl: "places (fed @ [ev]) lost p'"
    using inv en.apply_locked_applied [OF e] unfolding pipeline_shows_def places_def is_applied_def p' by auto
  have "plumbing_ok m0 p'" using inv by (simp add: pipeline_shows_def plumbing_ok_def p')
  with pl sub log'(1) inv key show ?thesis by (auto simp: pipeline_shows_def p')
qed

lemma shows_resume:
  assumes inv: "pipeline_shows sz m0 fed lost p" and ac: "acyclic (edge_set (mg_dag m0))"
    and ord: "enum_of order (build_adj (d_edges (mg_dag (pl_topology p))))" and step: "pl_resume order p = Inr p'"
  shows "pipeline_shows sz m0 fed lost p'"
proof -
  obtain replayed m e where r: "mg_resume en_state en_state_update process order (pl_topology p, pl_engine p) = Inr (replayed, m, e)"
      and p': "p' = p\<lparr>pl_topology := m, pl_engine := e\<rparr>"
    using step by (auto simp: pl_resume_def elim!: go_bind_InrE)
  have valid: "dag_validate order (mg_dag (pl_topology p)) = None"
    using validate_ok_iff [OF ord] ac inv by (simp add: pipeline_shows_def plumbing_ok_def)
  show ?thesis
  proof (cases "mg_paused (pl_topology p)")
    case False
    then have "m = pl_topology p" "e = pl_engine p" using r by (simp_all add: mg_resume_def)
    then have "p' = p" by (simp add: p')
    then show ?thesis using inv by simp
  next
    case True
    let ?evs = "sort_slice (\<lambda>ev. sint (ev_offset ev)) (mg_buffer (pl_topology p))"
    have replay: "replay_buffer en_state en_state_update process ?evs [] (pl_engine p) = Inr (replayed, e)"
      using r True valid by (auto simp: mg_resume_def elim!: go_bind_InrE)
    note applied = en.resume_applied [OF r True valid]
    obtain log rs where log: "ledger_shows sz log rs (pl_engine p)" "set log \<subseteq> set fed"
      using inv by (auto simp: pipeline_shows_def)
    have "\<forall>ev \<in> set ?evs. ev_key ev \<noteq> ''''" using inv by (auto simp: pipeline_shows_def places_def)
    from ledger_replay [OF log(1) this replay] obtain log'
      where log': "ledger_shows sz log' rs e" "set log' \<subseteq> set ?evs \<union> set log" by blast
    have sub: "set log' \<subseteq> set fed" using log(2) log'(2) inv by (auto simp: pipeline_shows_def places_def)
    have "places fed lost p'"
      using inv applied unfolding pipeline_shows_def places_def is_applied_def p' by auto
    moreover have "plumbing_ok m0 p'" using inv applied by (simp add: pipeline_shows_def plumbing_ok_def p')
    ultimately show ?thesis using sub log'(1) inv by (auto simp: pipeline_shows_def p')
  qed
qed

lemma trigger_frame:
  "pl_topology (trigger_on_watermark orders c p) = pl_topology p"
  "pl_source (trigger_on_watermark orders c p) = pl_source p"
  "pl_tracker (trigger_on_watermark orders c p) = pl_tracker p"
  "pl_coordinator (trigger_on_watermark orders c p) = pl_coordinator p"
  "en_state (pl_engine (trigger_on_watermark orders c p)) = en_state (pl_engine p)"
  by (simp_all add: trigger_on_watermark_def Let_def count_emitted split: prod.splits)

text \<open>An advance: the drained events go through the topology, then the trigger runs.\<close>

lemma advance_split:
  assumes inv: "pipeline_shows sz m0 fed lost p"
    and adv: "advance_to topology_process ts (pl_source p, pl_tracker p, (pl_topology p, pl_engine p)) = Inr (s, t, m, e)"
    and step: "pl_advance orders ts p = Inr p'"
  obtains evs where
    "mset evs = filter_mset (due ts) (buffer_events (so_buffer (pl_source p)))"
    "ingest_all topology_process evs (pl_topology p, pl_engine p) = Inr (m, e)"
    "buffer_events (so_buffer s) = filter_mset (\<lambda>ev. \<not> due ts ev) (buffer_events (so_buffer (pl_source p)))"
    "buffer_ok (so_buffer s)" "so_pending s = so_pending (pl_source p)" "so_stopped s = so_stopped (pl_source p)"
    "t = tracker_confirm (tracker_advance ts (pl_tracker p))"
    "p' = trigger_on_watermark orders (confirmed_of t)
       (p\<lparr>pl_source := s, pl_tracker := t, pl_topology := m, pl_engine := e\<rparr>)"
proof -
  have "buffer_ok (so_buffer (pl_source p))" "so_pending (pl_source p) = 0"
    using inv by (simp_all add: pipeline_shows_def plumbing_ok_def)
  then obtain evs rest where f: "buffer_ok rest"
      "mset evs = filter_mset (due ts) (buffer_events (so_buffer (pl_source p)))"
      "buffer_events rest = filter_mset (\<lambda>ev. \<not> due ts ev) (buffer_events (so_buffer (pl_source p)))"
      and all: "\<And>(ing :: (manager \<times> engine) ingest_fun) t w. advance_to ing ts (pl_source p, t, w) =
        go_bind (ingest_all ing evs w) (\<lambda>w'. Inr ((pl_source p)\<lparr>so_buffer := rest,
          so_drained := so_drained (pl_source p) + 1\<rparr>, tracker_confirm (tracker_advance ts t), w'))"
    using advance_to_facts [of "pl_source p" ts] by blast
  from adv have ing: "ingest_all topology_process evs (pl_topology p, pl_engine p) = Inr (m, e)"
      and st: "s = (pl_source p)\<lparr>so_buffer := rest, so_drained := so_drained (pl_source p) + 1\<rparr>"
        "t = tracker_confirm (tracker_advance ts (pl_tracker p))"
    by (auto simp: all elim!: go_bind_InrE)
  show thesis
  proof (rule that [OF f(2) ing])
    show "p' = trigger_on_watermark orders (confirmed_of t)
       (p\<lparr>pl_source := s, pl_tracker := t, pl_topology := m, pl_engine := e\<rparr>)"
      using step by (simp add: pl_advance_def adv Let_def fanout_notify_def fanout_add_def new_fanout_def
          on_watermark_confirmed_def)
  qed (use f st in simp_all)
qed

lemma shows_advance:
  assumes inv: "pipeline_shows sz m0 fed lost p"
    and adv: "advance_to topology_process ts (pl_source p, pl_tracker p, (pl_topology p, pl_engine p)) = Inr (s, t, m, e)"
    and ord: "enum_of (snd orders) (se_sessions (en_sessions e))"
    and step: "pl_advance orders ts p = Inr p'"
  shows "pipeline_shows sz m0 fed lost p'"
proof (rule advance_split [OF inv adv step])
  fix evs
  assume evs: "mset evs = filter_mset (due ts) (buffer_events (so_buffer (pl_source p)))"
    and ing: "ingest_all topology_process evs (pl_topology p, pl_engine p) = Inr (m, e)"
    and rest: "buffer_events (so_buffer s) = filter_mset (\<lambda>ev. \<not> due ts ev) (buffer_events (so_buffer (pl_source p)))"
    and s: "buffer_ok (so_buffer s)" "so_pending s = so_pending (pl_source p)" "so_stopped s = so_stopped (pl_source p)"
    and t: "t = tracker_confirm (tracker_advance ts (pl_tracker p))"
    and p': "p' = trigger_on_watermark orders (confirmed_of t)
       (p\<lparr>pl_source := s, pl_tracker := t, pl_topology := m, pl_engine := e\<rparr>)"
  let ?p1 = "p\<lparr>pl_source := s, pl_tracker := t, pl_topology := m, pl_engine := e\<rparr>"
  have seq: "set evs = {ev \<in> set_mset (buffer_events (so_buffer (pl_source p))). due ts ev}"
    using arg_cong [OF evs, of set_mset] by simp
  have sset: "set_mset (buffer_events (so_buffer s)) = {ev \<in> set_mset (buffer_events (so_buffer (pl_source p))). \<not> due ts ev}"
    by (simp add: rest)
  obtain log rs where log: "ledger_shows sz log rs (pl_engine p)" "set log \<subseteq> set fed"
    using inv by (auto simp: pipeline_shows_def)
  have keys: "\<forall>ev \<in> set evs. ev_key ev \<noteq> ''''" and fed: "set evs \<subseteq> set fed"
    using inv seq by (auto simp: pipeline_shows_def places_def)
  have tr: "tracker_ok t" using inv t by (simp add: pipeline_shows_def plumbing_ok_def inv_intro)
  have "\<exists>log'. ledger_shows sz log' rs e \<and> set log' \<subseteq> set fed \<and> places fed lost ?p1 \<and> plumbing_ok m0 ?p1"
  proof (cases "mg_paused (pl_topology p)")
    case True
    then have me: "m = (pl_topology p)\<lparr>mg_buffer := mg_buffer (pl_topology p) @ evs\<rparr>" "e = pl_engine p"
      using ing ingest_paused [OF True] by simp_all
    have "places fed lost ?p1"
      using inv fed seq sset unfolding pipeline_shows_def places_def me by auto
    moreover have "plumbing_ok m0 ?p1"
      using inv s tr True by (simp add: pipeline_shows_def plumbing_ok_def me)
    ultimately show ?thesis using log me by blast
  next
    case False
    from ingest_running [OF False log(1) keys ing] obtain log' where me: "m = pl_topology p"
        "ledger_shows sz log' rs e" "set log' \<subseteq> set evs \<union> set log"
        "st_applied (en_state e) = ev_offset ` set evs \<union> st_applied (en_state (pl_engine p))" by blast
    have "places fed lost ?p1"
      using inv seq sset me(4) unfolding pipeline_shows_def places_def is_applied_def me(1) by auto
    moreover have "plumbing_ok m0 ?p1"
      using inv s tr by (simp add: pipeline_shows_def plumbing_ok_def me)
    moreover have "set log' \<subseteq> set fed" using me(3) fed log(2) by auto
    ultimately show ?thesis using me by blast
  qed
  then obtain log' where l': "ledger_shows sz log' rs (pl_engine ?p1)" "set log' \<subseteq> set fed"
      "places fed lost ?p1" "plumbing_ok m0 ?p1" by auto
  have "enum_of (snd orders) (se_sessions (en_sessions (pl_engine ?p1)))" using ord by simp
  from ledger_trigger [OF l'(1) this] obtain rs' where
    rs': "ledger_shows sz log' (rs @ rs') (pl_engine p')" unfolding p' by blast
  have "places fed lost p'" "plumbing_ok m0 p'"
    using l'(3,4) by (simp_all add: places_def plumbing_ok_def p' trigger_frame)
  with rs' l'(2) inv show "pipeline_shows sz m0 fed lost p'" by (auto simp: pipeline_shows_def)
qed

lemma run_checkpoint_shows:
  assumes inv: "pipeline_shows sz m0 fed lost p" and len: "length fed < 2 ^ 63"
    and step: "run_checkpoint offset p = Inr p'"
  shows "pipeline_shows sz m0 fed lost p'"
proof -
  obtain log rs where log: "ledger_shows sz log rs (pl_engine p)" "set log \<subseteq> set fed"
    using inv by (auto simp: pipeline_shows_def)
  have "distinct log" using log(1) by (auto simp: ledger_shows_def distinct_map)
  then have "length log = card (set log)" by (simp add: distinct_card)
  also have "\<dots> \<le> length fed" using log(2) by (meson List.finite_set card_length card_mono le_trans)
  finally have "ledger_shows sz log rs (pl_engine p')"
    using ledger_checkpoint [OF log(1) _ step] len by simp
  moreover have "pl_source p' = pl_source p" "pl_topology p' = pl_topology p" "pl_tracker p' = pl_tracker p"
      "st_applied (en_state (pl_engine p')) = st_applied (en_state (pl_engine p))"
      "lg_capacity (co_log (pl_coordinator p')) = lg_capacity (co_log (pl_coordinator p))"
    using run_checkpoint_frame [OF step] inv by (simp_all add: pipeline_shows_def plumbing_ok_def)
  ultimately show ?thesis
    using inv log(2) by (auto simp: pipeline_shows_def plumbing_ok_def places_def is_applied_def)
qed

lemma resize_shows:
  assumes inv: "pipeline_shows sz m0 fed lost p" and n: "0 < sint n"
    and ord: "list_all2 enum_of orders (p_parts (en_parts (pl_engine p)))" and step: "pl_resize orders n p = Inr p'"
  shows "pipeline_shows sz m0 fed lost p'"
proof -
  obtain log rs where log: "ledger_shows sz log rs (pl_engine p)" "set log \<subseteq> set fed"
    using inv by (auto simp: pipeline_shows_def)
  obtain r ps where p': "p' = p\<lparr>pl_engine := (pl_engine p)\<lparr>en_router := r, en_parts := ps\<rparr>\<rparr>"
    using step by (auto simp: pl_resize_def elim!: go_bind_InrE)
  have "places fed lost p'" "plumbing_ok m0 p'"
    using inv by (simp_all add: pipeline_shows_def places_def plumbing_ok_def p')
  then show ?thesis using ledger_resize [OF log(1) n ord step] log(2) inv by (auto simp: pipeline_shows_def)
qed

lemma pipeline_run_shows:
  assumes "pipeline_run p0 fed lost p" "pipeline_shows sz m0 [] [] p0" "acyclic (edge_set (mg_dag m0))"
    "length fed < 2 ^ 63"
  shows "pipeline_shows sz m0 fed lost p"
  using assms(1,4)
proof (induction rule: pipeline_run.induct)
  case pr_start
  then show ?case using assms(2) by simp
next
  case (pr_emit fed lost p ev p' s lost')
  then show ?case using shows_emit by simp
next
  case (pr_advance fed lost p ts s t m e orders p')
  then show ?case using shows_advance by blast
next
  case (pr_pause fed lost p)
  then show ?case by (auto simp: pipeline_shows_def plumbing_ok_def places_def pl_pause_def mg_pause_def)
next
  case (pr_resume fed lost p order p')
  then show ?case using shows_resume [OF _ assms(3)] by blast
next
  case (pr_apply_now fed lost p ev p')
  then show ?case using shows_apply_now by simp
next
  case (pr_checkpoint fed lost p offset p')
  then show ?case using run_checkpoint_shows by blast
next
  case (pr_idle fed lost p now)
  then show ?case
    by (auto simp: pl_should_advance_def should_advance_def pipeline_shows_def plumbing_ok_def places_def ledger_shows_def
        chain_shows_def totals_show_def deltas_show_def held_total_def split: prod.splits)
next
  case (pr_retry fed lost p offset c)
  then show ?case
    by (auto simp: cp_retry_def pipeline_shows_def plumbing_ok_def places_def)
next
  case (pr_resize fed lost p n orders p')
  then show ?case using resize_shows by blast
qed

lemma new_pipeline_shows:
  assumes "new_pipeline cfg ms = Inr p0" "0 < sint (c_partitions cfg)" "ms = None \<or> ms = Some new_metrics"
  shows "pipeline_shows (c_window_size_ms cfg) (engine_topology (c_partitions cfg)) [] [] p0"
proof -
  obtain ps where ps: "new_partitioned_store (c_partitions cfg) = Inr ps"
      and p0: "p0 = \<lparr>pl_engine = \<lparr>en_metrics = ms, en_idle = new_idle_detector (c_idle_timeout_ms cfg),
          en_sessions = new_session_manager (c_session_timeout cfg),
          en_router = new_router (c_partitions cfg), en_parts = ps, en_state = new_state_store,
          en_windows = new_window_manager (c_window_size_ms cfg), en_agg = new_agg_store,
          en_sink = new_sink, en_deltas = Map.empty, en_flush_every = 8\<rparr>,
        pl_topology = engine_topology (c_partitions cfg),
        pl_source = new_source (new_buffer (c_buffer_size cfg)), pl_tracker = new_tracker 0,
        pl_offsets = new_offset_tracker 0, pl_coordinator = new_coordinator\<rparr>"
    using assms(1) by (auto simp: new_pipeline_def new_engine_def elim!: go_bind_InrE)
  have parts: "part_total key ps = 0" for key
    using ps by (auto simp: new_partitioned_store_def make_parts_def part_total_eq split: if_splits)
  have "plumbing_ok (engine_topology (c_partitions cfg)) p0"
    using engine_topology_facts
    by (simp add: p0 plumbing_ok_def new_source_def buffer_ok_new tracker_ok_new new_coordinator_def new_log_def)
  moreover have "places [] [] p0"
    using engine_topology_facts by (simp add: p0 places_def new_source_def new_buffer_def buffer_events_def)
  moreover have "chain_shows (c_window_size_ms cfg) [] [] [] (pl_engine p0)"
  proof -
    have "metrics_shows [] [] [] ms" using assms(3) by (auto simp: metrics_shows_def outcomes_def new_metrics_def)
    moreover have "sink_shows [] new_sink"
      using sink_abs_new by (auto simp: sink_shows_def data_events_def)
    moreover have "totals_show [] (pl_engine p0)"
      using parts new_router_ok [OF assms(2) ps]
      by (simp add: p0 totals_show_def key_total_def data_events_def held_total_def new_state_store_def)
    moreover have "deltas_show [] (pl_engine p0)"
      by (simp add: p0 deltas_show_def new_state_store_def)
    moreover have "se_sessions (new_session_manager (c_session_timeout cfg)) '''' = None"
      by (simp add: new_session_manager_def)
    ultimately show ?thesis
      using win_shows_new catalog_shows_new sessions_ok_new agg_ok_new
      by (simp add: chain_shows_def p0 data_events_def last_time_def new_idle_detector_def)
  qed
  ultimately show ?thesis
    by (auto simp: pipeline_shows_def ledger_shows_def p0 new_state_store_def intro!: exI [of _ "[]"])
qed

end
