(* ===== verification/Pipeline_Runs.thy ===== *)
theory Pipeline_Runs
  imports Pipeline
begin

text \<open>
  What holds of every run of the pipeline, from \<^verbatim>\<open>NewPipeline\<close> on:
  where each event ends up, what the partitions, the windows and the sink show, and that no
  operation panics.
\<close>

section \<open>Reachable pipelines\<close>

definition starts :: "engine_config \<Rightarrow> pipeline \<Rightarrow> bool" where
  "starts cfg p0 \<longleftrightarrow> 0 < sint (c_partitions cfg) \<and>
     (\<exists>ms. (ms = None \<or> ms = Some new_metrics) \<and> new_pipeline cfg ms = Inr p0)"

definition reached :: "engine_config \<Rightarrow> event list \<Rightarrow> event list \<Rightarrow> pipeline \<Rightarrow> bool" where
  "reached cfg fed lost p \<longleftrightarrow> length fed < 2 ^ 63 \<and> (\<exists>p0. starts cfg p0 \<and> pipeline_run p0 fed lost p)"

lemma reached_shows:
  assumes "reached cfg fed lost p"
  shows "pipeline_shows (c_window_size_ms cfg) (engine_topology (c_partitions cfg)) fed lost p"
  using assms new_pipeline_shows pipeline_run_shows [OF _ _ engine_topology_acyclic]
  unfolding reached_def starts_def by blast

lemma reached_ledger:
  assumes "reached cfg fed lost p"
  obtains log hist rs where "chain_shows (c_window_size_ms cfg) log hist rs (pl_engine p)"
    "distinct (map ev_offset log)" "ev_offset ` set log = st_applied (en_state (pl_engine p))" "set log \<subseteq> set fed"
    "places fed lost p"
  using reached_shows [OF assms] by (auto simp: pipeline_shows_def ledger_shows_def)

lemma data_events_length: "length (data_events log) \<le> length log"
  by (simp add: data_events_def)

lemma ledger_length:
  assumes "reached cfg fed lost p" "distinct (map ev_offset log)" "set log \<subseteq> set fed"
  shows "length log < 2 ^ 63"
proof -
  have "distinct log" using assms(2) by (simp add: distinct_map)
  then have "length log = card (set log)" by (simp add: distinct_card)
  also have "\<dots> \<le> card (set fed)" using assms(3) by (simp add: card_mono)
  also have "\<dots> \<le> length fed" by (rule card_length)
  finally show ?thesis using assms(1) by (simp add: reached_def)
qed

section \<open>Nothing panics\<close>

lemma replay_total:
  "ledger_shows sz log rs e \<Longrightarrow> sz \<noteq> 0 \<Longrightarrow> \<forall>ev \<in> set evs. ev_key ev \<noteq> '''' \<Longrightarrow>
   \<exists>x. replay_buffer en_state en_state_update process evs out e = Inr x"
proof (induction evs arbitrary: log e out)
  case (Cons ev evs)
  have key: "ev_key ev \<noteq> ''''" using Cons.prems(3) by simp
  show ?case
  proof (cases "is_applied (ev_offset ev) (en_state e)")
    case True
    then show ?thesis using Cons by simp
  next
    case False
    let ?e = "en_state_update (mark_applied (ev_offset ev)) e"
    have "router_ok (en_router ?e) (en_parts ?e)" "wn_size (en_windows ?e) \<noteq> 0"
      using Cons.prems(1,2) by (auto simp: ledger_shows_def chain_shows_def totals_show_def win_shows_def)
    from process_total [OF this] obtain e1 where e1: "process ev ?e = Inr e1" by blast
    from Cons.IH [OF ledger_step [OF Cons.prems(1) key False e1] Cons.prems(2), of "out @ [ev]"] Cons.prems(3)
    show ?thesis using False e1 by simp
  qed
qed simp

lemma apply_locked_total:
  assumes "ledger_shows sz log rs e" "sz \<noteq> 0"
  shows "\<exists>e'. apply_locked en_state en_state_update process ev e = Inr e'"
proof -
  let ?e = "en_state_update (mark_applied (ev_offset ev)) e"
  have "router_ok (en_router ?e) (en_parts ?e)" "wn_size (en_windows ?e) \<noteq> 0"
    using assms by (auto simp: ledger_shows_def chain_shows_def totals_show_def win_shows_def)
  from process_total [OF this, of ev] show ?thesis by (simp add: apply_locked_def)
qed

lemma ingest_total:
  "ledger_shows sz log rs e \<Longrightarrow> sz \<noteq> 0 \<Longrightarrow> \<forall>ev \<in> set evs. ev_key ev \<noteq> '''' \<Longrightarrow> \<not> mg_paused m \<Longrightarrow>
   \<exists>x. ingest_all topology_process evs (m, e) = Inr x"
proof (induction evs arbitrary: log e)
  case (Cons ev evs)
  obtain e1 where e1: "apply_locked en_state en_state_update process ev e = Inr e1"
    using apply_locked_total [OF Cons.prems(1,2)] by blast
  have "ev_key ev \<noteq> ''''" using Cons.prems(3) by simp
  from ledger_apply_locked [OF Cons.prems(1) this e1] obtain log1 where "ledger_shows sz log1 rs e1" by blast
  from Cons.IH [OF this Cons.prems(2) _ Cons.prems(4)] Cons.prems(3) e1 Cons.prems(4)
  show ?case by (simp add: mg_process_def)
qed simp

lemma emit_total: "buffer_ok (so_buffer (pl_source p)) \<Longrightarrow> \<exists>p'. pl_emit ev p = Inr p'"
  using buffer_add_total [of "so_buffer (pl_source p)" None ev "()"]
  by (auto simp: pl_emit_def source_emit_def)

lemma advance_total:
  assumes inv: "pipeline_shows sz m0 fed lost p" and sz: "sz \<noteq> 0"
  shows "\<exists>p'. pl_advance orders ts p = Inr p'"
proof -
  have "buffer_ok (so_buffer (pl_source p))" "so_pending (pl_source p) = 0"
    using inv by (simp_all add: pipeline_shows_def plumbing_ok_def)
  then obtain evs rest where f:
      "mset evs = filter_mset (due ts) (buffer_events (so_buffer (pl_source p)))"
      and all: "\<And>(ing :: (manager \<times> engine) ingest_fun) t w. advance_to ing ts (pl_source p, t, w) =
        go_bind (ingest_all ing evs w) (\<lambda>w'. Inr ((pl_source p)\<lparr>so_buffer := rest,
          so_drained := so_drained (pl_source p) + 1\<rparr>, tracker_confirm (tracker_advance ts t), w'))"
    using advance_to_facts [of "pl_source p" ts] by blast
  have "set evs \<subseteq> set fed"
    using inv arg_cong [OF f, of set_mset] by (auto simp: pipeline_shows_def places_def)
  then have keys: "\<forall>ev \<in> set evs. ev_key ev \<noteq> ''''" using inv by (auto simp: pipeline_shows_def)
  obtain log rs where log: "ledger_shows sz log rs (pl_engine p)" using inv by (auto simp: pipeline_shows_def)
  have "\<exists>x. ingest_all topology_process evs (pl_topology p, pl_engine p) = Inr x"
    using ingest_total [OF log sz keys] ingest_paused by (cases "mg_paused (pl_topology p)") auto
  then show ?thesis by (auto simp: pl_advance_def all)
qed

lemma resume_total:
  assumes inv: "pipeline_shows sz m0 fed lost p" and sz: "sz \<noteq> 0"
  shows "\<exists>p'. pl_resume order p = Inr p'"
proof -
  let ?evs = "sort_slice (\<lambda>ev. sint (ev_offset ev)) (mg_buffer (pl_topology p))"
  obtain log rs where log: "ledger_shows sz log rs (pl_engine p)" using inv by (auto simp: pipeline_shows_def)
  have "\<forall>ev \<in> set ?evs. ev_key ev \<noteq> ''''" using inv by (auto simp: pipeline_shows_def places_def)
  from replay_total [OF log sz this, of "[]"] obtain x y
    where "replay_buffer en_state en_state_update process ?evs [] (pl_engine p) = Inr (x, y)" by auto
  then show ?thesis by (auto simp: pl_resume_def mg_resume_def Let_def split: option.splits)
qed

text \<open>The operations in a state that satisfies the invariant.\<close>

lemma operations_total:
  assumes inv: "pipeline_shows sz m0 fed lost p" and sz: "sz \<noteq> 0"
  shows "\<exists>p'. pl_emit ev p = Inr p'" "\<exists>p'. pl_apply_now ev p = Inr p'"
    "\<exists>p'. pl_advance torders ts p = Inr p'" "\<exists>p'. pl_resume order p = Inr p'"
    "\<exists>p'. run_checkpoint offset p = Inr p'" "\<exists>p'. pl_restore snap offset p = Inr p'"
    "0 < sint n \<Longrightarrow> sint n \<le> max_parts \<Longrightarrow> list_all2 enum_of orders (p_parts (en_parts (pl_engine p))) \<Longrightarrow>
       \<exists>p'. pl_resize orders n p = Inr p'"
proof -
  obtain log rs where log: "ledger_shows sz log rs (pl_engine p)" using inv by (auto simp: pipeline_shows_def)
  have buf: "buffer_ok (so_buffer (pl_source p))" and cap: "lg_capacity (co_log (pl_coordinator p)) = 32"
    using inv by (simp_all add: pipeline_shows_def plumbing_ok_def)
  show "\<exists>p'. pl_emit ev p = Inr p'" by (rule emit_total [OF buf])
  show "\<exists>p'. pl_advance torders ts p = Inr p'" by (rule advance_total [OF inv sz])
  show "\<exists>p'. pl_resume order p = Inr p'" by (rule resume_total [OF inv sz])
  show "\<exists>p'. pl_apply_now ev p = Inr p'"
    using apply_locked_total [OF log sz, of ev] by (auto simp: pl_apply_now_def apply_now_def)
  show "\<exists>p'. run_checkpoint offset p = Inr p'"
    using cap by (auto simp: run_checkpoint_def state_version_def state_snapshot_def Let_def cp_commit_def
        log_append_keeps_last)
  show "\<exists>p'. pl_restore snap offset p = Inr p'"
    using cap by (auto simp: pl_restore_def Let_def cp_restore_def log_append_keeps_last)
  assume n: "0 < sint n" "sint n \<le> max_parts" and ord: "list_all2 enum_of orders (p_parts (en_parts (pl_engine p)))"
  have "router_ok (en_router (pl_engine p)) (en_parts (pl_engine p))"
    using log by (auto simp: ledger_shows_def chain_shows_def totals_show_def)
  from resize_total [OF this n ord] show "\<exists>p'. pl_resize orders n p = Inr p'" by (auto simp: pl_resize_def)
qed

text \<open>With fewer than eight data keys nothing was flushed.\<close>

lemma few_keys_empty_state:
  assumes "reached cfg fed lost p" "card (data_keys fed) < 8"
  shows "st_data (en_state (pl_engine p)) = Map.empty"
proof -
  obtain log hist rs where l: "chain_shows (c_window_size_ms cfg) log hist rs (pl_engine p)" "set log \<subseteq> set fed"
    by (rule reached_ledger [OF assms(1)])
  have "card (data_keys log) \<le> card (data_keys fed)"
    using l(2) by (intro card_mono) (auto simp: data_keys_def data_events_def)
  then show ?thesis using l(1) assms(2) by (simp add: chain_shows_def deltas_show_def)
qed

section \<open>The idle detector\<close>

text \<open>Only a question to the detector changes its counter, and nothing changes its gap.\<close>

definition idle_settings :: "pipeline \<Rightarrow> int64 \<times> int64" where
  "idle_settings p = (i_gap_ms (en_idle (pl_engine p)), i_fired (en_idle (pl_engine p)))"

text \<open>What the callback leaves alone, a drain leaves alone.\<close>

lemma drain_keeps:
  assumes keep: "\<And>ev w w'. ing ev w = Inr w' \<Longrightarrow> view w' = view w"
  shows "drain ing ts (s, w) = Inr (s', w') \<Longrightarrow> view w' = view w"
proof (induction "length (b_entries (so_buffer s))" arbitrary: s w rule: less_induct)
  case less
  show ?case
  proof (cases "\<not> buffer_empty (so_buffer s) \<and> buffer_min_timestamp (so_buffer s) \<le>s ts")
    case True
    then obtain ev b w1 where pop: "buffer_pop_min (so_buffer s) = Inr (ev, b)" and w1: "ing ev w = Inr w1"
        and rest: "drain ing ts (s\<lparr>so_buffer := b, so_pending := so_pending s\<rparr>, w1) = Inr (s', w')"
      using less.prems by (subst (asm) drain.simps) (auto simp: Let_def elim!: go_bind_InrE)
    have "view w' = view w1" by (rule less.hyps [OF _ rest]) (simp add: buffer_pop_shrinks [OF pop])
    then show ?thesis using keep [OF w1] by simp
  next
    case False
    then have "drain ing ts (s, w) = Inr (s, w)" by (subst drain.simps) auto
    then show ?thesis using less.prems by simp
  qed
qed

lemma process_idle_settings:
  assumes "process ev e = Inr e'"
  shows "(i_gap_ms (en_idle e'), i_fired (en_idle e')) = (i_gap_ms (en_idle e), i_fired (en_idle e))"
proof (cases "ev_kind ev = KindData")
  case True
  show ?thesis by (rule process_data [OF True assms]) (simp add: flush_frame note_event_def)
next
  case False
  then show ?thesis using assms by (auto simp: process_ping note_event_def)
qed

lemma trigger_idle: "en_idle (pl_engine (trigger_on_watermark orders c p)) = en_idle (pl_engine p)"
  by (simp add: trigger_on_watermark_def Let_def count_emitted split: prod.splits)

lemma advance_frame:
  assumes inv: "pipeline_shows sz m0 fed lost p" and step: "pl_advance orders ts p = Inr p'"
  shows "idle_settings p' = idle_settings p" "ts \<le>s confirmed_of (pl_tracker p')"
proof -
  obtain s t m e where adv: "advance_to topology_process ts
      (pl_source p, pl_tracker p, (pl_topology p, pl_engine p)) = Inr (s, t, m, e)"
    using step by (auto simp: pl_advance_def elim!: go_bind_InrE)
  from advance_split [OF inv adv step] obtain evs where
    ing: "ingest_all topology_process evs (pl_topology p, pl_engine p) = Inr (m, e)"
    and t: "t = tracker_confirm (tracker_advance ts (pl_tracker p))"
    and p': "p' = trigger_on_watermark orders (confirmed_of t)
       (p\<lparr>pl_source := s, pl_tracker := t, pl_topology := m, pl_engine := e\<rparr>)"
    by blast
  show "idle_settings p' = idle_settings p"
    using en.ingest_same [where view = "\<lambda>e. (i_gap_ms (en_idle e), i_fired (en_idle e))",
        OF process_idle_settings _ ing]
    by (simp add: p' trigger_idle idle_settings_def)
  show "ts \<le>s confirmed_of (pl_tracker p')"
    by (auto simp: p' trigger_frame t tracker_confirm_def tracker_advance_def confirmed_of_def word_sle_eq
        word_sless_alt split: if_splits)
qed

lemma idle_settings_kept:
  "pl_emit ev p = Inr p' \<Longrightarrow> idle_settings p' = idle_settings p"
  "pl_apply_now ev p = Inr p' \<Longrightarrow> idle_settings p' = idle_settings p"
  "pl_resume order p = Inr p' \<Longrightarrow> idle_settings p' = idle_settings p"
  "run_checkpoint offset p = Inr p' \<Longrightarrow> idle_settings p' = idle_settings p"
  "pl_resize orders n p = Inr p' \<Longrightarrow> idle_settings p' = idle_settings p"
  "idle_settings (pl_pause p) = idle_settings p"
proof -
  note same = process_idle_settings
  let ?view = "\<lambda>e. (i_gap_ms (en_idle e), i_fired (en_idle e))"
  show "idle_settings p' = idle_settings p" if "pl_apply_now ev p = Inr p'"
    using that en.apply_locked_same [where view = ?view, OF _ same]
    by (auto simp: pl_apply_now_def apply_now_def idle_settings_def elim!: go_bind_InrE)
  show "idle_settings p' = idle_settings p" if "pl_resume order p = Inr p'"
    using that en.resume_same [where view = ?view, OF _ same]
    by (auto simp: pl_resume_def idle_settings_def elim!: go_bind_InrE)
  show "idle_settings p' = idle_settings p" if step: "run_checkpoint offset p = Inr p'"
    using arg_cong [OF run_checkpoint_engine [OF step], of idle_settings] by (simp add: idle_settings_def)
qed (auto simp: pl_emit_def pl_resize_def pl_pause_def idle_settings_def elim!: go_bind_InrE)

text \<open>The last event the detector knows of is one the pipeline was given.\<close>

lemma last_event_fed:
  assumes "reached cfg fed lost p"
  shows "i_last_event (en_idle (pl_engine p)) \<in> insert 0 (ev_timestamp ` set fed)"
proof -
  obtain log hist rs where "chain_shows (c_window_size_ms cfg) log hist rs (pl_engine p)" "set log \<subseteq> set fed"
    by (rule reached_ledger [OF assms])
  then show ?thesis by (cases log rule: rev_cases) (auto simp: chain_shows_def last_time_def)
qed

section \<open>Bounds that the status relies on\<close>

text \<open>A key never sits in more than one partition, with any resizes in between.\<close>

lemma max_partitions_bound:
  assumes "reached cfg fed lost p"
  shows "max_key_partitions order p \<le> 1"
proof -
  obtain log hist rs where ch: "chain_shows (c_window_size_ms cfg) log hist rs (pl_engine p)"
    by (rule reached_ledger [OF assms])
  then have one: "partition_count key (en_parts (pl_engine p)) \<le> 1" for key
    using placed_count_le_1 [of partition_for_key "rt_partitions (en_router (pl_engine p))"]
    by (simp add: chain_shows_def totals_show_def router_ok_def)
  have "fold (\<lambda>key best. let count = partition_count key (en_parts (pl_engine p)) in if best < count then count else best)
      keys b \<le> 1" if "b \<le> 1" for keys b
    using that
  proof (induction keys arbitrary: b)
    case (Cons key keys)
    then show ?case using one [of key] by (simp add: Let_def)
  qed simp
  then show ?thesis by (simp add: max_key_partitions_def)
qed

lemma agg_summary_facts:
  assumes "agg_ok s" "enum_of order (a_results s)"
  shows "distinct (map r_window (agg_summary order s)) \<and> set (agg_summary order s) = ran (a_results s)"
proof -
  let ?rs = "map (\<lambda>w. the (a_results s w)) order"
  have ks: "set order = dom (a_results s)" "distinct order" using assms(2) by (simp_all add: enum_of_def)
  have m: "agg_summary order s = sort_slice (\<lambda>r. window_string (r_window r)) ?rs"
    using ks(1) by (simp add: agg_summary_def range_fold_collect result_snapshot_def)
  have "map r_window ?rs = order"
    using assms(1) ks(1) by (auto simp: agg_ok_def intro!: map_idI)
  then have "distinct (map r_window ?rs)" using ks(2) by simp
  moreover have "mset (map r_window (agg_summary order s)) = mset (map r_window ?rs)"
    by (simp add: m multiset.map_comp)
  ultimately have "distinct (map r_window (agg_summary order s))" by (metis mset_eq_imp_distinct_iff)
  moreover have "set ?rs = ran (a_results s)" using ks(1) by (force simp: ran_def image_iff)
  ultimately show ?thesis by (simp add: m)
qed

section \<open>Properties\<close>

text \<open>C1: whatever the interleaving of emits, advances, pauses, resumes, out-of-band applications,
  checkpoints and resizes, every event the pipeline was given was processed, waits in one of the two
  buffers, or was evicted by the full reorder buffer; no offset is processed twice; and the
  partition totals, the state together with the pending deltas, and the sink's records are exactly
  those of the processed events.\<close>

theorem pipeline_processes_exactly_once:
  assumes "reached cfg fed lost p"
  shows "\<exists>log. set log \<subseteq> set fed \<and> distinct (map ev_offset log) \<and>
     (\<forall>ev \<in> set fed. ev_offset ev \<in> ev_offset ` set log \<or> ev \<in> set (mg_buffer (pl_topology p)) \<or>
        ev \<in># buffer_events (so_buffer (pl_source p)) \<or> ev \<in> set lost) \<and>
     (\<forall>key. part_total key (en_parts (pl_engine p)) = key_total key log \<and>
        getd (st_data (en_state (pl_engine p))) key + getd (en_deltas (pl_engine p)) key = key_total key log) \<and>
     sk_committed (en_sink (pl_engine p)) @ sk_pending (en_sink (pl_engine p)) =
       numbered (map (\<lambda>ev. (ev_key ev, ev_value ev)) (data_events log))"
proof -
  obtain log hist rs where l: "chain_shows (c_window_size_ms cfg) log hist rs (pl_engine p)"
      "distinct (map ev_offset log)" "ev_offset ` set log = st_applied (en_state (pl_engine p))" "set log \<subseteq> set fed"
      "places fed lost p"
    by (rule reached_ledger [OF assms])
  have "sk_committed (en_sink (pl_engine p)) @ sk_pending (en_sink (pl_engine p)) =
      numbered (map (\<lambda>ev. (ev_key ev, ev_value ev)) (data_events log))"
    using l(1) by (auto simp: chain_shows_def sink_shows_def sink_abs_def)
  moreover have "\<forall>key. part_total key (en_parts (pl_engine p)) = key_total key log \<and>
      getd (st_data (en_state (pl_engine p))) key + getd (en_deltas (pl_engine p)) key = key_total key log"
    using l(1) by (simp add: chain_shows_def totals_show_def held_total_def)
  moreover have "\<forall>ev \<in> set fed. ev_offset ev \<in> ev_offset ` set log \<or> ev \<in> set (mg_buffer (pl_topology p)) \<or>
        ev \<in># buffer_events (so_buffer (pl_source p)) \<or> ev \<in> set lost"
    using l(5) by (simp add: places_def is_applied_def l(3))
  ultimately show ?thesis using l(2,4) by blast
qed

text \<open>C2: along the chain the windows get exactly the processed data events: with some outcome for
  each of them, an open window holds the values of the events it accepted and nothing of it is
  published, a closed one is published with their fold, and the metrics count the processed events
  and the two outcomes.\<close>

theorem pipeline_windows_fold_processed_events:
  assumes "reached cfg fed lost p"
  shows "\<exists>log hist. set log \<subseteq> set fed \<and> ev_offset ` set log = st_applied (en_state (pl_engine p)) \<and>
     map fst hist = data_events log \<and>
     (\<forall>w. w_key w = '''' \<longrightarrow> (let vs = taken (c_window_size_ms cfg) w OutcomeAccepted hist in
        case wn_windows (en_windows (pl_engine p)) w of
          None \<Rightarrow> vs = [] \<and> published (en_agg (pl_engine p)) w = None
        | Some mw \<Rightarrow> mw_values mw = vs \<and> published (en_agg (pl_engine p)) w =
            (if mw_state mw = WindowClosed then Some (window_outcome w vs) else None))) \<and>
     (\<forall>m. en_metrics (pl_engine p) = Some m \<longrightarrow>
        m_ingested m = of_nat (length log) \<and> m_aggregated m = of_nat (outcomes OutcomeAccepted hist) \<and>
        m_late_dropped m = of_nat (outcomes OutcomeLate hist))"
proof -
  obtain log hist rs where l: "chain_shows (c_window_size_ms cfg) log hist rs (pl_engine p)"
      "ev_offset ` set log = st_applied (en_state (pl_engine p))" "set log \<subseteq> set fed"
    by (rule reached_ledger [OF assms])
  have "let vs = taken (c_window_size_ms cfg) w OutcomeAccepted hist in
        case wn_windows (en_windows (pl_engine p)) w of
          None \<Rightarrow> vs = [] \<and> published (en_agg (pl_engine p)) w = None
        | Some mw \<Rightarrow> mw_values mw = vs \<and> published (en_agg (pl_engine p)) w =
            (if mw_state mw = WindowClosed then Some (window_outcome w vs) else None)"
    if "w_key w = ''''" for w
  proof -
    have "win_shows published untouched (c_window_size_ms cfg) hist rs (en_windows (pl_engine p), en_agg (pl_engine p))"
      using l(1) by (simp add: chain_shows_def)
    from win_shows_at [OF this that] show ?thesis
      using ag.untouched_unpublished [of w "en_agg (pl_engine p)"]
      by (auto simp: window_shows_def Let_def split: option.splits if_splits)
  qed
  moreover have "\<forall>m. en_metrics (pl_engine p) = Some m \<longrightarrow>
        m_ingested m = of_nat (length log) \<and> m_aggregated m = of_nat (outcomes OutcomeAccepted hist) \<and>
        m_late_dropped m = of_nat (outcomes OutcomeLate hist)"
    using l(1) by (auto simp: chain_shows_def metrics_shows_def)
  ultimately show ?thesis using l by (intro exI [of _ log] exI [of _ hist]) (simp add: chain_shows_def)
qed

text \<open>A batch of deltas is flushed once eight different keys are pending, and nothing else flushes:
  as long as the data events have fewer than eight keys, the state backend's table stays empty and
  \<^verbatim>\<open>Get\<close> finds no key.\<close>

theorem few_keys_never_reach_the_state:
  assumes "reached cfg fed lost p" and "card (data_keys fed) < 8"
  shows "state_get key (en_state (pl_engine p)) = None"
  using few_keys_empty_state [OF assms] by (simp add: state_get_def)

text \<open>The snapshot a checkpoint takes holds what was flushed only: for every key it falls short of the
  processed values by the pending delta, which no snapshot carries.\<close>

theorem checkpoint_omits_pending_deltas:
  assumes "reached cfg fed lost p"
    and "snapshot_state [[]] (en_state (pl_engine p)) = Some (snap, st)"
  shows "getd (sn_data snap) key = part_total key (en_parts (pl_engine p)) - getd (en_deltas (pl_engine p)) key"
proof -
  obtain log hist rs where "chain_shows (c_window_size_ms cfg) log hist rs (pl_engine p)"
    by (rule reached_ledger [OF assms(1)])
  then have "getd (st_data (en_state (pl_engine p))) key + getd (en_deltas (pl_engine p)) key =
      part_total key (en_parts (pl_engine p))"
    by (simp add: chain_shows_def totals_show_def held_total_def)
  moreover have "sn_data snap = st_data (en_state (pl_engine p))"
    using assms(2) by (auto simp: state_version_def state_snapshot_def Let_def split: if_splits)
  ultimately show ?thesis by (simp add: algebra_simps)
qed

text \<open>The sink numbers its records itself, so a checkpoint at a source offset commits that many records:
  when the offset is at least the number of processed events, it commits every pending record, also
  those of events with larger offsets.\<close>

theorem checkpoint_commits_by_record_count:
  assumes "reached cfg fed lost p" and "run_checkpoint offset p = Inr p'"
    and "int (card (st_applied (en_state (pl_engine p)))) \<le> sint offset"
  shows "sk_pending (en_sink (pl_engine p')) = []"
proof -
  obtain log hist rs where l: "chain_shows (c_window_size_ms cfg) log hist rs (pl_engine p)"
      "distinct (map ev_offset log)" "ev_offset ` set log = st_applied (en_state (pl_engine p))" "set log \<subseteq> set fed"
    by (rule reached_ledger [OF assms(1)])
  have "card (st_applied (en_state (pl_engine p))) = length log"
    using l(2,3) by (metis distinct_card length_map set_map)
  then have few: "length (data_events log) \<le> nat (sint offset)"
    using assms(3) data_events_length [of log] by linarith
  have len: "length (data_events log) < 2 ^ 63"
    using ledger_length [OF assms(1) l(2,4)] data_events_length [of log] by linarith
  obtain m where m: "sink_abs (map (\<lambda>ev. (ev_key ev, ev_value ev)) (data_events log), m) (en_sink (pl_engine p))"
    using l(1) by (auto simp: chain_shows_def sink_shows_def)
  have "en_sink (pl_engine p') = commit_up_to offset (en_sink (pl_engine p))"
    by (rule run_checkpoint_frame(5) [OF assms(2)])
  then show ?thesis
    using sink_abs_commit [OF m, of offset] len few by (simp add: sink_abs_def)
qed

text \<open>Pausing the topology does not hold the watermark: an advance during a pause buffers the due
  events, confirms the watermark and closes their windows without them, so that each of them is late
  when it is resumed.\<close>

theorem paused_advance_makes_due_events_late:
  assumes "reached cfg fed lost p" and "mg_paused (pl_topology p)" and "pl_advance orders ts p = Inr p'"
    and "enum_of (fst orders) (wn_windows (en_windows (pl_engine p)))"
    and "ev \<in># buffer_events (so_buffer (pl_source p))" and "due ts ev"
    and "window_for (c_window_size_ms cfg) (ev_timestamp ev) = Inr w" and "sint (w_end w) \<le> sint ts"
    and "wn_windows (en_windows (pl_engine p)) w = Some mw"
  shows "ev \<in> set (mg_buffer (pl_topology p')) \<and> sint ts \<le> sint (confirmed_of (pl_tracker p')) \<and>
     (\<exists>windows agg. ingest agg_late_update ev (en_windows (pl_engine p'), en_agg (pl_engine p')) =
        Inr (OutcomeLate, windows, agg))"
proof -
  note inv = reached_shows [OF assms(1)]
  obtain s t m e where adv: "advance_to topology_process ts
      (pl_source p, pl_tracker p, (pl_topology p, pl_engine p)) = Inr (s, t, m, e)"
    using assms(3) by (auto simp: pl_advance_def elim!: go_bind_InrE)
  show ?thesis
  proof (rule advance_split [OF inv adv assms(3)])
    fix evs
    assume evs: "mset evs = filter_mset (due ts) (buffer_events (so_buffer (pl_source p)))"
      and ing: "ingest_all topology_process evs (pl_topology p, pl_engine p) = Inr (m, e)"
      and t: "t = tracker_confirm (tracker_advance ts (pl_tracker p))"
      and p': "p' = trigger_on_watermark orders (confirmed_of t)
         (p\<lparr>pl_source := s, pl_tracker := t, pl_topology := m, pl_engine := e\<rparr>)"
    have me: "mg_buffer m = mg_buffer (pl_topology p) @ evs" "e = pl_engine p"
      using ing ingest_paused [OF assms(2)] by auto
    have "ev \<in> set evs" using assms(5,6) arg_cong [OF evs, of set_mset] by auto
    then have buffered: "ev \<in> set (mg_buffer (pl_topology p'))" by (simp add: p' trigger_frame me)
    have "tracker_ok (pl_tracker p)" using inv by (simp add: pipeline_shows_def plumbing_ok_def)
    then have confirmed: "sint ts \<le> sint (confirmed_of t)" unfolding t by (rule wm.handshake_reaches)
    obtain es wn ag where mt: "maybe_trigger emit_result (fst orders) t (en_windows e, en_agg e) = (es, wn, ag)"
      by (metis prod_cases3)
    have wn: "en_windows (pl_engine p') = wn"
      by (simp add: p' trigger_on_watermark_def Let_def mt count_emitted split: prod.splits)
    obtain log hist rs where ch: "chain_shows (c_window_size_ms cfg) log hist rs (pl_engine p)"
      by (rule reached_ledger [OF assms(1)])
    then have "mw_state mw = WindowOpen \<or> mw_state mw = WindowClosed" and sz: "wn_size (en_windows e) = c_window_size_ms cfg"
      using assms(9) by (auto simp: chain_shows_def catalog_shows_def me)
    moreover have "sint (w_end w) \<le> sint (t_confirmed t)" using confirmed assms(8) by (simp add: confirmed_of_def)
    ultimately have "wn_windows wn w = Some (mw\<lparr>mw_state := WindowClosed\<rparr>)"
      using maybe_trigger_windows(1) [OF _ mt, of w] assms(4,9)
      by (auto simp: me close_if_ended_def closes_def can_close_def)
    moreover have "wn_size wn = c_window_size_ms cfg"
      using maybe_trigger_windows(2) [OF _ mt] assms(4) sz by (simp add: me)
    ultimately have "\<exists>windows agg. ingest agg_late_update ev (wn, en_agg (pl_engine p')) = Inr (OutcomeLate, windows, agg)"
      using assms(7) by (simp add: ingest_def Let_def)
    moreover have "pl_tracker p' = t" by (simp add: p' trigger_frame)
    ultimately show ?thesis using buffered confirmed by (simp add: wn)
  qed
qed

text \<open>C24: \<^verbatim>\<open>EmittedResults\<close> lists the stored results, each once, for
  pairwise different windows, sorted by the name of the window.\<close>

theorem emitted_results_sorted_and_complete:
  assumes "reached cfg fed lost p" and "enum_of order (a_results (en_agg (pl_engine p)))"
  shows "set (emitted_results order p) = ran (a_results (en_agg (pl_engine p))) \<and>
     distinct (map r_window (emitted_results order p)) \<and>
     sorted (map (\<lambda>r. window_string (r_window r)) (emitted_results order p))"
proof -
  obtain log hist rs where "chain_shows (c_window_size_ms cfg) log hist rs (pl_engine p)"
    by (rule reached_ledger [OF assms(1)])
  then have "agg_ok (en_agg (pl_engine p))" by (simp add: chain_shows_def)
  note summary = agg_summary_facts [OF this assms(2)]
  then have e: "emitted_results order p =
      sort_slice (\<lambda>r. window_string (r_window r)) (agg_summary order (en_agg (pl_engine p)))"
    by (simp add: emitted_results_def combine_distinct_windows_identity)
  have "mset (map r_window (emitted_results order p)) = mset (map r_window (agg_summary order (en_agg (pl_engine p))))"
    by (simp add: e)
  then have "distinct (map r_window (emitted_results order p))" using summary by (metis mset_eq_imp_distinct_iff)
  moreover have "sorted (map (\<lambda>r. window_string (r_window r)) (emitted_results order p))"
    unfolding e by (rule sort_slice_facts)
  ultimately show ?thesis using summary by (simp add: e)
qed

section \<open>Witnesses\<close>

text \<open>The default configuration with a single partition, and one event applied out of band.\<close>

definition one_config :: engine_config where
  "one_config = default_config\<lparr>c_partitions := 1\<rparr>"

definition one_event :: event where
  "one_event = new_data ''k'' 5 1000 40"

lemma one_starts: "\<exists>p0. new_pipeline one_config (Some new_metrics) = Inr p0 \<and> starts one_config p0"
proof -
  have "\<exists>p0. new_pipeline one_config (Some new_metrics) = Inr p0"
    by (simp add: new_pipeline_def new_engine_def new_partitioned_store_def make_parts_def max_parts_def
        one_config_def default_config_def)
  then show ?thesis by (auto simp: starts_def one_config_def default_config_def)
qed

definition one_window :: window_id where
  "one_window = \<lparr>w_start = 0, w_end = 5000, w_key = ''''\<rparr>"

lemma one_reached:
  "\<exists>p. reached one_config [one_event] [] p \<and> mg_buffer (pl_topology p) = [] \<and>
     so_buffer (pl_source p) = new_buffer 256 \<and> \<not> so_stopped (pl_source p) \<and>
     st_applied (en_state (pl_engine p)) = {40} \<and>
     wn_windows (en_windows (pl_engine p)) = [one_window \<mapsto> \<lparr>mw_state = WindowOpen, mw_values = [5]\<rparr>] \<and>
     en_metrics (pl_engine p) = Some (add_aggregated (add_ingested new_metrics))"
proof -
  obtain p0 where p0: "new_pipeline one_config (Some new_metrics) = Inr p0" "starts one_config p0"
    using one_starts by blast
  have e0: "en_windows (pl_engine p0) = new_window_manager 5000" "en_metrics (pl_engine p0) = Some new_metrics"
      "st_applied (en_state (pl_engine p0)) = {}" "pl_source p0 = new_source (new_buffer 256)"
    using p0(1) by (auto simp: new_pipeline_def new_engine_def one_config_def default_config_def new_state_store_def
        elim!: go_bind_InrE)
  have r0: "reached one_config [] [] p0"
    using p0(2) by (auto simp: reached_def intro: pipeline_run.pr_start)
  note inv = reached_shows [OF r0]
  obtain log rs where log: "ledger_shows (c_window_size_ms one_config) log rs (pl_engine p0)"
    using inv by (auto simp: pipeline_shows_def)
  obtain e where e: "apply_locked en_state en_state_update process one_event (pl_engine p0) = Inr e"
    using apply_locked_total [OF log, of one_event] by (auto simp: one_config_def default_config_def)
  let ?p = "p0\<lparr>pl_topology := pl_topology p0, pl_engine := e\<rparr>" and ?e = "en_state_update (mark_applied 40) (pl_engine p0)"
  have step: "pl_apply_now one_event p0 = Inr ?p"
    by (simp add: pl_apply_now_def apply_now_def e)
  have reach: "reached one_config [one_event] [] ?p"
    using pipeline_run.pr_apply_now [OF pipeline_run.pr_start _ step] p0(2)
    by (auto simp: reached_def one_event_def new_data_def)
  have buffers: "mg_buffer (pl_topology p0) = []" using inv by (simp add: pipeline_shows_def places_def)
  have app: "st_applied (en_state e) = {40}"
    using en.apply_locked_applied [OF e] e0(3) by (simp add: one_event_def new_data_def)
  have "process one_event ?e = Inr e"
    using e e0(3) by (simp add: apply_locked_def is_applied_def one_event_def new_data_def)
  moreover have "ev_kind one_event = KindData" by (simp add: one_event_def new_data_def)
  ultimately have "wn_windows (en_windows e) = [one_window \<mapsto> \<lparr>mw_state = WindowOpen, mw_values = [5]\<rparr>] \<and>
      en_metrics e = Some (add_aggregated (add_ingested new_metrics))"
  proof (elim process_data)
    fix r ps out wn ag
    assume ing: "ingest agg_late_update one_event (en_windows ?e, en_agg ?e) = Inr (out, wn, ag)"
      and e': "e = maybe_flush_deltas one_event (?e\<lparr>
       en_idle := note_event (ev_timestamp one_event) (en_idle ?e), en_router := r, en_parts := ps,
       en_state := state_record (ev_key one_event) (ev_value one_event) (en_state ?e), en_windows := wn, en_agg := ag,
       en_metrics := map_option (\<lambda>m. (if out = OutcomeAccepted then add_aggregated else add_late_dropped) (add_ingested m))
         (en_metrics ?e),
       en_sessions := touch (ev_key one_event) (ev_timestamp one_event) (ev_value one_event) True (en_sessions ?e),
       en_sink := snd (sink_write (ev_key one_event) (ev_value one_event) (en_sink ?e))\<rparr>)"
    have w: "window_for 5000 1000 = Inr one_window" unfolding one_window_def by code_simp
    have "wn_windows wn = [one_window \<mapsto> \<lparr>mw_state = WindowOpen, mw_values = [5]\<rparr>] \<and> out = OutcomeAccepted"
      using ing e0(1) w by (auto simp: ingest_def Let_def new_window_manager_def one_event_def new_data_def)
    then show ?thesis using e0(2) by (simp add: e' flush_frame)
  qed
  then show ?thesis using reach buffers app e0(4)
    by (intro exI [of _ ?p]) (simp add: new_source_def)
qed

theorem pipeline_processes_exactly_once_witness:
  "\<exists>p. reached one_config [one_event] [] p \<and> part_total ''k'' (en_parts (pl_engine p)) = 5"
proof -
  obtain p where p: "reached one_config [one_event] [] p" "mg_buffer (pl_topology p) = []"
      "so_buffer (pl_source p) = new_buffer 256"
    using one_reached by blast
  then have "buffer_events (so_buffer (pl_source p)) = {#}" by (simp add: new_buffer_def buffer_events_def)
  then obtain log where log: "set log \<subseteq> {one_event}" "distinct (map ev_offset log)"
      "ev_offset one_event \<in> ev_offset ` set log" "part_total ''k'' (en_parts (pl_engine p)) = key_total ''k'' log"
    using pipeline_processes_exactly_once [OF p(1)] p(2) by auto
  then have "one_event \<in> set log" "distinct log" by (auto simp: distinct_map)
  then have "log = [one_event]" using log(1) by (cases log; cases "tl log") auto
  then have "key_total ''k'' log = 5"
    by (simp add: key_total_def data_events_def one_event_def new_data_def)
  then show ?thesis using p(1) log(4) by auto
qed

theorem pipeline_windows_fold_processed_events_witness:
  "\<exists>p hist. reached one_config [one_event] [] p \<and> taken 5000 one_window OutcomeAccepted hist = [5] \<and>
     m_aggregated (add_aggregated (add_ingested new_metrics)) = of_nat (outcomes OutcomeAccepted hist)"
proof -
  obtain p where p: "reached one_config [one_event] [] p"
      "wn_windows (en_windows (pl_engine p)) = [one_window \<mapsto> \<lparr>mw_state = WindowOpen, mw_values = [5]\<rparr>]"
      "en_metrics (pl_engine p) = Some (add_aggregated (add_ingested new_metrics))"
    using one_reached by blast
  have "w_key one_window = ''''" "c_window_size_ms one_config = 5000"
    by (simp_all add: one_window_def one_config_def default_config_def)
  then obtain hist where hist: "taken 5000 one_window OutcomeAccepted hist = [5]"
      "m_aggregated (add_aggregated (add_ingested new_metrics)) = of_nat (outcomes OutcomeAccepted hist)"
    using pipeline_windows_fold_processed_events [OF p(1)] p(2,3) by (auto simp: Let_def split: option.splits)
  then show ?thesis using p(1) by (intro exI conjI)
qed

theorem few_keys_never_reach_the_state_witness:
  "\<exists>p. reached one_config [one_event] [] p \<and> state_get ''k'' (en_state (pl_engine p)) = None"
proof -
  obtain p where p: "reached one_config [one_event] [] p" using one_reached by blast
  have "card (data_keys [one_event]) < 8"
    by (simp add: data_keys_def data_events_def one_event_def new_data_def)
  then show ?thesis using few_keys_never_reach_the_state [OF p, of "''k''"] p by blast
qed

theorem checkpoint_omits_pending_deltas_witness:
  "\<exists>p snap. reached one_config [one_event] [] p \<and> (\<exists>st. snapshot_state [[]] (en_state (pl_engine p)) = Some (snap, st)) \<and>
     getd (sn_data snap) ''k'' = part_total ''k'' (en_parts (pl_engine p)) - getd (en_deltas (pl_engine p)) ''k''"
proof -
  obtain p where p: "reached one_config [one_event] [] p" using one_reached by blast
  obtain snap st where s: "snapshot_state [[]] (en_state (pl_engine p)) = Some (snap, st)"
    by (simp add: state_version_def state_snapshot_def Let_def)
  show ?thesis using checkpoint_omits_pending_deltas [OF p s, of "''k''"] p s by blast
qed

theorem checkpoint_commits_by_record_count_witness:
  "\<exists>p p'. reached one_config [one_event] [] p \<and> sint (ev_offset one_event) = 40 \<and> run_checkpoint 1 p = Inr p' \<and>
     sk_pending (en_sink (pl_engine p')) = []"
proof -
  obtain p where p: "reached one_config [one_event] [] p" "st_applied (en_state (pl_engine p)) = {40}"
    using one_reached by blast
  have "lg_capacity (co_log (pl_coordinator p)) = 32"
    using reached_shows [OF p(1)] by (simp add: pipeline_shows_def plumbing_ok_def)
  then have "\<exists>p'. run_checkpoint 1 p = Inr p'"
    by (auto simp: run_checkpoint_def state_version_def state_snapshot_def Let_def cp_commit_def log_append_keeps_last)
  then obtain p' where p': "run_checkpoint 1 p = Inr p'" by blast
  then show ?thesis
    using checkpoint_commits_by_record_count [OF p(1) p'] p by (auto simp: one_event_def new_data_def)
qed

theorem emitted_results_sorted_and_complete_witness:
  "\<exists>p order. reached one_config [] [] p \<and> set (emitted_results order p) = ran (a_results (en_agg (pl_engine p)))"
proof -
  obtain p0 where p0: "new_pipeline one_config (Some new_metrics) = Inr p0" "starts one_config p0"
    using one_starts by blast
  have r0: "reached one_config [] [] p0"
    using p0(2) by (auto simp: reached_def intro: pipeline_run.pr_start)
  have "enum_of [] (a_results (en_agg (pl_engine p0)))"
    using p0(1) by (auto simp: new_pipeline_def new_engine_def new_agg_store_def enum_of_def elim!: go_bind_InrE)
  from emitted_results_sorted_and_complete [OF r0 this] r0 show ?thesis by blast
qed

text \<open>A second event of the open window waits in the reorder buffer while the topology is paused.\<close>

definition two_event :: event where
  "two_event = new_data ''k'' 7 2000 41"

theorem paused_advance_makes_due_events_late_witness:
  "\<exists>p p'. reached one_config [one_event, two_event] [] p \<and> pl_advance ([one_window], []) 9000 p = Inr p' \<and>
     two_event \<in> set (mg_buffer (pl_topology p')) \<and>
     (\<exists>windows agg. ingest agg_late_update two_event (en_windows (pl_engine p'), en_agg (pl_engine p')) =
        Inr (OutcomeLate, windows, agg))"
proof -
  obtain p where p: "reached one_config [one_event] [] p"
      "so_buffer (pl_source p) = new_buffer 256" "\<not> so_stopped (pl_source p)"
      "wn_windows (en_windows (pl_engine p)) = [one_window \<mapsto> \<lparr>mw_state = WindowOpen, mw_values = [5]\<rparr>]"
    using one_reached by blast
  let ?s = "(pl_source p)\<lparr>so_buffer := (new_buffer 256)\<lparr>b_entries := [two_event]\<rparr>, so_last := 41\<rparr>"
  have em: "source_emit f two_event (pl_source p, x) = Inr (?s, x)" for f :: "'x overflow" and x
    using p(2,3) by (simp add: source_emit_def buffer_add_def new_buffer_def heap_push_def heap_up.simps [of _ 0] Let_def
        two_event_def new_data_def)
  let ?p = "pl_pause (p\<lparr>pl_source := ?s\<rparr>)"
  have emit: "pl_emit two_event p = Inr (p\<lparr>pl_source := ?s\<rparr>)" by (simp add: pl_emit_def em)
  have key: "ev_key two_event \<noteq> ''''" by (simp add: two_event_def new_data_def)
  have r: "reached one_config [one_event, two_event] [] ?p"
  proof -
    obtain p0 where "starts one_config p0" "pipeline_run p0 [one_event] [] p"
      using p(1) by (auto simp: reached_def)
    moreover from this(2) have "pipeline_run p0 ([one_event] @ [two_event]) [] ?p"
      by (rule pipeline_run.pr_pause [OF pipeline_run.pr_emit [OF _ key emit em]])
    ultimately show ?thesis by (auto simp: reached_def)
  qed
  obtain p' where p': "pl_advance ([one_window], []) 9000 ?p = Inr p'"
    using advance_total [OF reached_shows [OF r], of "([one_window], [])" 9000]
    by (auto simp: one_config_def default_config_def)
  have "two_event \<in> set (mg_buffer (pl_topology p')) \<and> sint (9000 :: int64) \<le> sint (confirmed_of (pl_tracker p')) \<and>
     (\<exists>windows agg. ingest agg_late_update two_event (en_windows (pl_engine p'), en_agg (pl_engine p')) =
        Inr (OutcomeLate, windows, agg))"
  proof (rule paused_advance_makes_due_events_late [OF r _ p'])
    show "window_for (c_window_size_ms one_config) (ev_timestamp two_event) = Inr one_window"
      unfolding one_window_def by code_simp
  qed (use p in \<open>simp_all add: pl_pause_def mg_pause_def enum_of_def buffer_events_def due_def event_time_def
      two_event_def new_data_def one_window_def\<close>)
  then show ?thesis using r p' by blast
qed

end
