(* ===== verification/Status.thy ===== *)
theory Status
  imports Pipeline_Runs
begin

text \<open>
  \<^verbatim>\<open>Pipeline.Status\<close>: the reading of all components that the monitoring page
  shows, and how its numbers balance in every reachable state.
\<close>

section \<open>The readings of single components\<close>

definition window_kind :: "window_manager \<Rightarrow> window_type" where
  "window_kind m = wn_kind m"

definition window_catalog :: "window_id list \<Rightarrow> window_manager \<Rightarrow> catalog_entry list" where
  "window_catalog order m = catalog_summary order (wn_catalog m)"

definition last_committed :: "coordinator \<Rightarrow> int64" where
  "last_committed c = co_last c"

definition mg_is_paused :: "manager \<Rightarrow> bool" where
  "mg_is_paused m = mg_paused m"

definition committed_offset :: "offset_tracker \<Rightarrow> int64" where
  "committed_offset o' = of_committed o'"

definition retry_attempts :: "coordinator \<Rightarrow> int64" where
  "retry_attempts c = co_attempts c"

definition last_manifest :: "coordinator \<Rightarrow> manifest" where
  "last_manifest c = co_manifest c"

section \<open>The status\<close>

text \<open>One field per key of the map, in the code's order; its \<^verbatim>\<open>any\<close> values
  have different types.\<close>

record engine_status =
  sa_watermark :: watermark
  sa_watermark_current :: int64
  sa_windows :: "string \<rightharpoonup> string"
  sa_window_kind :: string
  sa_sessions :: "string \<rightharpoonup> string"
  sa_sink :: "string \<rightharpoonup> int64"
  sa_sink_pending :: nat
  sa_sink_committed :: nat
  sa_sink_records :: nat
  sa_sink_last_seq :: int64
  sa_state_keys :: nat
  sa_state_applied :: nat
  sa_partitions :: partition_state
  sa_max_key_partitions :: nat
  sa_key_total :: int64
  sa_operators :: "string \<rightharpoonup> string"
  sa_node_window :: "string \<rightharpoonup> string"
  sa_dag :: string
  sa_buffered :: nat
  sa_paused :: bool
  sa_open_windows :: nat
  sa_session_count :: nat
  sa_session_active :: bool
  sa_result_count :: nat
  sa_emitted_results :: nat
  sa_drained :: int64
  sa_source_last_offset :: int64
  sa_watermark_lag :: int64
  sa_metrics :: "string \<rightharpoonup> int64"
  sa_last_offset :: int64
  sa_idle_fired :: int64
  sa_checkpoint_log :: "log_entry list"
  sa_checkpoint_attempts :: int64
  sa_last_manifest :: manifest
  sa_window_catalog :: "catalog_entry list"
  sa_backpressure :: bool

text \<open>The iteration orders of the maps that are read.\<close>

record status_orders =
  ro_keys :: "string list"
  ro_windows :: "window_id list"
  ro_sessions :: "string list"
  ro_results :: "window_id list"
  ro_catalog :: "window_id list"

text \<open>The metrics are the one component that is read without a nil check.\<close>

definition status :: "status_orders \<Rightarrow> pipeline \<Rightarrow> engine_status go" where
  "status orders p =
     (let e = pl_engine p; max_partitions = max_key_partitions (ro_keys orders) p
      in case en_metrics e of
           None \<Rightarrow> Inl NilDereference
         | Some ms \<Rightarrow> Inr
             \<lparr>sa_watermark = tracker_snapshot (pl_tracker p),
              sa_watermark_current = current_of (pl_tracker p),
              sa_windows = window_snapshot (ro_windows orders) (en_windows e),
              sa_window_kind = window_type_string (window_kind (en_windows e)),
              sa_sessions = session_snapshot (ro_sessions orders) (en_sessions e),
              sa_sink = sink_snapshot (en_sink e),
              sa_sink_pending = pending_count (en_sink e),
              sa_sink_committed = committed_count (en_sink e),
              sa_sink_records = length (committed_records (en_sink e)),
              sa_sink_last_seq = last_committed_seq (en_sink e),
              sa_state_keys = latest_count (en_state e),
              sa_state_applied = applied_count (en_state e),
              sa_partitions = routing_state (en_router e),
              sa_max_key_partitions = max_partitions,
              sa_key_total = part_total ''checkout'' (en_parts e),
              sa_operators = instance_states (pl_topology p),
              sa_node_window = node_info ''window-aggregate'' (pl_topology p),
              sa_dag = mg_describe (pl_topology p),
              sa_buffered = buffered_count (pl_topology p),
              sa_paused = mg_is_paused (pl_topology p),
              sa_open_windows = open_count (ro_windows orders) (en_windows e),
              sa_session_count = session_count (en_sessions e),
              sa_session_active = is_active ''checkout'' (en_sessions e),
              sa_result_count = agg_result_count (en_agg e),
              sa_emitted_results = length (emitted_results (ro_results orders) p),
              sa_drained = drained_count (pl_source p),
              sa_source_last_offset = last_offset (pl_source p),
              sa_watermark_lag = tracker_lag (pl_tracker p),
              sa_metrics = metrics_snapshot ms,
              sa_last_offset = committed_offset (pl_offsets p),
              sa_idle_fired = idle_fired (en_idle e),
              sa_checkpoint_log = recent_log (pl_coordinator p),
              sa_checkpoint_attempts = retry_attempts (pl_coordinator p),
              sa_last_manifest = last_manifest (pl_coordinator p),
              sa_window_catalog = window_catalog (ro_catalog orders) (en_windows e),
              sa_backpressure = backpressure (en_sink e)\<rparr>)"

section \<open>Properties\<close>

lemma outcomes_total: "outcomes OutcomeAccepted hist + outcomes OutcomeLate hist = length hist"
proof (induction hist)
  case (Cons x hist)
  obtain ev out where x: "x = (ev, out)" by (cases x)
  show ?case using Cons.IH by (cases out) (simp_all add: x outcomes_def)
qed (simp add: outcomes_def)

text \<open>C23: the numbers of the status page balance in every reachable state: every applied offset was
  counted as ingested; aggregated and late events together are the sink's records, committed ones and
  pending ones; and \<^verbatim>\<open>Status\<close> fails only for a pipeline without metrics, by a nil
  dereference.\<close>

theorem status_balances:
  assumes "reached cfg fed lost p"
  shows "case status orders p of
     Inl panic \<Rightarrow> en_metrics (pl_engine p) = None \<and> panic = NilDereference
   | Inr st \<Rightarrow> sa_metrics st ''ingested'' = Some (of_nat (sa_state_applied st)) \<and>
       (\<exists>agg late. sa_metrics st ''aggregated'' = Some agg \<and> sa_metrics st ''late_dropped'' = Some late \<and>
          agg + late = of_nat (sa_sink_committed st + sa_sink_pending st)) \<and>
       sa_sink_records st = sa_sink_committed st \<and> sint (sa_sink_last_seq st) = int (sa_sink_committed st) \<and>
       sa_max_key_partitions st \<le> 1"
proof (cases "en_metrics (pl_engine p)")
  case None
  then show ?thesis by (simp add: status_def Let_def)
next
  case (Some ms)
  obtain log hist rs where l: "chain_shows (c_window_size_ms cfg) log hist rs (pl_engine p)"
      "distinct (map ev_offset log)" "ev_offset ` set log = st_applied (en_state (pl_engine p))" "set log \<subseteq> set fed"
    by (rule reached_ledger [OF assms])
  let ?sink = "en_sink (pl_engine p)" and ?recs = "map (\<lambda>ev. (ev_key ev, ev_value ev)) (data_events log)"
  have applied: "card (st_applied (en_state (pl_engine p))) = length log"
    using l(2,3) by (metis distinct_card length_map set_map)
  have hist: "length hist = length (data_events log)"
    using l(1) by (metis chain_shows_def length_map)
  have len: "length ?recs < 2 ^ 63"
    using ledger_length [OF assms l(2,4)] data_events_length [of log] by simp
  obtain m where m: "sink_abs (?recs, m) ?sink"
    using l(1) by (auto simp: chain_shows_def sink_shows_def)
  have "committed_count ?sink + pending_count ?sink = length (data_events log)" "committed_count ?sink = m"
    using m by (auto simp: sink_abs_def committed_count_def pending_count_def)
  moreover have "length (committed_records ?sink) = committed_count ?sink"
    using sink_abs_sorted [OF m len] by (simp add: committed_count_def)
  moreover have "sint (last_committed_seq ?sink) = int m" by (rule sink_abs_last [OF m len])
  moreover have "m_ingested ms = of_nat (length log)" "m_aggregated ms = of_nat (outcomes OutcomeAccepted hist)"
      "m_late_dropped ms = of_nat (outcomes OutcomeLate hist)"
    using l(1) Some by (simp_all add: chain_shows_def metrics_shows_def)
  moreover have "max_key_partitions (ro_keys orders) p \<le> 1" by (rule max_partitions_bound [OF assms])
  ultimately show ?thesis
    using outcomes_total [of hist] hist applied Some
    by (simp add: status_def Let_def metrics_snapshot_def applied_count_def flip: of_nat_add)
qed

theorem status_balances_witness:
  "\<exists>p st. reached one_config [one_event] [] p \<and> status \<lparr>ro_keys = [''k''], ro_windows = [one_window],
     ro_sessions = [''k''], ro_results = [], ro_catalog = [one_window]\<rparr> p = Inr st \<and>
     sa_metrics st ''ingested'' = Some 1"
proof -
  let ?o = "\<lparr>ro_keys = [''k''], ro_windows = [one_window], ro_sessions = [''k''], ro_results = [],
    ro_catalog = [one_window]\<rparr>"
  obtain p where p: "reached one_config [one_event] [] p" "st_applied (en_state (pl_engine p)) = {40}"
      "en_metrics (pl_engine p) = Some (add_aggregated (add_ingested new_metrics))"
    using one_reached by blast
  then obtain st where st: "status ?o p = Inr st" by (simp add: status_def Let_def)
  then have "sa_state_applied st = 1" using p(2,3) by (auto simp: status_def Let_def applied_count_def)
  then have "sa_metrics st ''ingested'' = Some 1"
    using status_balances [OF p(1), of ?o] st by simp
  then show ?thesis using p(1) st by blast
qed

section \<open>No panics\<close>

text \<open>C12: in every reachable state of a pipeline whose window size is not zero no operation panics, whatever
  the orders of the maps: neither accepting an event, an advance, a resume, an out-of-band application, a
  checkpoint, a restore, a resize to a positive count that a slice can have, nor, when there are metrics, the
  reading of the status. (Pausing, retrying and asking the idle detector cannot fail.)\<close>

theorem pipeline_never_panics:
  assumes "reached cfg fed lost p" and "c_window_size_ms cfg \<noteq> 0" and "0 < sint n" and "sint n \<le> max_parts"
    and "list_all2 enum_of orders (p_parts (en_parts (pl_engine p)))"
  shows "(\<exists>p'. pl_emit ev p = Inr p') \<and> (\<exists>p'. pl_advance torders ts p = Inr p') \<and>
     (\<exists>p'. pl_resume order p = Inr p') \<and> (\<exists>p'. pl_apply_now ev p = Inr p') \<and>
     (\<exists>p'. pl_resize orders n p = Inr p') \<and> (\<exists>p'. run_checkpoint offset p = Inr p') \<and>
     (\<exists>p'. pl_restore snap offset p = Inr p') \<and>
     (en_metrics (pl_engine p) \<noteq> None \<longrightarrow> (\<exists>st. status so p = Inr st))"
proof -
  have "\<exists>st. status so p = Inr st" if "en_metrics (pl_engine p) \<noteq> None"
    using that by (auto simp: status_def Let_def)
  then show ?thesis
    using operations_total [OF reached_shows [OF assms(1)] assms(2)] assms(3-5) by blast
qed

theorem pipeline_never_panics_witness:
  "\<exists>p. reached one_config [] [] p \<and> (\<exists>p'. pl_advance ([], []) 9000 p = Inr p') \<and>
     (\<exists>p'. pl_resize [[]] 3 p = Inr p')"
proof -
  obtain p0 where p0: "new_pipeline one_config (Some new_metrics) = Inr p0" "starts one_config p0"
    using one_starts by blast
  have r0: "reached one_config [] [] p0"
    using p0(2) by (auto simp: reached_def intro: pipeline_run.pr_start)
  have "p_parts (en_parts (pl_engine p0)) = [Map.empty]"
    using p0(1) by (auto simp: new_pipeline_def new_engine_def one_config_def default_config_def
        new_partitioned_store_def make_parts_def max_parts_def elim!: go_bind_InrE)
  then have ord: "list_all2 enum_of [[]] (p_parts (en_parts (pl_engine p0)))" by (simp add: enum_of_def)
  have cfg: "c_window_size_ms one_config \<noteq> 0" by (simp add: one_config_def default_config_def)
  have n: "0 < sint (3 :: int64)" "sint (3 :: int64) \<le> max_parts" by (simp_all add: max_parts_def)
  show ?thesis using pipeline_never_panics [OF r0 cfg n ord] r0 by blast
qed

end
