(* ===== verification/Demo.thy ===== *)
theory Demo
  imports Pipeline_Runs Generator
begin

text \<open>
  \<^verbatim>\<open>cmd/streamengine/demo.go\<close>: the feed that drives the pipeline, one tick
  of its timer at a time. Every tick is a sequence of calls that the round number selects.
\<close>

section \<open>Start-up\<close>

text \<open>\<^verbatim>\<open>main\<close>: the flags replace three fields of the default configuration; an
  invalid one ends the process with the error, \<open>Inl\<close>.\<close>

definition flag_config :: "int64 \<Rightarrow> int64 \<Rightarrow> int64 \<Rightarrow> engine_config" where
  "flag_config window_ms session_ms partitions =
     default_config\<lparr>c_window_size_ms := window_ms, c_session_timeout := session_ms, c_partitions := partitions\<rparr>"

definition start_engine :: "int64 \<Rightarrow> int64 \<Rightarrow> int64 \<Rightarrow> string + pipeline go" where
  "start_engine window_ms session_ms partitions =
     (let cfg = flag_config window_ms session_ms partitions
      in case validate_config cfg of
           Some err \<Rightarrow> Inl err
         | None \<Rightarrow> Inr (new_pipeline cfg (Some new_metrics)))"

section \<open>The calls of a tick\<close>

text \<open>The iteration orders of the maps that a call ranges over.\<close>

record call_orders =
  fo_windows :: "window_id list"
  fo_sessions :: "string list"
  fo_graph :: "string list"
  fo_parts :: "string list list"

datatype feed_call = CallEmit | CallAdvance int64 | CallCheckpoint int64 | CallPauseApply | CallResume
  | CallResize | CallRetry int64 | CallIdle int64

definition other_count :: "int64 \<Rightarrow> int64" where
  "other_count partitions = (if partitions = 2 then 4 else 2)"

text \<open>The replay callback of the retry rewinds the generator to the last committed offset; the feed
  then skips to where it was.\<close>

fun make_call :: "call_orders \<Rightarrow> event \<Rightarrow> feed_call \<Rightarrow> pipeline \<times> generator \<Rightarrow> (pipeline \<times> generator) go" where
  "make_call os ev CallEmit (p, g) = go_bind (pl_emit ev p) (\<lambda>p. Inr (p, g))"
| "make_call os ev (CallAdvance ts) (p, g) =
     go_bind (pl_advance (fo_windows os, fo_sessions os) ts p) (\<lambda>p. Inr (p, g))"
| "make_call os ev (CallCheckpoint offset) (p, g) = go_bind (run_checkpoint offset p) (\<lambda>p. Inr (p, g))"
| "make_call os ev CallPauseApply (p, g) = go_bind (pl_apply_now ev (pl_pause p)) (\<lambda>p. Inr (p, g))"
| "make_call os ev CallResume (p, g) = go_bind (pl_resume (fo_graph os) p) (\<lambda>p. Inr (p, g))"
| "make_call os ev CallResize (p, g) =
     go_bind (pl_resize (fo_parts os) (other_count (partitions_now (en_router (pl_engine p)))) p) (\<lambda>p. Inr (p, g))"
| "make_call os ev (CallRetry offset) (p, g) =
     (case cp_retry (offset - 3) (\<lambda>from (c, g). ((), c, replay_from from g)) (pl_coordinator p, g) of
        (_, c, g) \<Rightarrow> Inr (p\<lparr>pl_coordinator := c\<rparr>, skip_to offset g))"
| "make_call os ev (CallIdle now) (p, g) =
     (case pl_should_advance now p of ((ts, idle), p) \<Rightarrow>
        if idle then go_bind (pl_advance (fo_windows os, fo_sessions os) ts p) (\<lambda>p. Inr (p, g)) else Inr (p, g))"

definition every :: "int64 \<Rightarrow> int64 \<Rightarrow> int64 \<Rightarrow> bool" where
  "every n r round \<longleftrightarrow> go_mod round n = Inr r"

definition tick_last :: "int64 \<Rightarrow> event \<Rightarrow> int64" where
  "tick_last round ev = (if every 3 0 round then ev_timestamp ev + 300 else ev_timestamp ev)"

definition tick_calls :: "int64 \<Rightarrow> event \<Rightarrow> feed_call list" where
  "tick_calls round ev =
     (let offset = ev_offset ev + 1
      in [CallEmit] @
         (if every 3 0 round then [CallAdvance (ev_timestamp ev + 300)] else []) @
         (if every 17 0 round then [CallCheckpoint offset] else []) @
         (if every 29 0 round then [CallPauseApply] else []) @
         (if every 29 7 round then [CallResume] else []) @
         (if every 41 0 round then [CallResize] else []) @
         (if every 37 0 round then [CallRetry offset] else []) @
         [CallIdle (tick_last round ev + 4000)])"

fun feed_calls :: "(feed_call \<Rightarrow> call_orders) \<Rightarrow> event \<Rightarrow> feed_call list \<Rightarrow> pipeline \<times> generator \<Rightarrow>
    (pipeline \<times> generator) go" where
  "feed_calls os ev [] pg = Inr pg"
| "feed_calls os ev (c # cs) pg = go_bind (make_call (os c) ev c pg) (feed_calls os ev cs)"

section \<open>The feed\<close>

record demo =
  de_pipe :: pipeline
  de_gen :: generator
  de_round :: int64
  de_offset :: int64
  de_last :: int64

definition feed_spec :: generator_spec where
  "feed_spec = \<lparr>gs_keys = [''checkout'', ''cart'', ''search'', ''detail'', ''payment''], gs_start = 1000,
     gs_step = 60, gs_jitter = 600, gs_ping = 17\<rparr>"

definition new_demo :: "pipeline \<Rightarrow> demo" where
  "new_demo p = \<lparr>de_pipe = p, de_gen = new_generator feed_spec, de_round = 0, de_offset = 0, de_last = 0\<rparr>"

definition demo_tick :: "(feed_call \<Rightarrow> call_orders) \<Rightarrow> demo \<Rightarrow> demo go" where
  "demo_tick os d =
     (let round = de_round d + 1
      in go_bind (gen_next (de_gen d)) (\<lambda>(ev, g).
         go_bind (feed_calls os ev (tick_calls round ev) (de_pipe d, g)) (\<lambda>(p, g).
         Inr \<lparr>de_pipe = p, de_gen = g, de_round = round, de_offset = ev_offset ev + 1, de_last = tick_last round ev\<rparr>)))"

text \<open>The branch of the closed stop channel.\<close>

definition demo_stop :: "call_orders \<Rightarrow> demo \<Rightarrow> pipeline go" where
  "demo_stop os d = (let p = de_pipe d
     in pl_advance (fo_windows os, fo_sessions os) (de_last d + 10000) (p\<lparr>pl_source := source_stop (pl_source p)\<rparr>))"

text \<open>The progress line, which every five hundredth tick logs at its end.\<close>

definition progress_text :: "demo \<Rightarrow> string" where
  "progress_text d =
     ''demo progress: offset='' @ show_int64 (de_offset d) @ '' round='' @ show_int64 (de_round d) @
     '' emitted='' @ show_int64 (gen_emitted (de_gen d)) @ '' keys='' @ show_nat (length (gen_keys (de_gen d))) @
     '' checkout='' @ show_int64 (case state_get ''checkout'' (en_state (pl_engine (de_pipe d))) of
        Some v \<Rightarrow> v | None \<Rightarrow> 0)"

definition progress_line :: "demo \<Rightarrow> string option" where
  "progress_line d = (if every 500 0 (de_round d) then Some (progress_text d) else None)"

section \<open>Orders that enumerate the maps\<close>

definition fair_advance :: "call_orders \<Rightarrow> int64 \<Rightarrow> pipeline \<Rightarrow> bool" where
  "fair_advance os ts p \<longleftrightarrow> (\<forall>s t m e.
     advance_to topology_process ts (pl_source p, pl_tracker p, (pl_topology p, pl_engine p)) = Inr (s, t, m, e) \<longrightarrow>
     enum_of (fo_windows os) (wn_windows (en_windows e)) \<and> enum_of (fo_sessions os) (se_sessions (en_sessions e)))"

fun fair_call :: "call_orders \<Rightarrow> feed_call \<Rightarrow> pipeline \<Rightarrow> bool" where
  "fair_call os (CallAdvance ts) p = fair_advance os ts p"
| "fair_call os CallResume p = enum_of (fo_graph os) (build_adj (d_edges (mg_dag (pl_topology p))))"
| "fair_call os CallResize p = list_all2 enum_of (fo_parts os) (p_parts (en_parts (pl_engine p)))"
| "fair_call os (CallIdle now) p = fair_advance os (fst (fst (pl_should_advance now p))) (snd (pl_should_advance now p))"
| "fair_call os _ p = True"

fun fair_calls :: "(feed_call \<Rightarrow> call_orders) \<Rightarrow> event \<Rightarrow> feed_call list \<Rightarrow> pipeline \<times> generator \<Rightarrow> bool" where
  "fair_calls os ev [] pg = True"
| "fair_calls os ev (c # cs) pg \<longleftrightarrow> fair_call (os c) c (fst pg) \<and>
     (\<forall>pg'. make_call (os c) ev c pg = Inr pg' \<longrightarrow> fair_calls os ev cs pg')"

definition fair_tick :: "(feed_call \<Rightarrow> call_orders) \<Rightarrow> demo \<Rightarrow> bool" where
  "fair_tick os d \<longleftrightarrow> (\<forall>ev g. gen_next (de_gen d) = Inr (ev, g) \<longrightarrow>
     fair_calls os ev (tick_calls (de_round d + 1) ev) (de_pipe d, g))"

inductive demo_run :: "pipeline \<Rightarrow> nat \<Rightarrow> demo \<Rightarrow> bool" for p0 where
  dr_start: "demo_run p0 0 (new_demo p0)"
| dr_tick: "demo_run p0 (Suc n) d'" if "demo_run p0 n d" "fair_tick os d" "demo_tick os d = Inr d'"

section \<open>A tick is a run of the pipeline\<close>

definition feeds :: "engine_config \<Rightarrow> event list \<Rightarrow> pipeline \<Rightarrow> bool" where
  "feeds cfg fed p \<longleftrightarrow> (\<exists>p0 lost. starts cfg p0 \<and> pipeline_run p0 fed lost p)"

lemma feeds_reached: "feeds cfg fed p \<Longrightarrow> length fed < 2 ^ 63 \<Longrightarrow> \<exists>lost. reached cfg fed lost p"
  by (auto simp: feeds_def reached_def)

lemma emit_collects:
  assumes "source_emit None ev (s, ()) = Inr (s', ())"
  shows "\<exists>lost'. source_emit collect_evicted ev (s, lost) = Inr (s', lost')"
  using assms
  by (auto simp: source_emit_def buffer_add_def Let_def split: if_splits elim!: go_bind_InrE)

lemma feeds_emit:
  assumes "feeds cfg fed p" "ev_key ev \<noteq> ''''" "pl_emit ev p = Inr p'"
  shows "feeds cfg (fed @ [ev]) p'"
proof -
  obtain p0 lost where r: "starts cfg p0" "pipeline_run p0 fed lost p" using assms(1) by (auto simp: feeds_def)
  obtain s where "source_emit None ev (pl_source p, ()) = Inr (s, ())"
    using assms(3) by (auto simp: pl_emit_def elim!: go_bind_InrE)
  from emit_collects [OF this] obtain lost' where "source_emit collect_evicted ev (pl_source p, lost) = Inr (s, lost')"
    by blast
  from pipeline_run.pr_emit [OF r(2) assms(2,3) this] r(1) show ?thesis by (auto simp: feeds_def)
qed

lemma feeds_advance:
  assumes "feeds cfg fed p" "fair_advance os ts p" "pl_advance (fo_windows os, fo_sessions os) ts p = Inr p'"
  shows "feeds cfg fed p'"
proof -
  obtain p0 lost where r: "starts cfg p0" "pipeline_run p0 fed lost p" using assms(1) by (auto simp: feeds_def)
  obtain s t m e where adv: "advance_to topology_process ts
      (pl_source p, pl_tracker p, (pl_topology p, pl_engine p)) = Inr (s, t, m, e)"
    using assms(3) by (auto simp: pl_advance_def elim!: go_bind_InrE)
  then have "enum_of (fo_windows os) (wn_windows (en_windows e))" "enum_of (fo_sessions os) (se_sessions (en_sessions e))"
    using assms(2) by (simp_all add: fair_advance_def)
  then have "pipeline_run p0 fed lost p'"
    using pipeline_run.pr_advance [OF r(2) adv _ _ assms(3)] by simp
  then show ?thesis using r(1) by (auto simp: feeds_def)
qed

lemma feeds_steps:
  assumes "feeds cfg fed p"
  shows "run_checkpoint offset p = Inr p' \<Longrightarrow> feeds cfg fed p'"
    and "feeds cfg fed (pl_pause p)"
    and "ev_key ev \<noteq> '''' \<Longrightarrow> pl_apply_now ev p = Inr p' \<Longrightarrow> feeds cfg (fed @ [ev]) p'"
    and "enum_of order (build_adj (d_edges (mg_dag (pl_topology p)))) \<Longrightarrow> pl_resume order p = Inr p' \<Longrightarrow> feeds cfg fed p'"
    and "0 < sint n \<Longrightarrow> list_all2 enum_of orders (p_parts (en_parts (pl_engine p))) \<Longrightarrow>
           pl_resize orders n p = Inr p' \<Longrightarrow> feeds cfg fed p'"
    and "feeds cfg fed (snd (pl_should_advance now p))"
    and "cp_retry offset (\<lambda>from (c, _). ((), c, ())) (pl_coordinator p, ()) = ((), c, ()) \<Longrightarrow>
           feeds cfg fed (p\<lparr>pl_coordinator := c\<rparr>)"
  using assms unfolding feeds_def
  by (blast intro: pipeline_run.intros)+

section \<open>The position of the feed\<close>

lemma coordinator_frames:
  "pl_emit ev p = Inr p' \<Longrightarrow> pl_coordinator p' = pl_coordinator p"
  "pl_advance orders ts p = Inr p' \<Longrightarrow> pl_coordinator p' = pl_coordinator p"
  "pl_apply_now ev p = Inr p' \<Longrightarrow> pl_coordinator p' = pl_coordinator p"
  "pl_resume order p = Inr p' \<Longrightarrow> pl_coordinator p' = pl_coordinator p"
  "pl_resize parts n p = Inr p' \<Longrightarrow> pl_coordinator p' = pl_coordinator p"
  "pl_coordinator (pl_pause p) = pl_coordinator p"
  "pl_coordinator (snd (pl_should_advance now p)) = pl_coordinator p"
  by (auto simp: pl_emit_def pl_advance_def pl_apply_now_def pl_resume_def pl_resize_def pl_pause_def
      pl_should_advance_def Let_def fanout_notify_def fanout_add_def new_fanout_def on_watermark_confirmed_def
      trigger_frame elim!: go_bind_InrE split: prod.splits)

lemma checkpoint_last: "run_checkpoint offset p = Inr p' \<Longrightarrow> co_last (pl_coordinator p') = offset"
  by (auto simp: run_checkpoint_def state_version_def state_snapshot_def Let_def cp_commit_def put_shared_def
      elim!: go_bind_InrE)

text \<open>After \<open>n\<close> ticks the generator, the last commit and the number of events are bounded by the
  number of ticks.\<close>

definition demo_event :: "nat \<Rightarrow> event \<Rightarrow> bool" where
  "demo_event b ev \<longleftrightarrow> ev_key ev \<in> set (gs_keys feed_spec) \<and>
     (b < 2 ^ 50 \<longrightarrow> 0 \<le> sint (ev_timestamp ev) \<and> sint (ev_timestamp ev) < 1540 + 60 * int b)"

definition fed_ok :: "engine_config \<Rightarrow> nat \<Rightarrow> nat \<Rightarrow> pipeline \<Rightarrow> bool" where
  "fed_ok cfg k b p \<longleftrightarrow>
     (\<exists>fed. feeds cfg fed p \<and> length fed \<le> k \<and> (\<forall>ev \<in> set fed. demo_event b ev))"

definition place_ok :: "nat \<Rightarrow> int64 \<Rightarrow> generator \<Rightarrow> bool" where
  "place_ok b committed g \<longleftrightarrow> g_spec g = feed_spec \<and> sint (g_next g) = int b \<and>
     0 \<le> sint committed \<and> sint committed \<le> int b"

definition feed_ok :: "engine_config \<Rightarrow> nat \<Rightarrow> nat \<Rightarrow> pipeline \<times> generator \<Rightarrow> bool" where
  "feed_ok cfg k b pg \<longleftrightarrow> fed_ok cfg k b (fst pg) \<and> place_ok b (co_last (pl_coordinator (fst pg))) (snd pg)"

definition call_within :: "nat \<Rightarrow> feed_call \<Rightarrow> bool" where
  "call_within b c \<longleftrightarrow> (case c of CallCheckpoint offset \<Rightarrow> 0 \<le> sint offset \<and> sint offset \<le> int b
     | CallRetry offset \<Rightarrow> sint offset = int b | _ \<Rightarrow> True)"

lemma feed_ok_shows:
  assumes "feed_ok cfg k b (p, g)" "k < 2 ^ 63"
  obtains fed lost where "reached cfg fed lost p" "length fed \<le> k" "\<forall>ev \<in> set fed. demo_event b ev"
proof -
  obtain fed where fed: "feeds cfg fed p" "length fed \<le> k" "\<forall>ev \<in> set fed. demo_event b ev"
    using assms(1) by (auto simp: feed_ok_def fed_ok_def)
  then have "length fed < 2 ^ 63" using assms(2) by simp
  from feeds_reached [OF fed(1) this] that fed(2,3) show thesis by blast
qed

lemma fed_ok_same:
  assumes "fed_ok cfg k b p" "\<And>fed. feeds cfg fed p \<Longrightarrow> feeds cfg fed p'"
  shows "fed_ok cfg k b p'"
  using assms unfolding fed_ok_def by blast

lemma fed_ok_quiet:
  "fed_ok cfg k b p \<Longrightarrow> fed_ok cfg k b (pl_pause p)"
  "fed_ok cfg k b p \<Longrightarrow> fed_ok cfg k b (snd (pl_should_advance now p))"
  by (erule fed_ok_same, erule feeds_steps(2)) (erule fed_ok_same, erule feeds_steps(6))

lemma fed_ok_Suc: "fed_ok cfg k b p \<Longrightarrow> fed_ok cfg (Suc k) b p"
  unfolding fed_ok_def using le_SucI by blast

lemma demo_event_mono: "demo_event b ev \<Longrightarrow> b \<le> b' \<Longrightarrow> demo_event b' ev"
  by (auto simp: demo_event_def)

lemma fed_ok_mono: "fed_ok cfg k b p \<Longrightarrow> k \<le> k' \<Longrightarrow> b \<le> b' \<Longrightarrow> fed_ok cfg k' b' p"
  unfolding fed_ok_def by (meson demo_event_mono le_trans)

lemma feed_ok_step:
  assumes "feed_ok cfg k b (p, g)" "\<And>fed. feeds cfg fed p \<Longrightarrow> feeds cfg fed p'"
    and "pl_coordinator p' = pl_coordinator p"
  shows "feed_ok cfg (Suc k) b (p', g)"
proof -
  have "fed_ok cfg k b p" using assms(1) by (simp add: feed_ok_def)
  from fed_ok_Suc [OF fed_ok_same [OF this assms(2)]] show ?thesis using assms(1,3) by (simp add: feed_ok_def)
qed

lemma feed_ok_event:
  assumes "feed_ok cfg k b (p, g)" "\<And>fed. feeds cfg fed p \<Longrightarrow> feeds cfg (fed @ [ev]) p'"
    and "demo_event b ev" and "pl_coordinator p' = pl_coordinator p"
  shows "feed_ok cfg (Suc k) b (p', g)"
proof -
  obtain fed where fed: "feeds cfg fed p" "length fed \<le> k" "\<forall>ev \<in> set fed. demo_event b ev"
    using assms(1) by (auto simp: feed_ok_def fed_ok_def)
  then have "feeds cfg (fed @ [ev]) p' \<and> length (fed @ [ev]) \<le> Suc k \<and>
      (\<forall>x \<in> set (fed @ [ev]). demo_event b x)"
    using assms(2,3) by simp
  then have "fed_ok cfg (Suc k) b p'" unfolding fed_ok_def by blast
  then show ?thesis using assms(1,4) by (simp add: feed_ok_def)
qed

lemma feed_keys_nonempty: "demo_event b ev \<Longrightarrow> ev_key ev \<noteq> ''''"
  by (auto simp: demo_event_def feed_spec_def)

text \<open>No call panics, and each keeps the position within its bounds.\<close>

lemma feed_total:
  assumes "feed_ok cfg k b (p, g)" "k < 2 ^ 63" "c_window_size_ms cfg \<noteq> 0"
  shows "\<exists>p'. pl_emit ev p = Inr p'" "\<exists>p'. pl_apply_now ev p = Inr p'" "\<exists>p'. pl_advance orders ts p = Inr p'"
    "\<exists>p'. pl_resume order p = Inr p'" "\<exists>p'. run_checkpoint offset p = Inr p'"
    "0 < sint n \<Longrightarrow> sint n \<le> max_parts \<Longrightarrow> list_all2 enum_of parts (p_parts (en_parts (pl_engine p))) \<Longrightarrow>
       \<exists>p'. pl_resize parts n p = Inr p'"
proof -
  obtain fed lost where "reached cfg fed lost p" by (rule feed_ok_shows [OF assms(1,2)])
  note total = operations_total [OF reached_shows [OF this] assms(3)]
  show "\<exists>p'. pl_emit ev p = Inr p'" "\<exists>p'. pl_apply_now ev p = Inr p'" "\<exists>p'. pl_advance orders ts p = Inr p'"
    "\<exists>p'. pl_resume order p = Inr p'" "\<exists>p'. run_checkpoint offset p = Inr p'"
    "0 < sint n \<Longrightarrow> sint n \<le> max_parts \<Longrightarrow> list_all2 enum_of parts (p_parts (en_parts (pl_engine p))) \<Longrightarrow>
       \<exists>p'. pl_resize parts n p = Inr p'"
    using total by blast+
qed

lemma feed_ok_quiet:
  "feed_ok cfg k b (p, g) \<Longrightarrow> feed_ok cfg k b (pl_pause p, g)"
  "feed_ok cfg k b (p, g) \<Longrightarrow> feed_ok cfg k b (snd (pl_should_advance now p), g)"
  using fed_ok_quiet by (simp_all add: feed_ok_def coordinator_frames)

lemma call_emit_ok:
  assumes ok: "feed_ok cfg k b (p, g)" "k < 2 ^ 63" "c_window_size_ms cfg \<noteq> 0" and ev: "demo_event b ev"
  shows "\<exists>pg'. make_call os ev CallEmit (p, g) = Inr pg' \<and> feed_ok cfg (Suc k) b pg'"
proof -
  obtain p' where p': "pl_emit ev p = Inr p'" using feed_total(1) [OF ok] by blast
  have "feed_ok cfg (Suc k) b (p', g)"
    by (rule feed_ok_event [OF ok(1) feeds_emit [OF _ feed_keys_nonempty [OF ev] p'] ev coordinator_frames(1) [OF p']])
  then show ?thesis by (simp add: p')
qed

lemma advance_ok:
  assumes ok: "feed_ok cfg k b (p, g)" "k < 2 ^ 63" "c_window_size_ms cfg \<noteq> 0" and fair: "fair_advance os ts p"
  shows "\<exists>p'. pl_advance (fo_windows os, fo_sessions os) ts p = Inr p' \<and> feed_ok cfg (Suc k) b (p', g)"
proof -
  obtain p' where p': "pl_advance (fo_windows os, fo_sessions os) ts p = Inr p'" using feed_total(3) [OF ok] by blast
  have "feed_ok cfg (Suc k) b (p', g)"
    using fair by (intro feed_ok_step [OF ok(1) feeds_advance [OF _ _ p'] coordinator_frames(2) [OF p']])
  then show ?thesis using p' by blast
qed

lemma call_checkpoint_ok:
  assumes ok: "feed_ok cfg k b (p, g)" "k < 2 ^ 63" "c_window_size_ms cfg \<noteq> 0" and within: "call_within b (CallCheckpoint offset)"
  shows "\<exists>pg'. make_call os ev (CallCheckpoint offset) (p, g) = Inr pg' \<and> feed_ok cfg (Suc k) b pg'"
proof -
  obtain p' where p': "run_checkpoint offset p = Inr p'" using feed_total(5) [OF ok] by blast
  have "fed_ok cfg k b p" using ok(1) by (simp add: feed_ok_def)
  then have "fed_ok cfg k b p'" by (rule fed_ok_same) (rule feeds_steps(1) [OF _ p'])
  then have "feed_ok cfg (Suc k) b (p', g)"
    using ok(1) fed_ok_Suc checkpoint_last [OF p'] within
    by (simp add: feed_ok_def call_within_def place_ok_def)
  then show ?thesis by (simp add: p')
qed

lemma call_pause_apply_ok:
  assumes ok: "feed_ok cfg k b (p, g)" "k < 2 ^ 63" "c_window_size_ms cfg \<noteq> 0" and ev: "demo_event b ev"
  shows "\<exists>pg'. make_call os ev CallPauseApply (p, g) = Inr pg' \<and> feed_ok cfg (Suc k) b pg'"
proof -
  note ok' = feed_ok_quiet(1) [OF ok(1)]
  obtain p' where p': "pl_apply_now ev (pl_pause p) = Inr p'" using feed_total(2) [OF ok' ok(2,3)] by blast
  have "feed_ok cfg (Suc k) b (p', g)"
    by (rule feed_ok_event [OF ok' feeds_steps(3) [OF _ feed_keys_nonempty [OF ev] p'] ev coordinator_frames(3) [OF p']])
  then show ?thesis by (simp add: p')
qed

lemma call_resume_ok:
  assumes ok: "feed_ok cfg k b (p, g)" "k < 2 ^ 63" "c_window_size_ms cfg \<noteq> 0" and fair: "fair_call os CallResume p"
  shows "\<exists>pg'. make_call os ev CallResume (p, g) = Inr pg' \<and> feed_ok cfg (Suc k) b pg'"
proof -
  obtain p' where p': "pl_resume (fo_graph os) p = Inr p'" using feed_total(4) [OF ok] by blast
  have "enum_of (fo_graph os) (build_adj (d_edges (mg_dag (pl_topology p))))" using fair by simp
  then have "feed_ok cfg (Suc k) b (p', g)"
    by (intro feed_ok_step [OF ok(1) feeds_steps(4) [OF _ _ p'] coordinator_frames(4) [OF p']])
  then show ?thesis by (simp add: p')
qed

lemma call_resize_ok:
  assumes ok: "feed_ok cfg k b (p, g)" "k < 2 ^ 63" "c_window_size_ms cfg \<noteq> 0" and fair: "fair_call os CallResize p"
  shows "\<exists>pg'. make_call os ev CallResize (p, g) = Inr pg' \<and> feed_ok cfg (Suc k) b pg'"
proof -
  let ?n = "other_count (partitions_now (en_router (pl_engine p)))"
  have n: "0 < sint ?n" "sint ?n \<le> max_parts" by (simp_all add: other_count_def max_parts_def)
  have ord: "list_all2 enum_of (fo_parts os) (p_parts (en_parts (pl_engine p)))" using fair by simp
  obtain p' where p': "pl_resize (fo_parts os) ?n p = Inr p'" using feed_total(6) [OF ok n ord] by blast
  have "feed_ok cfg (Suc k) b (p', g)"
    by (rule feed_ok_step [OF ok(1) feeds_steps(5) [OF _ n(1) ord p'] coordinator_frames(5) [OF p']])
  then show ?thesis by (simp add: p')
qed

lemma call_retry_ok:
  assumes ok: "feed_ok cfg k b (p, g)" and within: "call_within b (CallRetry offset)"
  shows "\<exists>pg'. make_call os ev (CallRetry offset) (p, g) = Inr pg' \<and> feed_ok cfg (Suc k) b pg'"
proof -
  let ?c = "(pl_coordinator p)\<lparr>co_attempts := co_attempts (pl_coordinator p) + 1\<rparr>"
  let ?g = "skip_to offset (replay_from (co_last (pl_coordinator p)) g)"
  have "feeds cfg fed p \<Longrightarrow> feeds cfg fed (p\<lparr>pl_coordinator := ?c\<rparr>)" for fed
    by (rule feeds_steps(7) [of _ _ _ 0]) (simp_all add: cp_retry_def)
  moreover have "g_spec ?g = g_spec g" "sint (g_next ?g) = int b"
    using ok within by (auto simp: call_within_def feed_ok_def place_ok_def skip_to_def replay_from_def go_int)
  ultimately have "feed_ok cfg (Suc k) b (p\<lparr>pl_coordinator := ?c\<rparr>, ?g)"
    using ok fed_ok_Suc [OF fed_ok_same [of cfg k b p]] by (simp add: feed_ok_def place_ok_def)
  then show ?thesis by (simp add: cp_retry_def)
qed

lemma call_idle_ok:
  assumes ok: "feed_ok cfg k b (p, g)" "k < 2 ^ 63" "c_window_size_ms cfg \<noteq> 0" and fair: "fair_call os (CallIdle now) p"
  shows "\<exists>pg'. make_call os ev (CallIdle now) (p, g) = Inr pg' \<and> feed_ok cfg (Suc k) b pg'"
proof -
  obtain ts idle p1 where s: "pl_should_advance now p = ((ts, idle), p1)" by (metis prod_cases3 surj_pair)
  have ok': "feed_ok cfg k b (p1, g)" using feed_ok_quiet(2) [OF ok(1), of now] by (simp add: s)
  show ?thesis
  proof (cases idle)
    case False
    then show ?thesis using feed_ok_step [OF ok', of p1] by (simp add: s)
  next
    case True
    have "fair_advance os ts p1" using fair by (simp add: s)
    from advance_ok [OF ok' ok(2,3) this] show ?thesis using True by (auto simp: s)
  qed
qed

lemma make_call_ok:
  assumes ok: "feed_ok cfg k b (p, g)" and k: "k < 2 ^ 63" and sz: "c_window_size_ms cfg \<noteq> 0"
    and fair: "fair_call os c p" and ev: "demo_event b ev" and within: "call_within b c"
  shows "\<exists>pg'. make_call os ev c (p, g) = Inr pg' \<and> feed_ok cfg (Suc k) b pg'"
proof (cases c)
  case (CallAdvance ts)
  then have "fair_advance os ts p" using fair by simp
  from advance_ok [OF ok k sz this] show ?thesis by (auto simp: CallAdvance)
next
  case (CallRetry offset)
  then show ?thesis using call_retry_ok [OF ok] within by simp
qed (use call_emit_ok call_checkpoint_ok call_pause_apply_ok call_resume_ok call_resize_ok call_idle_ok
       ok k sz fair ev within in \<open>simp_all del: make_call.simps fair_call.simps\<close>)

lemma feed_calls_ok:
  "feed_ok cfg k b pg \<Longrightarrow> k + length cs < 2 ^ 63 \<Longrightarrow> c_window_size_ms cfg \<noteq> 0 \<Longrightarrow> fair_calls os ev cs pg \<Longrightarrow>
   demo_event b ev \<Longrightarrow> \<forall>c \<in> set cs. call_within b c \<Longrightarrow>
   \<exists>pg'. feed_calls os ev cs pg = Inr pg' \<and> feed_ok cfg (k + length cs) b pg'"
proof (induction cs arbitrary: k pg)
  case (Cons c cs)
  obtain p g where pg: "pg = (p, g)" by (cases pg)
  have "k < 2 ^ 63" "fair_call (os c) c p" "call_within b c" using Cons.prems(2,4,6) by (simp_all add: pg)
  from make_call_ok [OF Cons.prems(1) [unfolded pg] this(1) Cons.prems(3) this(2) Cons.prems(5) this(3)]
  obtain pg1 where one: "make_call (os c) ev c (p, g) = Inr pg1" "feed_ok cfg (Suc k) b pg1" by blast
  have "fair_calls os ev cs pg1" using Cons.prems(4) one(1) by (simp add: pg)
  with Cons.IH [OF one(2) _ Cons.prems(3) this Cons.prems(5)] Cons.prems(2,6) one(1) show ?case by (simp add: pg)
qed simp

lemma tick_calls_facts:
  assumes "sint (ev_offset ev + 1) = int b"
  shows "length (tick_calls round ev) \<le> 8" "\<forall>c \<in> set (tick_calls round ev). call_within b c"
proof -
  show "length (tick_calls round ev) \<le> 8" by (simp add: tick_calls_def Let_def)
  have "set (tick_calls round ev) \<subseteq> {CallEmit, CallAdvance (ev_timestamp ev + 300), CallCheckpoint (ev_offset ev + 1),
      CallPauseApply, CallResume, CallResize, CallRetry (ev_offset ev + 1), CallIdle (tick_last round ev + 4000)}"
    by (auto simp: tick_calls_def Let_def)
  moreover have "call_within b (CallCheckpoint (ev_offset ev + 1))" "call_within b (CallRetry (ev_offset ev + 1))"
    using assms by (simp_all add: call_within_def)
  ultimately show "\<forall>c \<in> set (tick_calls round ev). call_within b c" by (auto simp: call_within_def)
qed

text \<open>Event \<open>n\<close> lies within the jitter of its slot.\<close>

lemma feed_event_time:
  assumes "gen_next g = Inr (ev, g')" "g_spec g = feed_spec" "sint (g_next g) = int n" "n < 2 ^ 50"
  shows "1000 + 60 * int n \<le> sint (ev_timestamp ev)" "sint (ev_timestamp ev) < 1600 + 60 * int n"
proof -
  have of_sint: "x = word_of_int i" if "sint x = i" for x :: int64 and i
    by (simp flip: that)
  have idx: "g_next g = word_of_int (int n)" by (rule of_sint [OF assms(3)])
  have seven: "g_next g * 7 = word_of_int (7 * int n)" and sixty: "g_next g * 60 = word_of_int (60 * int n)"
    by (simp_all add: idx wi_hom_mult [symmetric] mult.commute)
  have s7: "sint (g_next g * 7) = 7 * int n" unfolding seven by (rule sint_of_int64) (use assms(4) in simp)
  obtain jitter where j: "go_mod (g_next g * 7) 600 = Inr jitter" "ev_timestamp ev = 1000 + g_next g * 60 + jitter"
    using assms(1,2) by (auto simp: gen_next_def feed_spec_def Let_def new_ping_def new_data_def
        split: if_splits elim!: go_bind_InrE)
  define r where "r = 7 * int n mod 600"
  have r: "0 \<le> r" "r < 600" by (simp_all add: r_def)
  have "jitter = word_of_int r" by (rule of_sint) (use sint_go_mod [OF j(1)] s7 in \<open>simp add: r_def\<close>)
  then have ts: "ev_timestamp ev = word_of_int (1000 + 60 * int n + r)"
    using j(2) by (simp add: sixty wi_hom_add [symmetric])
  have "in_int64 (1000 + 60 * int n + r)" using r assms(4) by simp
  then have "sint (ev_timestamp ev) = 1000 + 60 * int n + r" unfolding ts by (rule sint_of_int64)
  with r show "1000 + 60 * int n \<le> sint (ev_timestamp ev)" "sint (ev_timestamp ev) < 1600 + 60 * int n" by linarith+
qed

definition demo_ok :: "engine_config \<Rightarrow> nat \<Rightarrow> demo \<Rightarrow> bool" where
  "demo_ok cfg n d \<longleftrightarrow> feed_ok cfg (8 * n) n (de_pipe d, de_gen d)"

lemma demo_ok_new:
  assumes "starts cfg p0"
  shows "demo_ok cfg 0 (new_demo p0)"
proof -
  have "feeds cfg [] p0" using assms pipeline_run.pr_start by (auto simp: feeds_def)
  then have "fed_ok cfg 0 0 p0" unfolding fed_ok_def by (intro exI [of _ "[]"]) simp
  moreover have "co_last (pl_coordinator p0) = 0"
    using assms by (auto simp: starts_def new_pipeline_def new_coordinator_def elim!: go_bind_InrE)
  ultimately show ?thesis
    by (simp add: demo_ok_def feed_ok_def place_ok_def new_demo_def new_generator_def)
qed

text \<open>A tick with orders that enumerate the maps succeeds.\<close>

lemma demo_tick_begins:
  assumes ok: "demo_ok cfg n d" and n: "8 * Suc n < 2 ^ 63" and fair: "fair_tick os d"
  obtains ev g where "gen_next (de_gen d) = Inr (ev, g)" "demo_event (Suc n) ev" "sint (ev_offset ev + 1) = int (Suc n)"
    "feed_ok cfg (8 * n) (Suc n) (de_pipe d, g)" "fair_calls os ev (tick_calls (de_round d + 1) ev) (de_pipe d, g)"
    "n < 2 ^ 50 \<Longrightarrow> 1000 + 60 * int n \<le> sint (ev_timestamp ev)"
    "n < 2 ^ 50 \<Longrightarrow> sint (ev_timestamp ev) < 1600 + 60 * int n"
proof -
  have pl: "place_ok n (co_last (pl_coordinator (de_pipe d))) (de_gen d)" and fed: "fed_ok cfg (8 * n) n (de_pipe d)"
    using ok by (simp_all add: demo_ok_def feed_ok_def)
  then have g: "g_spec (de_gen d) = feed_spec" "sint (g_next (de_gen d)) = int n" by (simp_all add: place_ok_def)
  have "gs_keys (g_spec (de_gen d)) \<noteq> []" "length (gs_keys (g_spec (de_gen d))) < 2 ^ 63"
      "0 < sint (gs_jitter (g_spec (de_gen d)))" "0 \<le> sint (g_next (de_gen d))"
    by (simp_all add: g feed_spec_def)
  from generator_total_and_bounded [OF this] obtain ev g' where
    next_ev: "gen_next (de_gen d) = Inr (ev, g')" "ev_offset ev = g_next (de_gen d)"
      "ev_key ev \<in> set (gs_keys feed_spec)" "g_next g' = g_next (de_gen d) + 1" by (auto simp: g(1))
  have "in_int64 (sint (g_next (de_gen d)) + sint (1 :: int64))" using g(2) n by simp
  then have plus: "sint (g_next (de_gen d) + 1) = int (Suc n)" using sint_add64 g(2) by fastforce
  then have off: "sint (ev_offset ev + 1) = int (Suc n)" by (simp add: next_ev(2))
  have dem: "demo_event (Suc n) ev"
    using feed_event_time [OF next_ev(1) g] next_ev(3) by (auto simp: demo_event_def intro: order_trans)
  have "fed_ok cfg (8 * n) (Suc n) (de_pipe d)" by (rule fed_ok_mono [OF fed]) simp_all
  moreover have "g_spec g' = feed_spec" using gen_next_facts [OF next_ev(1)] g(1) by simp
  ultimately have ok': "feed_ok cfg (8 * n) (Suc n) (de_pipe d, g')"
    using pl plus next_ev(4) by (auto simp: feed_ok_def place_ok_def)
  show thesis by (rule that [OF next_ev(1) dem off ok'])
     (use fair feed_event_time [OF next_ev(1) g] next_ev(1) in \<open>simp_all add: fair_tick_def\<close>)
qed

lemma demo_tick_ok:
  assumes ok: "demo_ok cfg n d" and n: "8 * Suc n < 2 ^ 63" and sz: "c_window_size_ms cfg \<noteq> 0" and fair: "fair_tick os d"
  shows "\<exists>d'. demo_tick os d = Inr d' \<and> demo_ok cfg (Suc n) d'"
proof -
  obtain ev g' where tick: "gen_next (de_gen d) = Inr (ev, g')" "demo_event (Suc n) ev"
      "sint (ev_offset ev + 1) = int (Suc n)" "feed_ok cfg (8 * n) (Suc n) (de_pipe d, g')"
      "fair_calls os ev (tick_calls (de_round d + 1) ev) (de_pipe d, g')"
    by (rule demo_tick_begins [OF ok n fair])
  note facts = tick_calls_facts [OF tick(3), of "de_round d + 1"]
  have "8 * n + length (tick_calls (de_round d + 1) ev) < 2 ^ 63" using facts(1) n by simp
  from feed_calls_ok [OF tick(4) this sz tick(5,2) facts(2)] obtain p g''
    where calls: "feed_calls os ev (tick_calls (de_round d + 1) ev) (de_pipe d, g') = Inr (p, g'')"
      and ok': "feed_ok cfg (8 * n + length (tick_calls (de_round d + 1) ev)) (Suc n) (p, g'')"
    by (metis surj_pair)
  have "fed_ok cfg (8 * n + length (tick_calls (de_round d + 1) ev)) (Suc n) p" using ok' by (simp add: feed_ok_def)
  then have "fed_ok cfg (8 * Suc n) (Suc n) p" by (rule fed_ok_mono) (use facts(1) in simp_all)
  then have "feed_ok cfg (8 * Suc n) (Suc n) (p, g'')" using ok' by (simp add: feed_ok_def)
  then show ?thesis using tick(1) calls by (simp add: demo_tick_def demo_ok_def Let_def)
qed

lemma demo_run_ok:
  "demo_run p0 n d \<Longrightarrow> starts cfg p0 \<Longrightarrow> c_window_size_ms cfg \<noteq> 0 \<Longrightarrow> 8 * n < 2 ^ 63 \<Longrightarrow> demo_ok cfg n d"
proof (induction rule: demo_run.induct)
  case dr_start
  then show ?case using demo_ok_new by simp
next
  case (dr_tick n d os d')
  have "8 * n < 2 ^ 63" using dr_tick.prems(3) by simp
  then have "demo_ok cfg n d" using dr_tick.IH dr_tick.prems(1,2) by blast
  from demo_tick_ok [OF this dr_tick.prems(3,2) dr_tick.hyps(2)] dr_tick.hyps(3) show ?case by auto
qed

section \<open>The idle detector in the feed\<close>

lemma make_call_quiet:
  assumes ok: "feed_ok cfg k b (p, g)" "k < 2 ^ 63" and quiet: "\<forall>now. c \<noteq> CallIdle now"
    and call: "make_call os ev c (p, g) = Inr (p', g')"
  shows "idle_settings p' = idle_settings p"
proof -
  obtain fed lost where "reached cfg fed lost p" by (rule feed_ok_shows [OF ok])
  note adv = advance_frame(1) [OF reached_shows [OF this]]
  show ?thesis
    using call quiet idle_settings_kept adv
    by (cases c) (auto simp: cp_retry_def idle_settings_def elim!: go_bind_InrE)
qed

lemma feed_calls_quiet:
  "feed_ok cfg k b pg \<Longrightarrow> k + length cs < 2 ^ 63 \<Longrightarrow> c_window_size_ms cfg \<noteq> 0 \<Longrightarrow> fair_calls os ev cs pg \<Longrightarrow>
   demo_event b ev \<Longrightarrow> \<forall>c \<in> set cs. call_within b c \<Longrightarrow> \<forall>c \<in> set cs. \<forall>now. c \<noteq> CallIdle now \<Longrightarrow>
   feed_calls os ev cs pg = Inr pg' \<Longrightarrow> idle_settings (fst pg') = idle_settings (fst pg)"
proof (induction cs arbitrary: k pg)
  case (Cons c cs)
  obtain p g where pg: "pg = (p, g)" by (cases pg)
  obtain pg1 where one: "make_call (os c) ev c (p, g) = Inr pg1" and rest: "feed_calls os ev cs pg1 = Inr pg'"
    using Cons.prems(8) by (auto simp: pg elim!: go_bind_InrE)
  have small: "k < 2 ^ 63" "fair_call (os c) c p" "call_within b c" "\<forall>now. c \<noteq> CallIdle now"
    using Cons.prems(2,4,6,7) by (simp_all add: pg)
  have ok: "feed_ok cfg k b (p, g)" using Cons.prems(1) by (simp add: pg)
  have "feed_ok cfg (Suc k) b pg1"
    using make_call_ok [OF ok small(1) Cons.prems(3) small(2) Cons.prems(5) small(3)] one by auto
  from Cons.IH [OF this _ Cons.prems(3) _ Cons.prems(5) _ _ rest] Cons.prems(2,4,6,7) one
  have "idle_settings (fst pg') = idle_settings (fst pg1)" by (simp add: pg)
  then show ?case using make_call_quiet [OF ok small(1,4), of "os c" ev "fst pg1" "snd pg1"] one by (simp add: pg)
qed simp

lemma feed_calls_snoc:
  "feed_calls os ev (cs @ [c]) pg = go_bind (feed_calls os ev cs pg) (make_call (os c) ev c)"
  by (induction cs arbitrary: pg) (auto simp: go_bind_def split: sum.splits)

lemma fair_calls_prefix: "fair_calls os ev (cs @ cs') pg \<Longrightarrow> fair_calls os ev cs pg"
  by (induction cs arbitrary: pg) auto

lemma fair_calls_last:
  "fair_calls os ev (cs @ [c]) pg \<Longrightarrow> feed_calls os ev cs pg = Inr pg' \<Longrightarrow> fair_call (os c) c (fst pg')"
  by (induction cs arbitrary: pg) (auto elim!: go_bind_InrE)

lemma tick_calls_end:
  obtains cs where "tick_calls round ev = cs @ [CallIdle (tick_last round ev + 4000)]"
    "\<forall>c \<in> set cs. \<forall>now. c \<noteq> CallIdle now"
  by (rule that [of "butlast (tick_calls round ev)"]) (auto simp: tick_calls_def Let_def butlast_append split: if_splits)

text \<open>The detector is asked about a time past every event, by more than its gap.\<close>

lemma idle_call_advances:
  assumes ok: "feed_ok cfg k (Suc n) (p, g)" "k < 2 ^ 63" and n: "Suc n < 2 ^ 50"
    and gap: "sint (fst (idle_settings p)) \<le> 3400" and now: "5000 + 60 * int n \<le> sint now" "sint now < 6000 + 60 * int n"
    and call: "make_call os ev (CallIdle now) (p, g) = Inr (p', g')"
  obtains p1 where "p1 = snd (pl_should_advance now p)" "feed_ok cfg k (Suc n) (p1, g)"
    "idle_settings p1 = (fst (idle_settings p), snd (idle_settings p) + 1)"
    "pl_advance (fo_windows os, fo_sessions os) now p1 = Inr p'" "pl_should_advance now p = ((now, True), p1)"
proof -
  let ?d = "en_idle (pl_engine p)"
  obtain fed lost where r: "reached cfg fed lost p" "\<forall>ev \<in> set fed. demo_event (Suc n) ev"
    by (rule feed_ok_shows [OF ok])
  have "0 \<le> sint (i_last_event ?d) \<and> sint (i_last_event ?d) < 1600 + 60 * int n"
    using last_event_fed [OF r(1)] r(2) n by (auto simp: demo_event_def)
  then have "sint (now - i_last_event ?d) = sint now - sint (i_last_event ?d)" "3400 < sint now - sint (i_last_event ?d)"
    using now n by (auto intro!: sint_diff64)
  then have "\<not> now - i_last_event ?d <s i_gap_ms ?d" using gap by (simp add: idle_settings_def go_int)
  then obtain p1 where p1: "pl_should_advance now p = ((now, True), p1)"
      "idle_settings p1 = (fst (idle_settings p), snd (idle_settings p) + 1)"
    by (simp add: pl_should_advance_def should_advance_def idle_settings_def)
  have snd: "p1 = snd (pl_should_advance now p)" by (simp add: p1)
  then have "feed_ok cfg k (Suc n) (p1, g)" using ok(1) fed_ok_quiet by (simp add: feed_ok_def coordinator_frames)
  moreover have "pl_advance (fo_windows os, fo_sessions os) now p1 = Inr p'"
    using call by (auto simp: p1 elim!: go_bind_InrE)
  ultimately show thesis using that snd p1 by blast
qed

lemma idle_call_fires:
  assumes ok: "feed_ok cfg k (Suc n) (p, g)" "k < 2 ^ 63" and n: "Suc n < 2 ^ 50"
    and gap: "sint (fst (idle_settings p)) \<le> 3400" and now: "5000 + 60 * int n \<le> sint now" "sint now < 6000 + 60 * int n"
    and call: "make_call os ev (CallIdle now) (p, g) = Inr (p', g')"
  shows "idle_settings p' = (fst (idle_settings p), snd (idle_settings p) + 1)"
    and "sint now \<le> sint (confirmed_of (pl_tracker p'))"
proof -
  obtain p1 where p1: "feed_ok cfg k (Suc n) (p1, g)" "idle_settings p1 = (fst (idle_settings p), snd (idle_settings p) + 1)"
      "pl_advance (fo_windows os, fo_sessions os) now p1 = Inr p'"
    using idle_call_advances [OF assms] by metis
  obtain fed1 lost1 where r1: "reached cfg fed1 lost1 p1" by (rule feed_ok_shows [OF p1(1) ok(2)])
  from advance_frame [OF reached_shows [OF r1] p1(3)] p1(2)
  show "idle_settings p' = (fst (idle_settings p), snd (idle_settings p) + 1)"
    "sint now \<le> sint (confirmed_of (pl_tracker p'))" by (simp_all add: word_sle_eq)
qed

definition runs_ahead :: "engine_config \<Rightarrow> nat \<Rightarrow> demo \<Rightarrow> bool" where
  "runs_ahead cfg n d \<longleftrightarrow> idle_settings (de_pipe d) = (c_idle_timeout_ms cfg, of_nat n) \<and>
     (0 < n \<longrightarrow> sint (de_last d) + 4000 \<le> sint (confirmed_of (pl_tracker (de_pipe d))))"

lemma tick_last_time:
  assumes "1000 + 60 * int n \<le> sint (ev_timestamp ev)" "sint (ev_timestamp ev) < 1600 + 60 * int n" "n < 2 ^ 50"
  shows "sint (tick_last round ev + 4000) = sint (tick_last round ev) + 4000"
    "1000 + 60 * int n \<le> sint (tick_last round ev)" "sint (tick_last round ev) < 1900 + 60 * int n"
proof -
  have "in_int64 (sint (ev_timestamp ev) + sint (300 :: int64))" using assms by auto
  then have "sint (ev_timestamp ev + 300) = sint (ev_timestamp ev) + 300" using sint_add64 by fastforce
  then show b: "1000 + 60 * int n \<le> sint (tick_last round ev)" "sint (tick_last round ev) < 1900 + 60 * int n"
    using assms by (auto simp: tick_last_def)
  then have "in_int64 (sint (tick_last round ev) + sint (4000 :: int64))" using assms(3) by auto
  then show "sint (tick_last round ev + 4000) = sint (tick_last round ev) + 4000" using sint_add64 by fastforce
qed

text \<open>A tick is its calls up to the last one, which asks the detector.\<close>

lemma demo_tick_splits:
  assumes ok: "demo_ok cfg n d" and n: "Suc n < 2 ^ 50" and sz: "c_window_size_ms cfg \<noteq> 0"
    and fair: "fair_tick os d" and tick: "demo_tick os d = Inr d'"
  obtains ev g cs p1 g1 p2 g2 now where
    "gen_next (de_gen d) = Inr (ev, g)" "demo_event (Suc n) ev" "sint (ev_offset ev + 1) = int (Suc n)"
    "tick_calls (de_round d + 1) ev = cs @ [CallIdle now]" "fair_calls os ev cs (de_pipe d, g)"
    "feed_calls os ev cs (de_pipe d, g) = Inr (p1, g1)" "idle_settings p1 = idle_settings (de_pipe d)"
    "feed_ok cfg (8 * n + length cs) (Suc n) (p1, g1)" "8 * n + length cs < 2 ^ 63"
    "make_call (os (CallIdle now)) ev (CallIdle now) (p1, g1) = Inr (p2, g2)" "fair_call (os (CallIdle now)) (CallIdle now) p1"
    "5000 + 60 * int n \<le> sint now" "sint now < 6000 + 60 * int n" "sint now = sint (de_last d') + 4000"
    "d' = \<lparr>de_pipe = p2, de_gen = g2, de_round = de_round d + 1, de_offset = ev_offset ev + 1,
       de_last = tick_last (de_round d + 1) ev\<rparr>"
proof -
  have small: "8 * Suc n < 2 ^ 63" "n < 2 ^ 50" using n by simp_all
  obtain ev g where t: "gen_next (de_gen d) = Inr (ev, g)" "demo_event (Suc n) ev"
      "sint (ev_offset ev + 1) = int (Suc n)" "feed_ok cfg (8 * n) (Suc n) (de_pipe d, g)"
      "fair_calls os ev (tick_calls (de_round d + 1) ev) (de_pipe d, g)"
      "1000 + 60 * int n \<le> sint (ev_timestamp ev)" "sint (ev_timestamp ev) < 1600 + 60 * int n"
    using small(2) by (rule_tac demo_tick_begins [OF ok small(1) fair]) blast
  let ?now = "tick_last (de_round d + 1) ev + 4000"
  note time = tick_last_time [OF t(6,7) small(2), of "de_round d + 1"]
  obtain cs where cs: "tick_calls (de_round d + 1) ev = cs @ [CallIdle ?now]" "\<forall>c \<in> set cs. \<forall>now. c \<noteq> CallIdle now"
    by (rule tick_calls_end)
  note facts = tick_calls_facts [OF t(3), of "de_round d + 1", unfolded cs(1)]
  have len: "8 * n + length cs < 2 ^ 63" and within: "\<forall>c \<in> set cs. call_within (Suc n) c" using facts small(1) by simp_all
  have fair': "fair_calls os ev cs (de_pipe d, g)" using t(5) unfolding cs(1) by (rule fair_calls_prefix)
  from feed_calls_ok [OF t(4) len sz fair' t(2) within] obtain p1 g1
    where pre: "feed_calls os ev cs (de_pipe d, g) = Inr (p1, g1)" "feed_ok cfg (8 * n + length cs) (Suc n) (p1, g1)"
    by (metis surj_pair)
  have keep: "idle_settings p1 = idle_settings (de_pipe d)"
    using feed_calls_quiet [OF t(4) len sz fair' t(2) within cs(2) pre(1)] by simp
  obtain p2 g2 where call: "make_call (os (CallIdle ?now)) ev (CallIdle ?now) (p1, g1) = Inr (p2, g2)"
      and d': "d' = \<lparr>de_pipe = p2, de_gen = g2, de_round = de_round d + 1, de_offset = ev_offset ev + 1,
        de_last = tick_last (de_round d + 1) ev\<rparr>"
    using tick t(1) pre(1)
    by (auto simp: demo_tick_def cs(1) feed_calls_snoc Let_def simp del: make_call.simps elim!: go_bind_InrE)
  have last_fair: "fair_call (os (CallIdle ?now)) (CallIdle ?now) p1"
    using fair_calls_last [OF t(5) [unfolded cs(1)] pre(1)] by simp
  have "5000 + 60 * int n \<le> sint ?now" "sint ?now < 6000 + 60 * int n" using time by linarith+
  from that [OF t(1-3) cs(1) fair' pre(1) keep pre(2) len call last_fair this _ d'] time(1) show thesis by (simp add: d')
qed

lemma tick_runs_ahead:
  assumes ok: "demo_ok cfg n d" and n: "Suc n < 2 ^ 50" and sz: "c_window_size_ms cfg \<noteq> 0"
    and gap: "sint (c_idle_timeout_ms cfg) \<le> 3400" and fair: "fair_tick os d" and tick: "demo_tick os d = Inr d'"
    and ahead: "runs_ahead cfg n d"
  shows "runs_ahead cfg (Suc n) d'"
proof (rule demo_tick_splits [OF ok n sz fair tick])
  fix ev g cs p1 g1 p2 g2 now
  assume t: "idle_settings p1 = idle_settings (de_pipe d)"
    "feed_ok cfg (8 * n + length cs) (Suc n) (p1, g1)" "8 * n + length cs < 2 ^ 63"
    "make_call (os (CallIdle now)) ev (CallIdle now) (p1, g1) = Inr (p2, g2)"
    "5000 + 60 * int n \<le> sint now" "sint now < 6000 + 60 * int n" "sint now = sint (de_last d') + 4000"
    and d': "d' = \<lparr>de_pipe = p2, de_gen = g2, de_round = de_round d + 1, de_offset = ev_offset ev + 1,
       de_last = tick_last (de_round d + 1) ev\<rparr>"
  have gap': "sint (fst (idle_settings p1)) \<le> 3400" using ahead gap t(1) by (simp add: runs_ahead_def)
  have "de_pipe d' = p2" by (simp add: d')
  with idle_call_fires [OF t(2,3) n gap' t(5,6,4)] show "runs_ahead cfg (Suc n) d'"
    using ahead t(1,7) by (simp add: runs_ahead_def add.commute)
qed

lemma demo_runs_ahead:
  assumes "starts cfg p0" and "c_window_size_ms cfg \<noteq> 0" and "sint (c_idle_timeout_ms cfg) \<le> 3400"
    and "demo_run p0 n d" and "n < 2 ^ 50"
  shows "runs_ahead cfg n d"
  using assms(4,5)
proof (induction rule: demo_run.induct)
  case dr_start
  show ?case
    using assms(1) by (auto simp: runs_ahead_def starts_def new_pipeline_def new_engine_def new_demo_def
        idle_settings_def new_idle_detector_def elim!: go_bind_InrE)
next
  case (dr_tick n d os d')
  have "demo_ok cfg n d" using demo_run_ok [OF dr_tick.hyps(1) assms(1,2)] dr_tick.prems by simp
  from tick_runs_ahead [OF this dr_tick.prems assms(2,3) dr_tick.hyps(2,3)] dr_tick.IH dr_tick.prems
  show ?case by simp
qed

section \<open>Properties\<close>

text \<open>C21: the idle detector fires on every tick of the feed although the feed is never idle, and after
  each tick the confirmed watermark is at least four seconds past the last time the feed
  reached. This holds for every idle timeout up to 3400 milliseconds; the default is 3000.\<close>

theorem demo_watermark_runs_ahead:
  assumes "starts cfg p0" and "c_window_size_ms cfg \<noteq> 0" and "sint (c_idle_timeout_ms cfg) \<le> 3400"
    and "demo_run p0 n d" and "n < 2 ^ 50"
  shows "idle_fired (en_idle (pl_engine (de_pipe d))) = of_nat n \<and>
     (0 < n \<longrightarrow> sint (de_last d) + 4000 \<le> sint (confirmed_of (pl_tracker (de_pipe d))))"
  using demo_runs_ahead [OF assms] by (auto simp: runs_ahead_def idle_settings_def idle_fired_def)

text \<open>C22: \<^verbatim>\<open>main\<close> rejects exactly the flags with a value that is not positive. For
  the others the pipeline is constructed, and is one the properties of reachable pipelines apply to, when a slice
  can have as many elements as there are partitions; otherwise, as \<^verbatim>\<open>Validate\<close> sets no
  upper bound, \<^verbatim>\<open>main\<close> panics when it makes the slice of the partitions.\<close>

theorem main_starts_or_rejects:
  "case start_engine window_ms session_ms partitions of
     Inl err \<Rightarrow> sint window_ms \<le> 0 \<or> sint session_ms \<le> 0 \<or> sint partitions \<le> 0
   | Inr r \<Rightarrow> 0 < sint window_ms \<and> 0 < sint session_ms \<and> 0 < sint partitions \<and>
       (if sint partitions \<le> max_parts
        then \<exists>p0. r = Inr p0 \<and> starts (flag_config window_ms session_ms partitions) p0 \<and>
          reached (flag_config window_ms session_ms partitions) [] [] p0
        else r = Inl MakeSliceLen)"
proof (cases "0 < sint window_ms \<and> 0 < sint session_ms \<and> 0 < sint partitions")
  case True
  let ?cfg = "flag_config window_ms session_ms partitions"
  have parts: "c_partitions ?cfg = partitions" by (simp add: flag_config_def)
  have valid: "validate_config ?cfg = None"
    using True by (simp add: validate_config_iff_positive flag_config_def default_config_def)
  show ?thesis
  proof (cases "sint partitions \<le> max_parts")
    case fits: True
    obtain p0 where p0: "new_pipeline ?cfg (Some new_metrics) = Inr p0"
      using True fits by (auto simp: new_pipeline_def new_engine_def new_partitioned_store_def make_parts_total parts)
    have st: "starts ?cfg p0" using True p0 by (auto simp: starts_def parts)
    then have "reached ?cfg [] [] p0" by (auto simp: reached_def intro: pipeline_run.pr_start)
    then show ?thesis using True fits valid p0 st by (simp add: start_engine_def)
  next
    case False
    then have "new_pipeline ?cfg (Some new_metrics) = Inl MakeSliceLen"
      by (simp add: new_pipeline_def new_engine_def new_partitioned_store_def make_parts_def parts)
    then show ?thesis using True False valid by (simp add: start_engine_def)
  qed
next
  case False
  then have "validate_config (flag_config window_ms session_ms partitions) \<noteq> None"
    by (auto simp: validate_config_iff_positive flag_config_def)
  then obtain err where "validate_config (flag_config window_ms session_ms partitions) = Some err" by blast
  then show ?thesis using False by (auto simp: start_engine_def)
qed

lemma demo_state_empty:
  assumes "demo_ok cfg n d" "8 * n < 2 ^ 63"
  shows "state_get key (en_state (pl_engine (de_pipe d))) = None"
proof -
  from assms obtain fed lost where fed: "reached cfg fed lost (de_pipe d)" "\<forall>ev \<in> set fed. demo_event n ev"
    unfolding demo_ok_def by (metis feed_ok_shows)
  have "data_keys fed \<subseteq> set (gs_keys feed_spec)" using fed(2) by (auto simp: data_keys_def data_events_def demo_event_def)
  then have "card (data_keys fed) \<le> card (set (gs_keys feed_spec))" by (intro card_mono) simp_all
  also have "\<dots> \<le> 5" by (rule order_trans [OF card_length]) (simp add: feed_spec_def)
  finally have "card (data_keys fed) < 8" by simp
  from few_keys_empty_state [OF fed(1) this] show ?thesis by (auto simp: state_get_def)
qed

lemma progress_text_missing:
  assumes "state_get ''checkout'' (en_state (pl_engine (de_pipe d))) = None"
  shows "\<exists>front. progress_text d = front @ '' checkout='' @ show_int64 0"
  unfolding progress_text_def assms option.case append_assoc [symmetric] by (rule exI, rule refl)

text \<open>C20: the demo feed never panics, whatever the orders of the maps; and as it uses five keys, no delta
  is ever flushed: the value of any key is missing in every state, however long the feed runs, and each of
  its progress lines reports a zero for \<^verbatim>\<open>checkout\<close>.\<close>

theorem demo_never_panics_nor_fills_state:
  assumes "starts cfg p0" and "c_window_size_ms cfg \<noteq> 0" and "demo_run p0 n d" and "8 * Suc n < 2 ^ 63"
    and "fair_tick os d"
  shows "\<exists>d'. demo_tick os d = Inr d' \<and> state_get key (en_state (pl_engine (de_pipe d'))) = None \<and>
     (\<forall>line. progress_line d' = Some line \<longrightarrow> (\<exists>front. line = front @ '' checkout='' @ show_int64 0))"
proof -
  have "demo_ok cfg n d" using demo_run_ok [OF assms(3,1,2)] assms(4) by simp
  from demo_tick_ok [OF this assms(4,2,5)] obtain d' where d': "demo_tick os d = Inr d'" "demo_ok cfg (Suc n) d'"
    by auto
  note empty = demo_state_empty [OF d'(2) assms(4)]
  have "\<exists>front. line = front @ '' checkout='' @ show_int64 0" if "progress_line d' = Some line" for line
  proof -
    have "line = progress_text d'" using that by (simp add: progress_line_def split: if_splits)
    then show ?thesis using progress_text_missing [OF empty] by simp
  qed
  then show ?thesis using d'(1) empty by blast
qed

section \<open>The first tick\<close>

lemma first_event:
  "gen_next (new_generator feed_spec) = Inr (new_ping ''checkout'' 1000 0, (new_generator feed_spec)\<lparr>g_next := 1, g_emitted := 1\<rparr>)"
  by code_simp

lemma first_calls: "tick_calls 1 (new_ping ''checkout'' 1000 0) = [CallEmit, CallIdle 5000]"
  by code_simp

definition first_orders :: "feed_call \<Rightarrow> call_orders" where
  "first_orders c = \<lparr>fo_windows = [], fo_sessions = [''checkout''], fo_graph = [], fo_parts = []\<rparr>"

lemma first_tick_fair:
  assumes "new_pipeline one_config (Some new_metrics) = Inr p0"
  shows "fair_tick first_orders (new_demo p0)"
proof -
  let ?ev = "new_ping ''checkout'' 1000 0" and ?g = "(new_generator feed_spec)\<lparr>g_next := 1, g_emitted := 1\<rparr>"
  have p0: "en_windows (pl_engine p0) = new_window_manager 5000" "st_applied (en_state (pl_engine p0)) = {}"
      "pl_source p0 = new_source (new_buffer 256)" "\<not> mg_paused (pl_topology p0)"
      "se_sessions (en_sessions (pl_engine p0)) = Map.empty" "en_idle (pl_engine p0) = new_idle_detector 3000"
    using assms engine_topology_facts
    by (auto simp: new_pipeline_def new_engine_def one_config_def default_config_def new_state_store_def
        new_session_manager_def elim!: go_bind_InrE)
  let ?s = "(pl_source p0)\<lparr>so_buffer := (new_buffer 256)\<lparr>b_entries := [?ev]\<rparr>, so_last := 0\<rparr>"
  let ?e = "(pl_engine p0)\<lparr>en_idle := (en_idle (pl_engine p0))\<lparr>i_fired := 1\<rparr>\<rparr>"
  have emit: "pl_emit ?ev p0 = Inr (p0\<lparr>pl_source := ?s\<rparr>)"
    by (simp add: pl_emit_def source_emit_def p0 new_source_def buffer_add_def new_buffer_def heap_push_def
        heap_up.simps [of _ 0] Let_def new_ping_def)
  have idle: "pl_should_advance 5000 (p0\<lparr>pl_source := ?s\<rparr>) = ((5000, True), p0\<lparr>pl_source := ?s, pl_engine := ?e\<rparr>)"
    by (simp add: pl_should_advance_def should_advance_def p0 new_idle_detector_def go_int)
  have "fair_advance (first_orders (CallIdle 5000)) 5000 (p0\<lparr>pl_source := ?s, pl_engine := ?e\<rparr>)"
    unfolding fair_advance_def
  proof (intro allI impI)
    fix s t m e
    assume adv: "advance_to topology_process 5000 (pl_source (p0\<lparr>pl_source := ?s, pl_engine := ?e\<rparr>),
       pl_tracker (p0\<lparr>pl_source := ?s, pl_engine := ?e\<rparr>),
       (pl_topology (p0\<lparr>pl_source := ?s, pl_engine := ?e\<rparr>), pl_engine (p0\<lparr>pl_source := ?s, pl_engine := ?e\<rparr>))) = Inr (s, t, m, e)"
    have "buffer_ok (so_buffer ?s)" "so_pending ?s = 0"
      by (simp_all add: buffer_ok_def heap_upto_def p0 new_source_def)
    then obtain evs rest where f: "mset evs = filter_mset (due 5000) (buffer_events (so_buffer ?s))"
      and all: "\<And>(ing :: (manager \<times> engine) ingest_fun) t w. advance_to ing 5000 (?s, t, w) =
        go_bind (ingest_all ing evs w) (\<lambda>w'. Inr (?s\<lparr>so_buffer := rest,
          so_drained := so_drained ?s + 1\<rparr>, tracker_confirm (tracker_advance 5000 t), w'))"
      using advance_to_facts [of ?s 5000] by blast
    have "evs = [?ev]" using f by (simp add: buffer_events_def due_def event_time_def new_ping_def)
    then have "topology_process ?ev (pl_topology p0, ?e) = Inr (m, e)"
      using adv by (auto simp: all elim!: go_bind_InrE)
    then have "process ?ev (en_state_update (mark_applied 0) ?e) = Inr e"
      using p0(2,4) by (auto simp: mg_process_def apply_locked_def is_applied_def new_ping_def elim!: go_bind_InrE)
    then show "enum_of (fo_windows (first_orders (CallIdle 5000))) (wn_windows (en_windows e)) \<and>
        enum_of (fo_sessions (first_orders (CallIdle 5000))) (se_sessions (en_sessions e))"
      using p0(1,5) by (auto simp: process_ping new_ping_def first_orders_def enum_of_def new_window_manager_def
          touch_def Let_def split: if_splits)
  qed
  then show ?thesis
    by (simp add: fair_tick_def new_demo_def first_event first_calls emit idle)
qed

theorem demo_never_panics_nor_fills_state_witness:
  "\<exists>p0 d'. starts one_config p0 \<and> demo_tick first_orders (new_demo p0) = Inr d' \<and>
     state_get ''checkout'' (en_state (pl_engine (de_pipe d'))) = None"
proof -
  obtain p0 where p0: "new_pipeline one_config (Some new_metrics) = Inr p0" "starts one_config p0"
    using one_starts by blast
  have "c_window_size_ms one_config \<noteq> 0" by (simp add: one_config_def default_config_def)
  from demo_never_panics_nor_fills_state [OF p0(2) this demo_run.dr_start _ first_tick_fair [OF p0(1)], of "''checkout''"]
  show ?thesis using p0(2) by auto
qed

theorem demo_watermark_runs_ahead_witness:
  "\<exists>p0 d'. starts one_config p0 \<and> demo_tick first_orders (new_demo p0) = Inr d' \<and>
     idle_fired (en_idle (pl_engine (de_pipe d'))) = 1 \<and> 5000 \<le> sint (confirmed_of (pl_tracker (de_pipe d')))"
proof -
  obtain p0 where p0: "new_pipeline one_config (Some new_metrics) = Inr p0" "starts one_config p0"
    using one_starts by blast
  have cfg: "c_window_size_ms one_config \<noteq> 0" "sint (c_idle_timeout_ms one_config) \<le> 3400"
    by (simp_all add: one_config_def default_config_def)
  have fair: "fair_tick first_orders (new_demo p0)" by (rule first_tick_fair [OF p0(1)])
  from demo_tick_ok [OF demo_ok_new [OF p0(2)] _ cfg(1) fair] obtain d'
    where d': "demo_tick first_orders (new_demo p0) = Inr d'" by auto
  have run: "demo_run p0 (Suc 0) d'" by (rule demo_run.dr_tick [OF demo_run.dr_start fair d'])
  have "tick_last 1 (new_ping ''checkout'' 1000 0) = 1000" by code_simp
  then have "de_last d' = 1000"
    using d' by (auto simp: demo_tick_def new_demo_def first_event Let_def elim!: go_bind_InrE)
  with demo_watermark_runs_ahead [OF p0(2) cfg run] p0(2) d' show ?thesis by auto
qed

end
