(* ===== verification/Demo_Runs.thy ===== *)
theory Demo_Runs
  imports Demo
begin

text \<open>
  What the demo feed leaves in the pipeline: the engine's maps are finite, so an order to visit them
  always exists, and every event of the feed is applied or waits in the buffer of the paused topology.
\<close>

section \<open>The maps stay finite\<close>

definition finite_maps :: "engine \<Rightarrow> bool" where
  "finite_maps e \<longleftrightarrow> finite (dom (wn_windows (en_windows e))) \<and> finite (dom (se_sessions (en_sessions e)))"

lemma ingest_finite:
  assumes "ingest late ev (m, s) = Inr (out, m', s')"
  shows "finite (dom (wn_windows m')) = finite (dom (wn_windows m))"
  using assms by (auto simp: ingest_def Let_def split: option.splits if_splits elim!: go_bind_InrE)

lemma touch_finite: "finite (dom (se_sessions (touch key ts v b m))) = finite (dom (se_sessions m))"
  by (simp add: touch_def Let_def)

lemma process_finite: "process ev e = Inr e' \<Longrightarrow> finite_maps e' = finite_maps e"
proof (cases "ev_kind ev = KindData")
  case True
  assume "process ev e = Inr e'"
  then show ?thesis
    by (rule process_data [OF True]) (auto simp: finite_maps_def flush_frame touch_finite dest: ingest_finite)
qed (auto simp: process_ping finite_maps_def touch_finite)

lemma trigger_finite: "finite_maps (pl_engine (trigger_on_watermark orders c p)) = finite_maps (pl_engine p)"
proof -
  have windows: "finite (dom (wn_windows m')) = finite (dom (wn_windows m))"
    if "fold (trigger_window emit conf) ws (m, s, out) = (m', s', out')"
    for emit :: "window_id \<Rightarrow> int64 list \<Rightarrow> agg_store \<Rightarrow> window_result option \<times> agg_store" and conf ws m m' s s' out out'
    using that
  proof (induction ws arbitrary: m s out)
    case (Cons w ws)
    obtain m1 s1 out1 where one: "trigger_window emit conf w (m, s, out) = (m1, s1, out1)" by (metis prod_cases3)
    then have "finite (dom (wn_windows m1)) = finite (dom (wn_windows m))"
      by (auto simp: trigger_window_def Let_def split: option.splits if_splits prod.splits)
    then show ?case using Cons one by simp
  qed simp
  have sessions: "finite (dom (se_sessions m')) = finite (dom (se_sessions m))"
    if "fold (scan_session emit now) ks (m, s, out) = (m', s', out')"
    for emit :: "window_id \<Rightarrow> int64 list \<Rightarrow> agg_store \<Rightarrow> window_result option \<times> agg_store" and now ks m m' s s' out out'
    using that
  proof (induction ks arbitrary: m s out)
    case (Cons k ks)
    obtain m1 s1 out1 where one: "scan_session emit now k (m, s, out) = (m1, s1, out1)" by (metis prod_cases3)
    then have "finite (dom (se_sessions m1)) = finite (dom (se_sessions m))"
      by (auto simp: scan_session_def Let_def split: option.splits if_splits prod.splits)
    then show ?case using Cons one by simp
  qed simp
  show ?thesis
    by (auto simp: trigger_on_watermark_def Let_def count_emitted finite_maps_def maybe_trigger_def scan_timeout_def
        windows sessions split: prod.splits)
qed

lemma update_finite: "finite_maps (en_state_update f e) = finite_maps e"
  by (simp add: finite_maps_def)

lemma locked_finite:
  "apply_locked en_state en_state_update process ev e = Inr e' \<Longrightarrow> finite_maps e' = finite_maps e"
  by (erule en.apply_locked_same [where view = finite_maps]) (auto simp: update_finite dest: process_finite)

lemma topology_process_finite: "topology_process ev mw = Inr mw' \<Longrightarrow> finite_maps (snd mw') = finite_maps (snd mw)"
  by (cases mw) (auto simp: mg_process_def dest: locked_finite split: if_splits elim!: go_bind_InrE)

lemma advance_to_finite:
  assumes "advance_to topology_process ts (s, t, m, e) = Inr (s', t', m', e')"
  shows "finite_maps e' = finite_maps e"
  using assms drain_keeps [where view = "\<lambda>mw. finite_maps (snd mw)", OF topology_process_finite]
  by (fastforce simp: advance_to_def Let_def split: if_splits elim!: go_bind_InrE)

lemma advance_finite:
  assumes "pl_advance orders ts p = Inr p'"
  shows "finite_maps (pl_engine p') = finite_maps (pl_engine p)"
  using assms advance_to_finite
  by (auto simp: pl_advance_def Let_def fanout_notify_def fanout_add_def new_fanout_def
      on_watermark_confirmed_def trigger_finite elim!: go_bind_InrE)

lemma operations_finite:
  "pl_emit ev p = Inr p' \<Longrightarrow> finite_maps (pl_engine p') = finite_maps (pl_engine p)"
  "pl_apply_now ev p = Inr p' \<Longrightarrow> finite_maps (pl_engine p') = finite_maps (pl_engine p)"
  "pl_resume order p = Inr p' \<Longrightarrow> finite_maps (pl_engine p') = finite_maps (pl_engine p)"
  "run_checkpoint offset p = Inr p' \<Longrightarrow> finite_maps (pl_engine p') = finite_maps (pl_engine p)"
  "pl_resize parts n p = Inr p' \<Longrightarrow> finite_maps (pl_engine p') = finite_maps (pl_engine p)"
  "finite_maps (pl_engine (pl_pause p)) = finite_maps (pl_engine p)"
  "finite_maps (pl_engine (snd (pl_should_advance now p))) = finite_maps (pl_engine p)"
proof -
  show "finite_maps (pl_engine p') = finite_maps (pl_engine p)" if "pl_apply_now ev p = Inr p'"
    using that by (auto simp: pl_apply_now_def apply_now_def dest: locked_finite elim!: go_bind_InrE)
  show "finite_maps (pl_engine p') = finite_maps (pl_engine p)" if resume: "pl_resume order p = Inr p'"
  proof -
    obtain out m e where r: "mg_resume en_state en_state_update process order (pl_topology p, pl_engine p) = Inr (out, m, e)"
        and p': "pl_engine p' = e"
      using resume by (auto simp: pl_resume_def elim!: go_bind_InrE)
    have "finite_maps e = finite_maps (pl_engine p)"
      by (rule en.resume_same [where view = finite_maps, OF r]) (auto simp: update_finite dest: process_finite)
    then show ?thesis by (simp add: p')
  qed
  show "finite_maps (pl_engine p') = finite_maps (pl_engine p)" if step: "run_checkpoint offset p = Inr p'"
    using arg_cong [OF run_checkpoint_engine [OF step], of "\<lambda>p. finite_maps (pl_engine p)"] by (simp add: finite_maps_def)
qed (auto simp: pl_emit_def pl_resize_def pl_pause_def pl_should_advance_def finite_maps_def split: prod.splits
      elim!: go_bind_InrE)

lemma run_finite: "pipeline_run p0 fed lost p \<Longrightarrow> finite_maps (pl_engine p) = finite_maps (pl_engine p0)"
  by (induction rule: pipeline_run.induct) (simp_all add: operations_finite advance_finite)

lemma reached_finite:
  assumes "reached cfg fed lost p"
  shows "finite_maps (pl_engine p)"
proof -
  obtain p0 where p0: "starts cfg p0" "pipeline_run p0 fed lost p" using assms by (auto simp: reached_def)
  then have "finite_maps (pl_engine p0)"
    by (auto simp: starts_def new_pipeline_def new_engine_def finite_maps_def new_window_manager_def
        new_session_manager_def elim!: go_bind_InrE)
  then show ?thesis using run_finite [OF p0(2)] by simp
qed

lemma fair_orders_exist:
  assumes "reached cfg fed lost p"
  shows "\<exists>os. fair_advance os ts p"
proof (cases "advance_to topology_process ts (pl_source p, pl_tracker p, (pl_topology p, pl_engine p))")
  case (Inl x)
  then show ?thesis by (simp add: fair_advance_def)
next
  case (Inr r)
  obtain s t m e where r: "r = (s, t, m, e)" by (metis prod_cases4)
  have "finite_maps e" using advance_to_finite [OF Inr [unfolded r]] reached_finite [OF assms] by simp
  then obtain ws ks where "enum_of ws (wn_windows (en_windows e))" "enum_of ks (se_sessions (en_sessions e))"
    unfolding finite_maps_def using enum_of_exists by metis
  then have "fair_advance \<lparr>fo_windows = ws, fo_sessions = ks, fo_graph = [], fo_parts = []\<rparr> ts p"
    using Inr r by (simp add: fair_advance_def)
  then show ?thesis by blast
qed

section \<open>Every event arrives\<close>

text \<open>The runs of the feed lose nothing: the reorder buffer is empty when an event is emitted.\<close>

definition empty_handed :: "pipeline \<Rightarrow> bool" where
  "empty_handed p \<longleftrightarrow> b_entries (so_buffer (pl_source p)) = [] \<and> 1 \<le> sint (b_max_size (so_buffer (pl_source p)))"

lemma emit_keeps_all:
  assumes run: "pipeline_run p0 fed [] p" and key: "ev_key ev \<noteq> ''''" and empty: "empty_handed p"
    and step: "pl_emit ev p = Inr p'" and live: "\<not> so_stopped (pl_source p)"
  shows "pipeline_run p0 (fed @ [ev]) [] p'"
proof -
  have "heap_push event_time ev [] = [ev]" by (simp add: heap_push_def heap_up.simps [of _ 0])
  then have "source_emit collect_evicted ev (pl_source p, []) =
      Inr ((pl_source p)\<lparr>so_buffer := (so_buffer (pl_source p))\<lparr>b_entries := [ev]\<rparr>, so_last := ev_offset ev\<rparr>, [])"
    using empty live by (simp add: source_emit_def buffer_add_def empty_handed_def Let_def)
  from pipeline_run.pr_emit [OF run key step this] show ?thesis .
qed

definition fed_with :: "pipeline \<Rightarrow> nat \<Rightarrow> int64 set \<Rightarrow> pipeline \<Rightarrow> bool" where
  "fed_with p0 k offs p \<longleftrightarrow> (\<exists>fed. pipeline_run p0 fed [] p \<and> ev_offset ` set fed = offs \<and> length fed \<le> k)"

lemma fed_with_mono: "fed_with p0 k offs p \<Longrightarrow> k \<le> k' \<Longrightarrow> fed_with p0 k' offs p"
  unfolding fed_with_def using le_trans by blast

lemma fed_with_steps:
  assumes "fed_with p0 k offs p"
  shows "fair_advance os ts p \<Longrightarrow> pl_advance (fo_windows os, fo_sessions os) ts p = Inr p' \<Longrightarrow> fed_with p0 k offs p'"
    and "run_checkpoint offset p = Inr p' \<Longrightarrow> fed_with p0 k offs p'"
    and "fed_with p0 k offs (pl_pause p)" and "fed_with p0 k offs (snd (pl_should_advance now p))"
    and "ev_key ev \<noteq> '''' \<Longrightarrow> pl_apply_now ev p = Inr p' \<Longrightarrow> fed_with p0 (Suc k) (insert (ev_offset ev) offs) p'"
    and "enum_of order (build_adj (d_edges (mg_dag (pl_topology p)))) \<Longrightarrow> pl_resume order p = Inr p' \<Longrightarrow> fed_with p0 k offs p'"
    and "0 < sint n \<Longrightarrow> list_all2 enum_of orders (p_parts (en_parts (pl_engine p))) \<Longrightarrow>
           pl_resize orders n p = Inr p' \<Longrightarrow> fed_with p0 k offs p'"
    and "cp_retry offset (\<lambda>from (c, _). ((), c, ())) (pl_coordinator p, ()) = ((), c, ()) \<Longrightarrow>
           fed_with p0 k offs (p\<lparr>pl_coordinator := c\<rparr>)"
proof -
  obtain fed where fed: "pipeline_run p0 fed [] p" "ev_offset ` set fed = offs" "length fed \<le> k" using assms by (auto simp: fed_with_def)
  show "fed_with p0 k offs p'" if fair: "fair_advance os ts p"
    and step: "pl_advance (fo_windows os, fo_sessions os) ts p = Inr p'"
  proof -
    obtain s t m e where adv: "advance_to topology_process ts
        (pl_source p, pl_tracker p, (pl_topology p, pl_engine p)) = Inr (s, t, m, e)"
      using step by (auto simp: pl_advance_def elim!: go_bind_InrE)
    then have "enum_of (fo_windows os) (wn_windows (en_windows e))" "enum_of (fo_sessions os) (se_sessions (en_sessions e))"
      using fair by (simp_all add: fair_advance_def)
    from pipeline_run.pr_advance [OF fed(1) adv _ _ step] this show ?thesis using fed(2,3) by (auto simp: fed_with_def)
  qed
  show "fed_with p0 (Suc k) (insert (ev_offset ev) offs) p'" if "ev_key ev \<noteq> ''''" "pl_apply_now ev p = Inr p'"
    unfolding fed_with_def by (rule exI [of _ "fed @ [ev]"]) (use pipeline_run.pr_apply_now [OF fed(1) that] fed(2,3) in auto)
  note keep = exI [of "\<lambda>fed. pipeline_run p0 fed [] q \<and> ev_offset ` set fed = offs \<and> length fed \<le> k" fed for q, folded fed_with_def]
  show "fed_with p0 k offs p'" if "run_checkpoint offset p = Inr p'"
    using keep pipeline_run.pr_checkpoint [OF fed(1) that] fed(2,3) by blast
  show "fed_with p0 k offs (pl_pause p)" "fed_with p0 k offs (snd (pl_should_advance now p))"
    using keep pipeline_run.pr_pause [OF fed(1)] pipeline_run.pr_idle [OF fed(1)] fed(2,3) by blast+
  show "fed_with p0 k offs p'" if "enum_of order (build_adj (d_edges (mg_dag (pl_topology p))))" "pl_resume order p = Inr p'"
    using keep pipeline_run.pr_resume [OF fed(1) that] fed(2,3) by blast
  show "fed_with p0 k offs p'" if "0 < sint n" "list_all2 enum_of orders (p_parts (en_parts (pl_engine p)))"
      "pl_resize orders n p = Inr p'"
    using keep pipeline_run.pr_resize [OF fed(1) that] fed(2,3) by blast
  show "fed_with p0 k offs (p\<lparr>pl_coordinator := c\<rparr>)"
    if "cp_retry offset (\<lambda>from (c, _). ((), c, ())) (pl_coordinator p, ()) = ((), c, ())"
    using keep pipeline_run.pr_retry [OF fed(1) that] fed(2,3) by blast
qed

lemma call_keeps_all:
  assumes fed: "fed_with p0 k offs p" and ev: "ev_key ev \<noteq> ''''" "ev_offset ev \<in> offs" and c: "c \<noteq> CallEmit"
    and fair: "fair_call os c p" and call: "make_call os ev c (p, g) = Inr (p', g')"
  shows "fed_with p0 (Suc k) offs p'"
proof -
  have weak: "fed_with p0 (Suc k) offs p" by (rule fed_with_mono [OF fed]) simp
  show ?thesis
  proof (cases c)
    case (CallAdvance ts)
    then show ?thesis using call fair fed_with_steps(1) [OF weak] by (auto elim!: go_bind_InrE)
  next
    case (CallCheckpoint offset)
    then show ?thesis using call fed_with_steps(2) [OF weak] by (auto elim!: go_bind_InrE)
  next
    case CallPauseApply
    then obtain q where "pl_apply_now ev (pl_pause p) = Inr q" "p' = q" using call by (auto elim!: go_bind_InrE)
    with fed_with_steps(5) [OF fed_with_steps(3) [OF fed] ev(1)] ev(2) show ?thesis by (metis insert_absorb)
  next
    case CallResume
    then show ?thesis using call fair fed_with_steps(6) [OF weak] by (auto elim!: go_bind_InrE)
  next
    case CallResize
    have "0 < sint (other_count (partitions_now (en_router (pl_engine p))))" by (simp add: other_count_def)
    then show ?thesis using CallResize call fair fed_with_steps(7) [OF weak] by (auto elim!: go_bind_InrE)
  next
    case (CallRetry offset)
    then have "p' = p\<lparr>pl_coordinator := (pl_coordinator p)\<lparr>co_attempts := co_attempts (pl_coordinator p) + 1\<rparr>\<rparr>"
      using call by (simp add: cp_retry_def)
    then show ?thesis using fed_with_steps(8) [OF weak, of offset] by (simp add: cp_retry_def)
  next
    case (CallIdle now)
    let ?q = "snd (pl_should_advance now p)"
    have q: "fed_with p0 (Suc k) offs ?q" by (rule fed_with_steps(4) [OF weak])
    show ?thesis
      using call fair fed_with_steps(1) [OF q] q
      by (auto simp: CallIdle split: prod.splits if_splits elim!: go_bind_InrE)
  qed (use c in simp)
qed

lemma calls_keep_all:
  "fed_with p0 k offs (fst pg) \<Longrightarrow> ev_key ev \<noteq> '''' \<Longrightarrow> ev_offset ev \<in> offs \<Longrightarrow> CallEmit \<notin> set cs \<Longrightarrow>
   fair_calls os ev cs pg \<Longrightarrow> feed_calls os ev cs pg = Inr pg' \<Longrightarrow> fed_with p0 (k + length cs) offs (fst pg')"
proof (induction cs arbitrary: k pg)
  case (Cons c cs)
  obtain p g where pg: "pg = (p, g)" by (cases pg)
  obtain p1 g1 where one: "make_call (os c) ev c (p, g) = Inr (p1, g1)" and rest: "feed_calls os ev cs (p1, g1) = Inr pg'"
    using Cons.prems(6) by (auto simp: pg elim!: go_bind_InrE)
  have "fed_with p0 (Suc k) offs p1"
    using call_keeps_all [OF _ Cons.prems(2,3) _ _ one, of p0 k] Cons.prems(1,4,5) by (auto simp: pg)
  moreover have "fair_calls os ev cs (p1, g1)" using Cons.prems(5) one by (simp add: pg)
  ultimately show ?case using Cons.IH [of "Suc k" "(p1, g1)"] Cons.prems(2-4) rest by simp
qed simp

section \<open>The capacity of the reorder buffer\<close>

definition capacity :: "pipeline \<Rightarrow> int64" where
  "capacity p = b_max_size (so_buffer (pl_source p))"

lemma pop_capacity: "buffer_pop_min b = Inr (ev, b') \<Longrightarrow> b_max_size b' = b_max_size b"
  by (auto simp: buffer_pop_min_def Let_def split: if_splits elim!: go_bind_InrE)

lemma drain_capacity:
  "drain ing ts (s, w) = Inr (s', w') \<Longrightarrow> b_max_size (so_buffer s') = b_max_size (so_buffer s)"
proof (induction "length (b_entries (so_buffer s))" arbitrary: s w rule: less_induct)
  case less
  show ?case
  proof (cases "\<not> buffer_empty (so_buffer s) \<and> buffer_min_timestamp (so_buffer s) \<le>s ts")
    case True
    then obtain ev b w1 where pop: "buffer_pop_min (so_buffer s) = Inr (ev, b)"
        and rest: "drain ing ts (s\<lparr>so_buffer := b, so_pending := so_pending s\<rparr>, w1) = Inr (s', w')"
      using less.prems by (subst (asm) drain.simps) (auto simp: Let_def elim!: go_bind_InrE)
    have "b_max_size (so_buffer s') = b_max_size b"
      using less.hyps [OF _ rest] buffer_pop_shrinks [OF pop] by simp
    then show ?thesis using pop_capacity [OF pop] by simp
  next
    case False
    then have "drain ing ts (s, w) = Inr (s, w)" by (subst drain.simps) auto
    then show ?thesis using less.prems by simp
  qed
qed

lemma advance_capacity: "pl_advance orders ts p = Inr p' \<Longrightarrow> capacity p' = capacity p"
  by (auto simp: capacity_def pl_advance_def advance_to_def Let_def fanout_notify_def fanout_add_def new_fanout_def
      on_watermark_confirmed_def trigger_frame drain_capacity split: if_splits elim!: go_bind_InrE)

lemma operations_capacity:
  "pl_emit ev p = Inr p' \<Longrightarrow> capacity p' = capacity p"
  "pl_apply_now ev p = Inr p' \<Longrightarrow> capacity p' = capacity p"
  "pl_resume order p = Inr p' \<Longrightarrow> capacity p' = capacity p"
  "run_checkpoint offset p = Inr p' \<Longrightarrow> capacity p' = capacity p"
  "pl_resize parts n p = Inr p' \<Longrightarrow> capacity p' = capacity p"
  "capacity (pl_pause p) = capacity p" "capacity (snd (pl_should_advance now p)) = capacity p"
  by (auto simp: capacity_def pl_emit_def source_emit_def buffer_add_def Let_def pop_capacity pl_apply_now_def
      pl_resume_def run_checkpoint_frame(1) pl_resize_def pl_pause_def pl_should_advance_def
      split: if_splits prod.splits elim!: go_bind_InrE dest!: pop_capacity)

lemma run_capacity: "pipeline_run p0 fed lost p \<Longrightarrow> capacity p = capacity p0"
proof (induction rule: pipeline_run.induct)
  case (pr_retry fed lost p offset c)
  then show ?case by (simp add: capacity_def)
qed (simp_all add: operations_capacity advance_capacity)

section \<open>A tick leaves nothing behind\<close>

lemma idle_call_empties:
  assumes ok: "feed_ok cfg k (Suc n) (p, g)" "k < 2 ^ 63" and n: "Suc n < 2 ^ 50"
    and gap: "sint (fst (idle_settings p)) \<le> 3400" and now: "5000 + 60 * int n \<le> sint now" "sint now < 6000 + 60 * int n"
    and call: "make_call os ev (CallIdle now) (p, g) = Inr (p', g')"
  shows "b_entries (so_buffer (pl_source p')) = []"
proof (rule idle_call_advances [OF assms])
  fix p1
  assume p1: "feed_ok cfg k (Suc n) (p1, g)" and step: "pl_advance (fo_windows os, fo_sessions os) now p1 = Inr p'"
  obtain fed lost where r: "reached cfg fed lost p1" "\<forall>ev \<in> set fed. demo_event (Suc n) ev"
    by (rule feed_ok_shows [OF p1 ok(2)])
  note inv = reached_shows [OF r(1)]
  obtain s t m e where adv: "advance_to topology_process now
      (pl_source p1, pl_tracker p1, (pl_topology p1, pl_engine p1)) = Inr (s, t, m, e)"
    using step by (auto simp: pl_advance_def elim!: go_bind_InrE)
  have "due now x" if "x \<in># buffer_events (so_buffer (pl_source p1))" for x
  proof -
    have "x \<in> set fed" using inv that by (auto simp: pipeline_shows_def places_def)
    then have "sint (ev_timestamp x) < 1600 + 60 * int n" using r(2) n by (auto simp: demo_event_def)
    then show ?thesis using now(1) by (simp add: due_def event_time_def word_sle_eq)
  qed
  then have none: "filter_mset (\<lambda>x. \<not> due now x) (buffer_events (so_buffer (pl_source p1))) = {#}" by auto
  show "b_entries (so_buffer (pl_source p')) = []"
  proof (rule advance_split [OF inv adv step])
    assume "buffer_events (so_buffer s) = filter_mset (\<lambda>x. \<not> due now x) (buffer_events (so_buffer (pl_source p1)))"
      and p': "p' = trigger_on_watermark (fo_windows os, fo_sessions os) (confirmed_of t)
         (p1\<lparr>pl_source := s, pl_tracker := t, pl_topology := m, pl_engine := e\<rparr>)"
    then have "buffer_events (so_buffer s) = {#}" using none by simp
    then show "b_entries (so_buffer (pl_source p')) = []" by (simp add: p' trigger_frame buffer_events_def)
  qed
qed

definition settled :: "pipeline \<Rightarrow> nat \<Rightarrow> demo \<Rightarrow> bool" where
  "settled p0 n d \<longleftrightarrow> fed_with p0 (8 * n) (of_nat ` {..<n}) (de_pipe d) \<and> b_entries (so_buffer (pl_source (de_pipe d))) = []"

lemma tick_settles:
  assumes ok: "demo_ok cfg n d" and n: "Suc n < 2 ^ 50" and sz: "c_window_size_ms cfg \<noteq> 0"
    and gap: "sint (fst (idle_settings (de_pipe d))) \<le> 3400" and cap: "1 \<le> sint (capacity p0)"
    and fair: "fair_tick os d" and tick: "demo_tick os d = Inr d'" and st: "settled p0 n d"
  shows "settled p0 (Suc n) d'"
proof (rule demo_tick_splits [OF ok n sz fair tick])
  fix ev g cs p1 g1 p2 g2 now
  assume ev: "demo_event (Suc n) ev" "sint (ev_offset ev + 1) = int (Suc n)"
    and cs: "tick_calls (de_round d + 1) ev = cs @ [CallIdle now]" "fair_calls os ev cs (de_pipe d, g)"
      "feed_calls os ev cs (de_pipe d, g) = Inr (p1, g1)"
    and p1: "idle_settings p1 = idle_settings (de_pipe d)" "feed_ok cfg (8 * n + length cs) (Suc n) (p1, g1)"
      "8 * n + length cs < 2 ^ 63"
    and idle: "make_call (os (CallIdle now)) ev (CallIdle now) (p1, g1) = Inr (p2, g2)"
      "fair_call (os (CallIdle now)) (CallIdle now) p1" "5000 + 60 * int n \<le> sint now" "sint now < 6000 + 60 * int n"
    and d': "d' = \<lparr>de_pipe = p2, de_gen = g2, de_round = de_round d + 1, de_offset = ev_offset ev + 1,
       de_last = tick_last (de_round d + 1) ev\<rparr>"
  let ?offs = "of_nat ` {..<Suc n}"
  obtain cs' where cs': "cs = CallEmit # cs'" "CallEmit \<notin> set cs'"
    using cs(1) by (cases cs) (auto simp: tick_calls_def Let_def split: if_splits dest: arg_cong [of _ _ set])
  have key: "ev_key ev \<noteq> ''''" by (rule feed_keys_nonempty [OF ev(1)])
  have "sint (of_nat (Suc n) :: int64) = int (Suc n)" by (rule sint_of_nat64) (use n in simp)
  then have "ev_offset ev + 1 = of_nat (Suc n)" using ev(2) by (simp add: sint_inject64 [symmetric])
  then have off: "ev_offset ev = of_nat n" by simp
  obtain q where q: "pl_emit ev (de_pipe d) = Inr q" "feed_calls os ev cs' (q, g) = Inr (p1, g1)"
      "fair_calls os ev cs' (q, g)"
    using cs(2,3) by (auto simp: cs' elim!: go_bind_InrE)
  have fed: "fed_with p0 (8 * n) (of_nat ` {..<n}) (de_pipe d)" using st by (simp add: settled_def)
  then obtain fed' where f: "pipeline_run p0 fed' [] (de_pipe d)" "ev_offset ` set fed' = of_nat ` {..<n}" "length fed' \<le> 8 * n"
    by (auto simp: fed_with_def)
  have "empty_handed (de_pipe d)"
    using st run_capacity [OF f(1)] cap by (simp add: empty_handed_def settled_def capacity_def)
  moreover have "\<not> so_stopped (pl_source (de_pipe d))"
  proof -
    have "feed_ok cfg (8 * n) n (de_pipe d, de_gen d)" "8 * n < 2 ^ 63" using ok n by (simp_all add: demo_ok_def)
    then obtain fed lost where "reached cfg fed lost (de_pipe d)" by (rule feed_ok_shows)
    from reached_shows [OF this] show ?thesis by (simp add: pipeline_shows_def plumbing_ok_def)
  qed
  ultimately have "pipeline_run p0 (fed' @ [ev]) [] q" by (rule emit_keeps_all [OF f(1) key _ q(1)])
  moreover have "ev_offset ` set (fed' @ [ev]) = ?offs" using f(2) by (simp add: off lessThan_Suc)
  moreover have "length (fed' @ [ev]) \<le> Suc (8 * n)" using f(3) by simp
  ultimately have "fed_with p0 (Suc (8 * n)) ?offs q" unfolding fed_with_def by blast
  then have "fed_with p0 (Suc (8 * n) + length cs') ?offs p1"
    using calls_keep_all [of p0 "Suc (8 * n)" ?offs "(q, g)" ev cs' os "(p1, g1)"] key cs'(2) q(2,3) by (simp add: off)
  from call_keeps_all [OF this key _ _ idle(2,1)] have "fed_with p0 (Suc (Suc (8 * n) + length cs')) ?offs p2"
    by (simp add: off)
  then have "fed_with p0 (8 * Suc n) ?offs p2"
    by (rule fed_with_mono) (use tick_calls_facts(1) [OF ev(2), of "de_round d + 1"] cs(1) cs'(1) in simp)
  moreover have "b_entries (so_buffer (pl_source p2)) = []"
    by (rule idle_call_empties [OF p1(2,3) n _ idle(3,4,1)]) (use gap p1(1) in simp)
  ultimately show "settled p0 (Suc n) d'" by (simp add: settled_def d')
qed

lemma demo_settles:
  assumes "starts cfg p0" and "c_window_size_ms cfg \<noteq> 0" and "sint (c_idle_timeout_ms cfg) \<le> 3400"
    and "1 \<le> sint (c_buffer_size cfg)" and "demo_run p0 n d" and "n < 2 ^ 50"
  shows "settled p0 n d"
  using assms(5,6)
proof (induction rule: demo_run.induct)
  case dr_start
  have "fed_with p0 0 {} p0" unfolding fed_with_def by (rule exI [of _ "[]"]) (simp add: pipeline_run.pr_start)
  then show ?case
    using assms(1) by (auto simp: settled_def new_demo_def starts_def new_pipeline_def new_source_def new_buffer_def
        elim!: go_bind_InrE)
next
  case (dr_tick n d os d')
  have n: "n < 2 ^ 50" "8 * n < 2 ^ 63" using dr_tick.prems by simp_all
  have "demo_ok cfg n d" by (rule demo_run_ok [OF dr_tick.hyps(1) assms(1,2) n(2)])
  moreover have "sint (fst (idle_settings (de_pipe d))) \<le> 3400"
    using demo_runs_ahead [OF assms(1-3) dr_tick.hyps(1) n(1)] assms(3) by (simp add: runs_ahead_def)
  moreover have "1 \<le> sint (capacity p0)"
    using assms(1,4) by (auto simp: capacity_def starts_def new_pipeline_def new_source_def new_buffer_def
        elim!: go_bind_InrE)
  ultimately show ?case
    using tick_settles [OF _ dr_tick.prems assms(2) _ _ dr_tick.hyps(2,3)] dr_tick.IH n(1) by blast
qed

definition seen_offsets :: "pipeline \<Rightarrow> int64 set" where
  "seen_offsets p = st_applied (en_state (pl_engine p)) \<union> ev_offset ` set (mg_buffer (pl_topology p))"

text \<open>With an empty reorder buffer and nothing evicted, an event is applied or in the paused buffer.\<close>

lemma fed_with_seen:
  assumes start: "starts cfg p0" and fed: "fed_with p0 k offs p" "k < 2 ^ 63"
    and empty: "b_entries (so_buffer (pl_source p)) = []"
  shows "seen_offsets p = offs"
proof -
  obtain fed where f: "pipeline_run p0 fed [] p" "ev_offset ` set fed = offs" "length fed \<le> k"
    using fed(1) by (auto simp: fed_with_def)
  have r: "reached cfg fed [] p" using start f(1,3) fed(2) by (auto simp: reached_def)
  obtain log where l: "ev_offset ` set log = st_applied (en_state (pl_engine p))" "set log \<subseteq> set fed" "places fed [] p"
    by (rule reached_ledger [OF r])
  have "st_applied (en_state (pl_engine p)) \<subseteq> offs" using image_mono [OF l(2), of ev_offset] l(1) f(2) by simp
  moreover have "ev_offset ` set (mg_buffer (pl_topology p)) \<subseteq> offs" using l(3) f(2) by (auto simp: places_def)
  moreover have "offs \<subseteq> seen_offsets p"
    using l(3) empty f(2) by (auto simp: seen_offsets_def places_def is_applied_def buffer_events_def)
  ultimately show ?thesis by (auto simp: seen_offsets_def)
qed

end
