(* ===== verification/Lifecycle.thy ===== *)
theory Lifecycle
  imports Demo_Runs
begin

text \<open>
  \<^verbatim>\<open>cmd/streamengine/main.go\<close> after the configuration: the goroutines of the
  program as one step relation. The feed ticks until its stop channel is closed; the signal goroutine
  closes it, waits for the end of the feed and shuts the server down; \<^verbatim>\<open>main\<close>
  serves until \<^verbatim>\<open>ListenAndServe\<close> returns, and with \<^verbatim>\<open>main\<close>
  the program ends. Of the server only its state and the number of open requests appear.
\<close>

section \<open>The program\<close>

datatype feed_phase = Feeding | FeedDone
datatype signal_phase = AwaitSignal | AwaitFeed | ShuttingDown | SignalDone
datatype server_phase = ServerNew | ServerListening | ServerClosed
datatype main_phase = Serving | Returned | Fatal string | Crashed panic

record program =
  pg_demo :: demo
  pg_feed :: feed_phase
  pg_stop :: bool
  pg_pending :: bool
  pg_signal :: signal_phase
  pg_server :: server_phase
  pg_open :: nat
  pg_expired :: bool
  pg_main :: main_phase

definition new_program :: "pipeline \<Rightarrow> program" where
  "new_program p = \<lparr>pg_demo = new_demo p, pg_feed = Feeding, pg_stop = False, pg_pending = False,
     pg_signal = AwaitSignal, pg_server = ServerNew, pg_open = 0, pg_expired = False, pg_main = Serving\<rparr>"

definition stopping :: "demo \<Rightarrow> pipeline" where
  "stopping d = (de_pipe d)\<lparr>pl_source := source_stop (pl_source (de_pipe d))\<rparr>"

text \<open>
  Every step needs \<^verbatim>\<open>main\<close> to be serving. The label tells the ticks. A tick
  is possible even when the stop channel is closed: a select with several ready cases takes any of
  them. The channel of signals holds one of them. \<^verbatim>\<open>Shutdown\<close> closes the listener at
  once, then waits for the open requests or for its context, which expires after three seconds; \<^verbatim>\<open>ListenAndServe\<close>
  returns \<^verbatim>\<open>ErrServerClosed\<close> as soon as it is called, also when it comes first.
\<close>

inductive program_step :: "bool \<Rightarrow> program \<Rightarrow> program \<Rightarrow> bool" where
  ps_tick: "program_step True g (g\<lparr>pg_demo := d\<rparr>)"
    if "pg_main g = Serving" "pg_feed g = Feeding" "fair_tick os (pg_demo g)" "demo_tick os (pg_demo g) = Inr d"
| ps_tick_panics: "program_step True g (g\<lparr>pg_main := Crashed e\<rparr>)"
    if "pg_main g = Serving" "pg_feed g = Feeding" "fair_tick os (pg_demo g)" "demo_tick os (pg_demo g) = Inl e"
| ps_feed_ends: "program_step False g (g\<lparr>pg_demo := (pg_demo g)\<lparr>de_pipe := p\<rparr>, pg_feed := FeedDone\<rparr>)"
    if "pg_main g = Serving" "pg_feed g = Feeding" "pg_stop g"
      "fair_advance os (de_last (pg_demo g) + 10000) (stopping (pg_demo g))" "demo_stop os (pg_demo g) = Inr p"
| ps_feed_panics: "program_step False g (g\<lparr>pg_main := Crashed e\<rparr>)"
    if "pg_main g = Serving" "pg_feed g = Feeding" "pg_stop g"
      "fair_advance os (de_last (pg_demo g) + 10000) (stopping (pg_demo g))" "demo_stop os (pg_demo g) = Inl e"
| ps_signal: "program_step False g (g\<lparr>pg_pending := True\<rparr>)" if "pg_main g = Serving"
| ps_take: "program_step False g (g\<lparr>pg_pending := False, pg_stop := True, pg_signal := AwaitFeed\<rparr>)"
    if "pg_main g = Serving" "pg_signal g = AwaitSignal" "pg_pending g"
| ps_shutdown: "program_step False g (g\<lparr>pg_signal := ShuttingDown, pg_server := ServerClosed\<rparr>)"
    if "pg_main g = Serving" "pg_signal g = AwaitFeed" "pg_feed g = FeedDone"
| ps_expires: "program_step False g (g\<lparr>pg_expired := True\<rparr>)"
    if "pg_main g = Serving" "pg_signal g = ShuttingDown"
| ps_shutdown_ends: "program_step False g (g\<lparr>pg_signal := SignalDone\<rparr>)"
    if "pg_main g = Serving" "pg_signal g = ShuttingDown" "pg_open g = 0 \<or> pg_expired g"
| ps_listen: "program_step False g (g\<lparr>pg_server := ServerListening\<rparr>)"
    if "pg_main g = Serving" "pg_server g = ServerNew"
| ps_request: "program_step False g (g\<lparr>pg_open := Suc (pg_open g)\<rparr>)"
    if "pg_main g = Serving" "pg_server g = ServerListening"
| ps_reply: "program_step False g (g\<lparr>pg_open := pg_open g - 1\<rparr>)"
    if "pg_main g = Serving" "0 < pg_open g"
| ps_fails: "program_step False g (g\<lparr>pg_main := Fatal (''http server: '' @ err)\<rparr>)"
    if "pg_main g = Serving" "pg_server g \<noteq> ServerClosed"
| ps_returns: "program_step False g (g\<lparr>pg_main := Returned\<rparr>)"
    if "pg_main g = Serving" "pg_server g = ServerClosed"

inductive program_run :: "pipeline \<Rightarrow> nat \<Rightarrow> program \<Rightarrow> bool" for p0 where
  pg_start: "program_run p0 0 (new_program p0)"
| pg_quiet: "program_run p0 n g'" if "program_run p0 n g" "program_step False g g'"
| pg_ticks: "program_run p0 (Suc n) g'" if "program_run p0 n g" "program_step True g g'"

section \<open>The last advance\<close>

text \<open>The flags that \<^verbatim>\<open>main\<close> accepts give a pipeline the feed's theorems apply to.\<close>

definition started :: "pipeline \<Rightarrow> bool" where
  "started p0 \<longleftrightarrow> (\<exists>window_ms session_ms partitions. start_engine window_ms session_ms partitions = Inr (Inr p0))"

lemma started_config:
  assumes "started p0"
  obtains cfg where "starts cfg p0" "c_window_size_ms cfg \<noteq> 0" "sint (c_idle_timeout_ms cfg) \<le> 3400"
    "1 \<le> sint (c_buffer_size cfg)"
proof -
  obtain w s k where st: "start_engine w s k = Inr (Inr p0)" using assms by (auto simp: started_def)
  let ?cfg = "flag_config w s k"
  have v: "validate_config ?cfg = None" and p0: "new_pipeline ?cfg (Some new_metrics) = Inr p0"
    using st by (auto simp: start_engine_def Let_def split: option.splits)
  then have pos: "0 < sint w" "0 < sint k" by (auto simp: validate_config_iff_positive flag_config_def)
  show thesis
    by (rule that [of ?cfg]) (use pos p0 in \<open>auto simp: starts_def flag_config_def default_config_def\<close>)
qed

lemma run_reached:
  assumes "started p0" "demo_run p0 n d" "n < 2 ^ 50"
  obtains cfg fed lost where "reached cfg fed lost (de_pipe d)" "settled p0 n d" "starts cfg p0"
proof -
  obtain cfg where cfg: "starts cfg p0" "c_window_size_ms cfg \<noteq> 0" "sint (c_idle_timeout_ms cfg) \<le> 3400"
      "1 \<le> sint (c_buffer_size cfg)" by (rule started_config [OF assms(1)])
  have n: "8 * n < 2 ^ 63" using assms(3) by simp
  have "feed_ok cfg (8 * n) n (de_pipe d, de_gen d)"
    using demo_run_ok [OF assms(2) cfg(1,2) n] by (simp add: demo_ok_def)
  then obtain fed lost where r: "reached cfg fed lost (de_pipe d)" by (rule feed_ok_shows [OF _ n])
  show thesis by (rule that [OF r demo_settles [OF cfg assms(2,3)] cfg(1)])
qed

text \<open>With the reorder buffer empty, the last advance only moves the watermark and triggers.\<close>

lemma stop_advance:
  assumes "b_entries (so_buffer (pl_source (de_pipe d))) = []" "so_pending (pl_source (de_pipe d)) = 0"
  shows "advance_to topology_process ts (pl_source (stopping d), pl_tracker (stopping d),
      pl_topology (stopping d), pl_engine (stopping d)) =
    Inr ((source_stop (pl_source (de_pipe d)))\<lparr>so_drained := so_drained (pl_source (de_pipe d)) + 1\<rparr>,
      tracker_confirm (tracker_advance ts (pl_tracker (de_pipe d))), pl_topology (de_pipe d), pl_engine (de_pipe d))"
  using assms by (simp add: advance_to_def drain.simps stopping_def source_stop_def buffer_empty_def Let_def)

lemma run_stops:
  assumes "started p0" "demo_run p0 n d" "n < 2 ^ 50"
  shows "\<exists>p. demo_stop os d = Inr p \<and> so_stopped (pl_source p) \<and> b_entries (so_buffer (pl_source p)) = [] \<and>
     seen_offsets p = of_nat ` {..<n} \<and> de_last d + 10000 \<le>s confirmed_of (pl_tracker p)"
    and "\<exists>os. fair_advance os (de_last d + 10000) (stopping d)"
proof -
  obtain cfg fed lost where r: "reached cfg fed lost (de_pipe d)" and st: "settled p0 n d" and p0: "starts cfg p0"
    by (rule run_reached [OF assms])
  have empty: "b_entries (so_buffer (pl_source (de_pipe d))) = []" using st by (simp add: settled_def)
  have "so_pending (pl_source (de_pipe d)) = 0" using reached_shows [OF r] by (simp add: pipeline_shows_def plumbing_ok_def)
  note adv = stop_advance [OF empty this]
  have "8 * n < 2 ^ 63" using assms(3) by simp
  then have seen: "seen_offsets (de_pipe d) = of_nat ` {..<n}"
    using fed_with_seen [OF p0 _ _ empty] st by (auto simp: settled_def)
  let ?ts = "de_last d + 10000"
  let ?p = "trigger_on_watermark (fo_windows os, fo_sessions os)
      (confirmed_of (tracker_confirm (tracker_advance ?ts (pl_tracker (de_pipe d)))))
      ((de_pipe d)\<lparr>pl_source := (source_stop (pl_source (de_pipe d)))\<lparr>so_drained := so_drained (pl_source (de_pipe d)) + 1\<rparr>,
        pl_tracker := tracker_confirm (tracker_advance ?ts (pl_tracker (de_pipe d)))\<rparr>)"
  have "demo_stop os d = pl_advance (fo_windows os, fo_sessions os) ?ts (stopping d)"
    by (simp add: demo_stop_def stopping_def Let_def)
  also have "\<dots> = Inr ?p"
    by (simp only: pl_advance_def adv)
       (simp add: stopping_def Let_def fanout_notify_def fanout_add_def new_fanout_def on_watermark_confirmed_def)
  finally have stop: "demo_stop os d = Inr ?p" .
  have "?ts \<le>s confirmed_of (tracker_confirm (tracker_advance ?ts (pl_tracker (de_pipe d))))"
    by (auto simp: tracker_confirm_def tracker_advance_def confirmed_of_def word_sle_eq word_sless_alt)
  then show "\<exists>p. demo_stop os d = Inr p \<and> so_stopped (pl_source p) \<and> b_entries (so_buffer (pl_source p)) = [] \<and>
     seen_offsets p = of_nat ` {..<n} \<and> ?ts \<le>s confirmed_of (pl_tracker p)"
    using stop empty seen by (simp add: trigger_frame source_stop_def seen_offsets_def)
  obtain ws ks where "enum_of ws (wn_windows (en_windows (pl_engine (de_pipe d))))"
      "enum_of ks (se_sessions (en_sessions (pl_engine (de_pipe d))))"
    using reached_finite [OF r] unfolding finite_maps_def using enum_of_exists by metis
  then have "fair_advance \<lparr>fo_windows = ws, fo_sessions = ks, fo_graph = [], fo_parts = []\<rparr> ?ts (stopping d)"
    by (simp add: fair_advance_def adv)
  then show "\<exists>os. fair_advance os ?ts (stopping d)" by blast
qed

section \<open>The invariant of the program\<close>

definition feed_done :: "nat \<Rightarrow> pipeline \<Rightarrow> bool" where
  "feed_done n p \<longleftrightarrow> so_stopped (pl_source p) \<and> b_entries (so_buffer (pl_source p)) = [] \<and> seen_offsets p = of_nat ` {..<n}"

definition program_ok :: "pipeline \<Rightarrow> nat \<Rightarrow> program \<Rightarrow> bool" where
  "program_ok p0 n g \<longleftrightarrow>
     (case pg_feed g of Feeding \<Rightarrow> demo_run p0 n (pg_demo g) | FeedDone \<Rightarrow> pg_stop g \<and> feed_done n (de_pipe (pg_demo g))) \<and>
     (pg_stop g \<longleftrightarrow> pg_signal g \<noteq> AwaitSignal) \<and>
     (pg_server g = ServerClosed \<longleftrightarrow> pg_signal g \<in> {ShuttingDown, SignalDone}) \<and>
     (pg_server g = ServerClosed \<longrightarrow> pg_feed g = FeedDone) \<and>
     (pg_main g = Returned \<longrightarrow> pg_server g = ServerClosed) \<and> (\<forall>e. pg_main g \<noteq> Crashed e)"

lemma quiet_step_ok:
  assumes "program_step b g g'" "\<not> b" and ok: "program_ok p0 n g" and start: "started p0" and n: "n < 2 ^ 50"
  shows "program_ok p0 n g'"
  using assms(1,2)
proof (cases rule: program_step.cases)
  case (ps_feed_ends os p)
  have "demo_run p0 n (pg_demo g)" using ok ps_feed_ends by (simp add: program_ok_def)
  from run_stops(1) [OF start this n, of os] ps_feed_ends have "feed_done n p" by (auto simp: feed_done_def)
  then show ?thesis using ok ps_feed_ends by (auto simp: program_ok_def)
next
  case (ps_feed_panics os e)
  have "demo_run p0 n (pg_demo g)" using ok ps_feed_panics by (simp add: program_ok_def)
  from run_stops(1) [OF start this n, of os] ps_feed_panics show ?thesis by auto
qed (use ok in \<open>auto simp: program_ok_def split: feed_phase.splits\<close>)

lemma tick_step_ok:
  assumes "program_step b g g'" "b" and ok: "program_ok p0 n g" and start: "started p0" and n: "n < 2 ^ 50"
  shows "program_ok p0 (Suc n) g'"
  using assms(1,2)
proof (cases rule: program_step.cases)
  case (ps_tick os d)
  have "demo_run p0 n (pg_demo g)" using ok ps_tick by (simp add: program_ok_def)
  from demo_run.dr_tick [OF this ps_tick(5,6)] show ?thesis using ok ps_tick by (auto simp: program_ok_def)
next
  case (ps_tick_panics os e)
  have run: "demo_run p0 n (pg_demo g)" using ok ps_tick_panics by (simp add: program_ok_def)
  obtain cfg where cfg: "starts cfg p0" "c_window_size_ms cfg \<noteq> 0" by (rule started_config [OF start])
  have n': "8 * n < 2 ^ 63" "8 * Suc n < 2 ^ 63" using n by simp_all
  from demo_tick_ok [OF demo_run_ok [OF run cfg n'(1)] n'(2) cfg(2) ps_tick_panics(5)] ps_tick_panics(6)
  show ?thesis by auto
qed auto

lemma program_run_ok: "program_run p0 n g \<Longrightarrow> started p0 \<Longrightarrow> n < 2 ^ 50 \<Longrightarrow> program_ok p0 n g"
proof (induction rule: program_run.induct)
  case pg_start
  show ?case by (simp add: program_ok_def new_program_def demo_run.dr_start)
next
  case (pg_quiet n g g')
  then show ?case using quiet_step_ok by blast
next
  case (pg_ticks n g g')
  then show ?case using tick_step_ok [OF pg_ticks.hyps(2)] by simp
qed

section \<open>The way out\<close>

lemma step_out:
  assumes ok: "program_ok p0 n g" and start: "started p0" and n: "n < 2 ^ 50" and main: "pg_main g = Serving"
  shows "pg_signal g = AwaitSignal \<Longrightarrow> pg_pending g \<Longrightarrow>
      \<exists>g'. program_step False g g' \<and> pg_main g' = Serving \<and> pg_signal g' = AwaitFeed \<and> program_ok p0 n g'"
    and "pg_signal g = AwaitFeed \<Longrightarrow> pg_feed g = Feeding \<Longrightarrow>
      \<exists>g'. program_step False g g' \<and> pg_main g' = Serving \<and> pg_signal g' = AwaitFeed \<and> pg_feed g' = FeedDone \<and>
        pg_open g' = pg_open g \<and> program_ok p0 n g'"
    and "pg_signal g = AwaitFeed \<Longrightarrow> pg_feed g = FeedDone \<Longrightarrow>
      \<exists>g'. program_step False g g' \<and> pg_main g' = Serving \<and> pg_signal g' = ShuttingDown \<and> pg_open g' = pg_open g \<and>
        program_ok p0 n g'"
    and "pg_signal g \<in> {ShuttingDown, SignalDone} \<Longrightarrow>
      \<exists>g'. program_step False g g' \<and> pg_main g' = Returned \<and> pg_signal g' = pg_signal g \<and> pg_open g' = pg_open g"
proof -
  note keep = quiet_step_ok [OF _ _ ok start n]
  show "\<exists>g'. program_step False g g' \<and> pg_main g' = Serving \<and> pg_signal g' = AwaitFeed \<and> program_ok p0 n g'"
    if "pg_signal g = AwaitSignal" "pg_pending g"
    using ps_take [OF main that] keep [OF ps_take [OF main that]] main by (intro exI conjI) (assumption | simp)+
  show "\<exists>g'. program_step False g g' \<and> pg_main g' = Serving \<and> pg_signal g' = AwaitFeed \<and> pg_feed g' = FeedDone \<and>
      pg_open g' = pg_open g \<and> program_ok p0 n g'" if f: "pg_signal g = AwaitFeed" "pg_feed g = Feeding"
  proof -
    have run: "demo_run p0 n (pg_demo g)" "pg_stop g" using ok f by (simp_all add: program_ok_def)
    obtain os where os: "fair_advance os (de_last (pg_demo g) + 10000) (stopping (pg_demo g))"
      using run_stops(2) [OF start run(1) n] by blast
    obtain p where p: "demo_stop os (pg_demo g) = Inr p" using run_stops(1) [OF start run(1) n] by blast
    note step = ps_feed_ends [OF main f(2) run(2) os p]
    show ?thesis using step keep [OF step] main f by (intro exI conjI) (assumption | simp)+
  qed
  show "\<exists>g'. program_step False g g' \<and> pg_main g' = Serving \<and> pg_signal g' = ShuttingDown \<and> pg_open g' = pg_open g \<and>
      program_ok p0 n g'" if "pg_signal g = AwaitFeed" "pg_feed g = FeedDone"
    using ps_shutdown [OF main that] keep [OF ps_shutdown [OF main that]] main by (intro exI conjI) (assumption | simp)+
  show "\<exists>g'. program_step False g g' \<and> pg_main g' = Returned \<and> pg_signal g' = pg_signal g \<and> pg_open g' = pg_open g"
    if "pg_signal g \<in> {ShuttingDown, SignalDone}"
  proof -
    have "pg_server g = ServerClosed" using ok that by (simp add: program_ok_def)
    from ps_returns [OF main this] show ?thesis by (intro exI conjI) (assumption | simp)+
  qed
qed

lemma way_out:
  assumes ok: "program_ok p0 n g" and start: "started p0" and n: "n < 2 ^ 50" and main: "pg_main g = Serving"
    and sig: "pg_pending g \<or> pg_signal g \<noteq> AwaitSignal"
  shows "\<exists>k g'. k \<le> 4 \<and> (program_step False ^^ k) g g' \<and> pg_main g' = Returned"
proof -
  have last: "\<exists>g'. program_step False h g' \<and> pg_main g' = Returned"
    if "program_ok p0 n h" "pg_main h = Serving" "pg_signal h \<in> {ShuttingDown, SignalDone}" for h
    using step_out(4) [OF that(1) start n that(2,3)] by blast
  have down: "\<exists>g'. (program_step False ^^ 2) h g' \<and> pg_main g' = Returned"
    if h: "program_ok p0 n h" "pg_main h = Serving" "pg_signal h = AwaitFeed" "pg_feed h = FeedDone" for h
  proof -
    obtain h' where h': "program_step False h h'" "pg_main h' = Serving" "pg_signal h' = ShuttingDown" "program_ok p0 n h'"
      using step_out(3) [OF h(1) start n h(2-4)] by blast
    then obtain g' where "program_step False h' g'" "pg_main g' = Returned" using last [of h'] by blast
    then show ?thesis using h'(1) by (auto simp: numeral_2_eq_2)
  qed
  have feed: "\<exists>k g'. k \<le> 3 \<and> (program_step False ^^ k) h g' \<and> pg_main g' = Returned"
    if h: "program_ok p0 n h" "pg_main h = Serving" "pg_signal h = AwaitFeed" for h
  proof (cases "pg_feed h")
    case Feeding
    then obtain h' where h': "program_step False h h'" "pg_main h' = Serving" "pg_signal h' = AwaitFeed"
        "pg_feed h' = FeedDone" "program_ok p0 n h'"
      using step_out(2) [OF h(1) start n h(2,3)] by blast
    then obtain g' where "(program_step False ^^ 2) h' g'" "pg_main g' = Returned" using down by blast
    then have "(program_step False ^^ Suc 2) h g'" using h'(1) by (meson relpowp_Suc_I2)
    then show ?thesis using \<open>pg_main g' = Returned\<close> by (intro exI [of _ "Suc 2"]) auto
  next
    case FeedDone
    then show ?thesis using down [OF h FeedDone] by (intro exI [of _ 2]) auto
  qed
  show ?thesis
  proof (cases "pg_signal g")
    case AwaitSignal
    then obtain h where h: "program_step False g h" "pg_main h = Serving" "pg_signal h = AwaitFeed" "program_ok p0 n h"
      using step_out(1) [OF ok start n main] sig by blast
    then obtain k g' where "k \<le> 3" "(program_step False ^^ k) h g'" "pg_main g' = Returned" using feed by blast
    then have "(program_step False ^^ Suc k) g g'" using h(1) by (meson relpowp_Suc_I2)
    then show ?thesis using \<open>k \<le> 3\<close> \<open>pg_main g' = Returned\<close> by (intro exI [of _ "Suc k"]) auto
  next
    case AwaitFeed
    then show ?thesis using feed [OF ok main AwaitFeed] by (metis le_SucI eval_nat_numeral(2,3) semiring_norm(26-28))
  next
    case ShuttingDown
    then obtain g' where "program_step False g g'" "pg_main g' = Returned" using last [OF ok main] by blast
    then show ?thesis using relpowp_1 [of "program_step False"] by (intro exI [of _ 1] exI [of _ g']) simp
  next
    case SignalDone
    then obtain g' where "program_step False g g'" "pg_main g' = Returned" using last [OF ok main] by blast
    then show ?thesis using relpowp_1 [of "program_step False"] by (intro exI [of _ 1] exI [of _ g']) simp
  qed
qed

lemma default_starts: "\<exists>p0. start_engine 5000 10000 4 = Inr (Inr p0)"
  by (auto simp: start_engine_def Let_def flag_config_def default_config_def validate_config_def new_pipeline_def
      new_engine_def new_partitioned_store_def make_parts_def max_parts_def word_sle_eq split: option.splits)

section \<open>Properties\<close>

text \<open>C13: the feed of the program loses no event: after each tick the reorder buffer is empty, and the
  events up to the tick are exactly those applied or waiting in the buffer of a paused topology.\<close>

theorem demo_applies_every_event:
  assumes "started p0" and "demo_run p0 n d" and "n < 2 ^ 50"
  shows "b_entries (so_buffer (pl_source (de_pipe d))) = [] \<and>
     st_applied (en_state (pl_engine (de_pipe d))) \<union> ev_offset ` set (mg_buffer (pl_topology (de_pipe d))) =
       of_nat ` {..<n} \<and>
     (mg_paused (pl_topology (de_pipe d)) \<or> mg_buffer (pl_topology (de_pipe d)) = [])"
proof -
  obtain cfg fed lost where r: "reached cfg fed lost (de_pipe d)" and st: "settled p0 n d" and p0: "starts cfg p0"
    by (rule run_reached [OF assms])
  have "8 * n < 2 ^ 63" using assms(3) by simp
  then have "seen_offsets (de_pipe d) = of_nat ` {..<n}"
    using fed_with_seen [OF p0] st by (auto simp: settled_def)
  then show ?thesis
    using st reached_shows [OF r] by (auto simp: settled_def seen_offsets_def pipeline_shows_def plumbing_ok_def)
qed

text \<open>C14: the program never crashes by a panic of the feed, and \<^verbatim>\<open>main\<close> returns only
  after the feed has ended: then the source is stopped and empty, and every event of the feed has been applied or
  is still in the buffer of the topology, which a program that stops during a pause gives up.\<close>

theorem main_returns_after_the_feed:
  assumes "started p0" and "program_run p0 n g" and "n < 2 ^ 50"
  shows "case pg_main g of
     Crashed e \<Rightarrow> False
   | Returned \<Rightarrow> pg_feed g = FeedDone \<and> so_stopped (pl_source (de_pipe (pg_demo g))) \<and>
       b_entries (so_buffer (pl_source (de_pipe (pg_demo g)))) = [] \<and>
       st_applied (en_state (pl_engine (de_pipe (pg_demo g)))) \<union>
         ev_offset ` set (mg_buffer (pl_topology (de_pipe (pg_demo g)))) = of_nat ` {..<n}
   | _ \<Rightarrow> True"
  using program_run_ok [OF assms(2,1,3)]
  by (auto simp: program_ok_def feed_done_def seen_offsets_def split: main_phase.splits feed_phase.splits)

text \<open>C15: a signal always ends the program: as long as \<^verbatim>\<open>main\<close> serves, once a signal has
  arrived at most four steps, none of them a tick, lead to the return of \<^verbatim>\<open>main\<close>; no request and
  no state of the pipeline can prevent it.\<close>

theorem signal_ends_the_program:
  assumes "started p0" and "program_run p0 n g" and "n < 2 ^ 50" and "pg_main g = Serving"
    and "pg_pending g \<or> pg_signal g \<noteq> AwaitSignal"
  shows "\<exists>k g'. k \<le> 4 \<and> (program_step False ^^ k) g g' \<and> pg_main g' = Returned"
  by (rule way_out [OF program_run_ok [OF assms(2,1,3)] assms(1,3,4,5)])

text \<open>C39: the graceful shutdown is not waited for: whatever the number of open requests, the program
  started with the default flags can end with all of them open, while \<^verbatim>\<open>Shutdown\<close> still waits.\<close>

theorem main_returns_with_open_requests:
  "\<exists>p0. start_engine 5000 10000 4 = Inr (Inr p0) \<and>
     (\<forall>m. \<exists>g. program_run p0 0 g \<and> pg_main g = Returned \<and> pg_open g = m \<and> pg_signal g = ShuttingDown)"
proof -
  obtain p0 where p0: "start_engine 5000 10000 4 = Inr (Inr p0)" using default_starts by blast
  then have start: "started p0" by (auto simp: started_def)
  have "\<exists>g. program_run p0 0 g \<and> pg_main g = Returned \<and> pg_open g = m \<and> pg_signal g = ShuttingDown" for m
  proof -
    let ?g = "\<lambda>m. (new_program p0)\<lparr>pg_server := ServerListening, pg_open := m\<rparr>"
    let ?h = "(?g m)\<lparr>pg_pending := False, pg_stop := True, pg_signal := AwaitFeed\<rparr>"
    have "program_run p0 0 (?g m)"
    proof (induction m)
      case 0
      from pg_quiet [OF pg_start ps_listen] show ?case by (simp add: new_program_def)
    next
      case (Suc m)
      from pg_quiet [OF Suc ps_request] show ?case by (simp add: new_program_def)
    qed
    from pg_quiet [OF this ps_signal] have "program_run p0 0 ((?g m)\<lparr>pg_pending := True\<rparr>)" by (simp add: new_program_def)
    from pg_quiet [OF this ps_take] have h: "program_run p0 0 ?h" by (simp add: new_program_def)
    have n: "0 < (2 :: nat) ^ 50" by simp
    have h': "pg_main ?h = Serving" "pg_signal ?h = AwaitFeed" "pg_feed ?h = Feeding" "pg_open ?h = m"
      by (simp_all add: new_program_def)
    obtain g1 where g1: "program_step False ?h g1" "pg_main g1 = Serving" "pg_signal g1 = AwaitFeed"
        "pg_feed g1 = FeedDone" "pg_open g1 = m" "program_ok p0 0 g1"
      using step_out(2) [OF program_run_ok [OF h start n] start n h'(1-3)] h'(4) by metis
    obtain g2 where g2: "program_step False g1 g2" "pg_main g2 = Serving" "pg_signal g2 = ShuttingDown" "pg_open g2 = m"
        "program_ok p0 0 g2"
      using step_out(3) [OF g1(6) start n g1(2-4)] g1(5) by metis
    obtain g3 where g3: "program_step False g2 g3" "pg_main g3 = Returned" "pg_signal g3 = ShuttingDown" "pg_open g3 = m"
      using step_out(4) [OF g2(5) start n g2(2)] g2(3,4) by auto
    have "program_run p0 0 g3" using pg_quiet h g1(1) g2(1) g3(1) by metis
    then show ?thesis using g3 by blast
  qed
  then show ?thesis using p0 by blast
qed

section \<open>Witnesses\<close>

theorem demo_applies_every_event_witness:
  "\<exists>p0. start_engine 5000 10000 4 = Inr (Inr p0) \<and> demo_run p0 0 (new_demo p0) \<and>
     st_applied (en_state (pl_engine p0)) \<union> ev_offset ` set (mg_buffer (pl_topology p0)) = {}"
proof -
  obtain p0 where p0: "start_engine 5000 10000 4 = Inr (Inr p0)" using default_starts by blast
  then have start: "started p0" by (auto simp: started_def)
  have run: "demo_run p0 0 (new_demo p0)" by (rule demo_run.dr_start)
  have "st_applied (en_state (pl_engine p0)) \<union> ev_offset ` set (mg_buffer (pl_topology p0)) = {}"
    using demo_applies_every_event [OF start run] by (simp add: new_demo_def)
  then show ?thesis using p0 run by blast
qed

theorem main_returns_after_the_feed_witness:
  "\<exists>p0 g. start_engine 5000 10000 4 = Inr (Inr p0) \<and> program_run p0 0 g \<and> pg_main g = Returned \<and> pg_feed g = FeedDone"
proof -
  obtain p0 where p0: "start_engine 5000 10000 4 = Inr (Inr p0)" using default_starts by blast
  then have start: "started p0" by (auto simp: started_def)
  have "program_run p0 0 ((new_program p0)\<lparr>pg_pending := True\<rparr>)"
    by (rule pg_quiet [OF pg_start ps_signal]) (simp add: new_program_def)
  moreover obtain k g where "(program_step False ^^ k) ((new_program p0)\<lparr>pg_pending := True\<rparr>) g" "pg_main g = Returned"
    using way_out [OF program_run_ok [OF calculation start] start] by (auto simp: new_program_def)
  moreover have "(program_step False ^^ k) h g \<Longrightarrow> program_run p0 0 h \<Longrightarrow> program_run p0 0 g" for h
    by (induction k arbitrary: g) (auto intro: pg_quiet)
  ultimately have run: "program_run p0 0 g" "pg_main g = Returned" by blast+
  from main_returns_after_the_feed [OF start run(1)] run p0 show ?thesis by auto
qed

theorem signal_ends_the_program_witness:
  "\<exists>p0 k g. start_engine 5000 10000 4 = Inr (Inr p0) \<and>
     (program_step False ^^ k) ((new_program p0)\<lparr>pg_pending := True\<rparr>) g \<and> pg_main g = Returned"
proof -
  obtain p0 where p0: "start_engine 5000 10000 4 = Inr (Inr p0)" using default_starts by blast
  then have start: "started p0" by (auto simp: started_def)
  have "program_run p0 0 ((new_program p0)\<lparr>pg_pending := True\<rparr>)"
    by (rule pg_quiet [OF pg_start ps_signal]) (simp add: new_program_def)
  from signal_ends_the_program [OF start this] p0 show ?thesis by (auto simp: new_program_def)
qed

end
