(* ===== verification/XXHash_Marshal.thy ===== *)
theory XXHash_Marshal
  imports XXHash
begin

text \<open>
  The rest of the vendored digest (\<^verbatim>\<open>xxhash.go\<close>): \<^verbatim>\<open>Sum\<close>, \<^verbatim>\<open>Reset\<close>,
  \<^verbatim>\<open>WriteString\<close> and the binary form of the state, with the round trip through it.
\<close>

section \<open>Operations\<close>

definition new_digest :: digest where
  "new_digest = new_with_seed 0"

definition digest_reset :: "digest \<Rightarrow> digest" where
  "digest_reset d = reset_with_seed 0 d"

definition digest_size :: nat where "digest_size = 8"

definition digest_block_size :: nat where "digest_block_size = 32"

text \<open>The hash in big-endian order, after the bytes of \<open>b\<close>.\<close>

definition digest_sum :: "byte list \<Rightarrow> digest \<Rightarrow> byte list" where
  "digest_sum b d = (let s = digest_sum64 d in b @ map (\<lambda>k. ucast (drop_bit k s)) [56, 48, 40, 32, 24, 16, 8, 0])"

definition write_string :: "string \<Rightarrow> digest \<Rightarrow> digest" where
  "write_string s d = digest_write (map of_char s) d"

definition magic :: "byte list" where
  "magic = map of_char [CHR ''x'', CHR ''x'', CHR ''h'', CHR 0x06]"

definition marshaled_size :: nat where
  "marshaled_size = length magic + 8 * 5 + 32"

text \<open>\<^verbatim>\<open>binary.LittleEndian.PutUint64\<close> into eight bytes.\<close>

fun le_bytes :: "nat \<Rightarrow> uint64 \<Rightarrow> byte list" where
  "le_bytes 0 x = []"
| "le_bytes (Suc n) x = ucast x # le_bytes n (drop_bit 8 x)"

definition append_uint64 :: "byte list \<Rightarrow> uint64 \<Rightarrow> byte list" where
  "append_uint64 b x = b @ le_bytes 8 x"

definition consume_uint64 :: "byte list \<Rightarrow> byte list \<times> uint64" where
  "consume_uint64 b = (drop 8 b, u64 b)"

text \<open>The slice was made with the full capacity, so the reslice at the end extends it by zero bytes.\<close>

definition marshal_binary :: "digest \<Rightarrow> byte list" where
  "marshal_binary d = (case d_lanes d of (v1, v2, v3, v4) \<Rightarrow>
     let b = magic;
         b = append_uint64 b v1;
         b = append_uint64 b v2;
         b = append_uint64 b v3;
         b = append_uint64 b v4;
         b = append_uint64 b (d_total d);
         b = b @ take (d_n d) (d_mem d)
     in b @ replicate (length (d_mem d) - d_n d) 0)"

definition bad_identifier :: string where "bad_identifier = ''xxhash: invalid hash state identifier''"
definition bad_size :: string where "bad_size = ''xxhash: invalid hash state size''"

definition unmarshal_binary :: "byte list \<Rightarrow> digest \<Rightarrow> string + digest" where
  "unmarshal_binary b d =
     (if length b < length magic \<or> take (length magic) b \<noteq> magic then Inl bad_identifier
      else if length b \<noteq> marshaled_size then Inl bad_size
      else let b = drop (length magic) b;
               (b, v1) = consume_uint64 b;
               (b, v2) = consume_uint64 b;
               (b, v3) = consume_uint64 b;
               (b, v4) = consume_uint64 b;
               (b, total) = consume_uint64 b
           in Inr (d\<lparr>d_lanes := (v1, v2, v3, v4), d_total := total, d_mem := copy_at 0 b (d_mem d),
                     d_n := unat (total mod of_nat (length (d_mem d)))\<rparr>))"

section \<open>Little-endian bytes\<close>

lemma le_bytes_length [simp]: "length (le_bytes n x) = n"
  by (induction n arbitrary: x) simp_all

lemma bit_le_word:
  "bit (le_word bs :: uint64) i \<longleftrightarrow> i < 64 \<and> i div 8 < length bs \<and> bit (bs ! (i div 8)) (i mod 8)"
proof (induction bs arbitrary: i)
  case (Cons b bs)
  show ?case
  proof (cases "i < 8")
    case True
    then show ?thesis by (auto simp: bit_simps)
  next
    case False
    then obtain j where j: "i = j + 8" by (metis add.commute le_Suc_ex linorder_not_less)
    have "(j + 8) div 8 = Suc (j div 8)" "(j + 8) mod 8 = j mod 8" by simp_all
    then show ?thesis using Cons.IH [of j] by (auto simp: j bit_simps dest: bit_imp_le_length)
  qed
qed simp

lemma bit_le_bytes: "k < n \<Longrightarrow> bit (le_bytes n x ! k) i \<longleftrightarrow> i < 8 \<and> bit x (8 * k + i)"
proof (induction n arbitrary: x k)
  case (Suc n)
  show ?case
  proof (cases k)
    case 0
    then show ?thesis by (simp add: bit_simps)
  next
    case (Suc k')
    then show ?thesis using Suc.prems Suc.IH [of k' "drop_bit 8 x"] by (simp add: bit_simps algebra_simps)
  qed
qed simp

lemma le_word_bytes: "le_word (le_bytes 8 x) = x"
proof (rule bit_word_eqI)
  fix i assume "i < LENGTH(64)"
  then have "i div 8 < 8" by simp
  moreover have "8 * (i div 8) + i mod 8 = i" by simp
  ultimately have "i < 64 \<and> i div 8 < length (le_bytes 8 x) \<and> bit (le_bytes 8 x ! (i div 8)) (i mod 8) \<longleftrightarrow> bit x i"
    using \<open>i < LENGTH(64)\<close> by (simp add: bit_le_bytes)
  then show "bit (le_word (le_bytes 8 x) :: uint64) i \<longleftrightarrow> bit x i" by (simp only: bit_le_word)
qed

lemma consume_bytes: "consume_uint64 (le_bytes 8 x @ r) = (r, x)"
  by (simp add: consume_uint64_def u64_def le_word_bytes del: le_bytes.simps)

section \<open>The round trip\<close>

lemma represents_n: "represents seed d x \<Longrightarrow> d_n d = length x mod 32"
  using blocks_left [of "seed_lanes seed" x] by (auto simp: represents_def)

text \<open>The binary form in terms of the represented bytes.\<close>

lemma unmarshal_marshal:
  assumes d: "represents seed d x" and old: "length (d_mem old) = 32"
  shows "\<exists>d'. unmarshal_binary (marshal_binary d) old = Inr d' \<and> represents seed d' x"
proof -
  obtain v1 v2 v3 v4 where v: "d_lanes d = (v1, v2, v3, v4)" by (metis prod_cases4)
  let ?mem = "take (d_n d) (d_mem d) @ replicate (32 - d_n d) 0"
  have m: "length (d_mem d) = 32" "d_n d < 32" using d by (simp_all add: represents_def)
  have form: "marshal_binary d = magic @ le_bytes 8 v1 @ le_bytes 8 v2 @ le_bytes 8 v3 @ le_bytes 8 v4 @
      le_bytes 8 (d_total d) @ ?mem"
    by (simp add: marshal_binary_def v m append_uint64_def Let_def del: le_bytes.simps)
  have size: "length (marshal_binary d) = marshaled_size"
    using m by (simp add: form marshaled_size_def del: le_bytes.simps)
  let ?d' = "old\<lparr>d_lanes := (v1, v2, v3, v4), d_total := d_total d, d_mem := copy_at 0 ?mem (d_mem old),
                 d_n := unat (d_total d mod of_nat (length (d_mem old)))\<rparr>"
  have eq: "unmarshal_binary (marshal_binary d) old = Inr ?d'"
    using size by (simp add: unmarshal_binary_def form consume_bytes Let_def del: le_bytes.simps)
  have "copy_at 0 ?mem (d_mem old) = ?mem" using m old by (simp add: copy_at_def)
  moreover have "unat (d_total d mod of_nat (length (d_mem old))) = d_n d"
  proof -
    have "unat (d_total d mod 32) = unat (d_total d) mod 32" by (simp add: unat_mod_distrib)
    also have "\<dots> = length x mod 2 ^ 64 mod 32"
      using d by (simp add: represents_def unat_of_nat)
    also have "\<dots> = length x mod 32" by (simp add: mod_mod_cancel)
    finally show ?thesis using represents_n [OF d] old by simp
  qed
  ultimately have "represents seed ?d' x"
    using d m by (simp add: represents_def v)
  then show ?thesis using eq by blast
qed

section \<open>Properties\<close>

text \<open>C26: a digest survives its binary form: saving the state after any writes and loading it into any
  digest succeeds, and whatever is written afterwards hashes as if the digest had never been saved.\<close>

theorem digest_marshal_round_trip:
  assumes "length (d_mem old) = 32" and "length (concat before @ concat after) < 2 ^ 64"
  shows "\<exists>d. unmarshal_binary (marshal_binary (fold digest_write before (new_with_seed 0))) old = Inr d \<and>
     digest_sum64 (fold digest_write after d) = sum64 (concat before @ concat after)"
proof -
  have "represents 0 (fold digest_write before (new_with_seed 0)) (concat before)"
    using represents_writes [OF represents_new, of 0 before] by simp
  from unmarshal_marshal [OF this assms(1)] obtain d where
    d: "unmarshal_binary (marshal_binary (fold digest_write before (new_with_seed 0))) old = Inr d"
       "represents 0 d (concat before)" by blast
  from represents_sum64 [OF represents_writes [OF d(2)] assms(2)] d(1) show ?thesis by blast
qed

theorem digest_marshal_round_trip_witness:
  "\<exists>d. unmarshal_binary (marshal_binary (digest_write (replicate 40 1) (new_with_seed 0))) (new_with_seed 9) = Inr d \<and>
     digest_sum64 (digest_write [2, 3] d) = sum64 (replicate 40 1 @ [2, 3])"
  using digest_marshal_round_trip [of "new_with_seed 9" "[replicate 40 1]" "[[2, 3]]"]
  by (simp add: new_with_seed_def reset_with_seed_def)

text \<open>Loading rejects exactly the inputs that do not start with the identifier or have the wrong
  length.\<close>

lemma unmarshal_errors:
  "unmarshal_binary b d = Inl e \<longleftrightarrow>
     (take 4 b \<noteq> magic \<and> e = bad_identifier) \<or> (take 4 b = magic \<and> length b \<noteq> 76 \<and> e = bad_size)"
proof -
  have "length magic = 4" "marshaled_size = 76" by (simp_all add: magic_def marshaled_size_def)
  moreover from this have "take 4 b = magic \<Longrightarrow> 4 \<le> length b" by (metis length_take min.cobounded1)
  ultimately show ?thesis by (auto simp: unmarshal_binary_def Let_def split: prod.splits)
qed

end
