(* ===== verification/Json.thy ===== *)
theory Json
  imports Prelude
begin

text \<open>
  What the HTTP handlers use of \<^verbatim>\<open>encoding/json\<close> (Go 1.23): the text
  \<^verbatim>\<open>Marshal\<close> produces for the values of the status, and a reader of such
  texts, which stands for the client.
\<close>

section \<open>Values and documents\<close>

text \<open>
  The Go values that are marshalled: integers of any size, strings of bytes, slices, of which the nil
  slice is \<open>None\<close>, structs with their exported field names in order, and maps with their entries in
  the order of iteration. \<open>GoOther\<close> is a value of a type that has no JSON form.
\<close>

datatype go_value = GoInt int | GoBool bool | GoString string | GoSlice "go_value list option"
  | GoStruct "(string \<times> go_value) list" | GoMap "(string \<times> go_value) list" | GoOther string

datatype json = JNull | JBool bool | JInt int | JString string | JArray "json list"
  | JObject "(string \<times> json) list"

text \<open>The first error in the order of encoding is the result.\<close>

fun collect :: "('k \<times> (string + 'a)) list \<Rightarrow> string + ('k \<times> 'a) list" where
  "collect [] = Inr []"
| "collect ((k, r) # rs) = (case r of Inl err \<Rightarrow> Inl err
     | Inr x \<Rightarrow> (case collect rs of Inl err \<Rightarrow> Inl err | Inr xs \<Rightarrow> Inr ((k, x) # xs)))"

definition wrap :: "('a \<Rightarrow> json) \<Rightarrow> string + 'a \<Rightarrow> string + json" where
  "wrap f r = (case r of Inl err \<Rightarrow> Inl err | Inr x \<Rightarrow> Inr (f x))"

text \<open>A struct keeps the order of its fields, a map is sorted by key.\<close>

fun tree :: "go_value \<Rightarrow> string + json"
  and trees :: "go_value list \<Rightarrow> (unit \<times> (string + json)) list"
  and entries :: "(string \<times> go_value) list \<Rightarrow> (string \<times> (string + json)) list"
where
  "tree (GoInt i) = Inr (JInt i)"
| "tree (GoBool b) = Inr (JBool b)"
| "tree (GoString s) = Inr (JString s)"
| "tree (GoSlice None) = Inr JNull"
| "tree (GoSlice (Some vs)) = wrap (\<lambda>xs. JArray (map snd xs)) (collect (trees vs))"
| "tree (GoStruct fs) = wrap JObject (collect (entries fs))"
| "tree (GoMap es) = wrap JObject (collect (sort_slice fst (entries es)))"
| "tree (GoOther t) = Inl (''json: unsupported type: '' @ t)"
| "trees [] = []"
| "trees (v # vs) = ((), tree v) # trees vs"
| "entries [] = []"
| "entries ((k, v) # es) = (k, tree v) # entries es"

section \<open>Strings\<close>

definition byte :: "string \<Rightarrow> nat \<Rightarrow> nat" where
  "byte s i = (if i < length s then of_char (s ! i) else 0)"

definition continues :: "nat \<Rightarrow> bool" where
  "continues b \<longleftrightarrow> 0x80 \<le> b \<and> b \<le> 0xBF"

text \<open>The length of the multi-byte UTF-8 sequence at the head, 0 when it is not valid.\<close>

definition rune_size :: "string \<Rightarrow> nat" where
  "rune_size s =
     (let a = byte s 0; b = byte s 1; c = byte s 2; d = byte s 3
      in if 0xC2 \<le> a \<and> a \<le> 0xDF \<and> continues b then 2
         else if (a = 0xE0 \<and> 0xA0 \<le> b \<and> b \<le> 0xBF \<or> (0xE1 \<le> a \<and> a \<le> 0xEC \<or> a = 0xEE \<or> a = 0xEF) \<and> continues b \<or>
                  a = 0xED \<and> 0x80 \<le> b \<and> b \<le> 0x9F) \<and> continues c then 3
         else if (a = 0xF0 \<and> 0x90 \<le> b \<and> b \<le> 0xBF \<or> 0xF1 \<le> a \<and> a \<le> 0xF3 \<and> continues b \<or>
                  a = 0xF4 \<and> 0x80 \<le> b \<and> b \<le> 0x8F) \<and> continues c \<and> continues d then 4
         else 0)"

definition hex_digit :: "nat \<Rightarrow> char" where
  "hex_digit n = (if n < 10 then char_of (48 + n) else char_of (87 + n))"

definition is_html :: "char \<Rightarrow> bool" where
  "is_html c \<longleftrightarrow> c = CHR ''<'' \<or> c = CHR ''>'' \<or> c = CHR ''&''"

definition quote_ascii :: "char \<Rightarrow> string" where
  "quote_ascii c =
     (let n = of_char c :: nat
      in if c = CHR 0x22 \<or> c = CHR 0x5C then [CHR 0x5C, c]
         else if n = 8 then [CHR 0x5C, CHR ''b''] else if n = 12 then [CHR 0x5C, CHR ''f'']
         else if n = 10 then [CHR 0x5C, CHR ''n''] else if n = 13 then [CHR 0x5C, CHR ''r'']
         else if n = 9 then [CHR 0x5C, CHR ''t'']
         else if n < 32 \<or> is_html c
         then [CHR 0x5C, CHR ''u'', CHR ''0'', CHR ''0'', hex_digit (n div 16), hex_digit (n mod 16)]
         else [c])"

text \<open>U+2028 and U+2029 are escaped, an invalid byte becomes U+FFFD.\<close>

definition quote_rune :: "string \<Rightarrow> string" where
  "quote_rune r =
     (if r = [CHR 0xE2, CHR 0x80, CHR 0xA8] then CHR 0x5C # ''u2028''
      else if r = [CHR 0xE2, CHR 0x80, CHR 0xA9] then CHR 0x5C # ''u2029'' else r)"

function quote_bytes :: "string \<Rightarrow> string" where
  "quote_bytes [] = []"
| "quote_bytes (c # cs) =
     (if (of_char c :: nat) < 128 then quote_ascii c @ quote_bytes cs
      else let n = rune_size (c # cs)
           in if n = 0 then CHR 0x5C # ''ufffd'' @ quote_bytes cs
              else quote_rune (take n (c # cs)) @ quote_bytes (drop n (c # cs)))"
  by pat_completeness auto
termination by (relation "measure length") auto

declare quote_bytes.simps [simp del]

definition quote :: "string \<Rightarrow> string" where
  "quote s = CHR 0x22 # quote_bytes s @ [CHR 0x22]"

section \<open>Marshal\<close>

fun render :: "json \<Rightarrow> string"
  and render_all :: "json list \<Rightarrow> string list"
  and render_members :: "(string \<times> json) list \<Rightarrow> string list"
where
  "render JNull = ''null''"
| "render (JBool b) = (if b then ''true'' else ''false'')"
| "render (JInt i) = show_int i"
| "render (JString s) = quote s"
| "render (JArray xs) = ''['' @ join '','' (render_all xs) @ '']''"
| "render (JObject ms) = ''{'' @ join '','' (render_members ms) @ ''}''"
| "render_all [] = []"
| "render_all (x # xs) = render x # render_all xs"
| "render_members [] = []"
| "render_members ((k, x) # ms) = (quote k @ '':'' @ render x) # render_members ms"

definition marshal :: "go_value \<Rightarrow> string + string" where
  "marshal v = (case tree v of Inl err \<Rightarrow> Inl err | Inr j \<Rightarrow> Inr (render j))"

end
