(* ===== verification/Json_Reader.thy ===== *)
theory Json_Reader
  imports Json
begin

text \<open>
  The client's side of a JSON payload: a reader of documents without white space, and what it gets
  from the text that \<^const>\<open>render\<close> writes. Nothing here is code of the repository; it states what the
  payloads of the HTTP server mean.
\<close>

section \<open>Reading strings\<close>

definition put :: "'a list \<Rightarrow> ('a list \<times> 'b) option \<Rightarrow> ('a list \<times> 'b) option" where
  "put p = map_option (\<lambda>(t, r). (p @ t, r))"

lemma put_simps [simp]:
  "put p None = None" "put p (Some (t, r)) = Some (p @ t, r)" "put p (put q x) = put (p @ q) x"
  by (cases x; auto simp: put_def)+

definition hex_value :: "char \<Rightarrow> nat" where
  "hex_value c = (let n = of_char c in if n < 58 then n - 48 else n - 87)"

definition read_hex :: "string \<Rightarrow> nat" where
  "read_hex s = foldl (\<lambda>n c. 16 * n + hex_value c) 0 s"

text \<open>The UTF-8 form of a code point below 65536.\<close>

definition utf8 :: "nat \<Rightarrow> string" where
  "utf8 n = (if n < 0x80 then [char_of n]
     else if n < 0x800 then [char_of (0xC0 + n div 64), char_of (0x80 + n mod 64)]
     else [char_of (0xE0 + n div 4096), char_of (0x80 + n div 64 mod 64), char_of (0x80 + n mod 64)])"

definition unescape :: "char \<Rightarrow> char" where
  "unescape c = (if c = CHR ''b'' then CHR 0x08 else if c = CHR ''f'' then CHR 0x0C else if c = CHR ''n'' then CHR 0x0A
     else if c = CHR ''r'' then CHR 0x0D else if c = CHR ''t'' then CHR 0x09 else c)"

function read_quoted :: "string \<Rightarrow> (string \<times> string) option" where
  "read_quoted [] = None"
| "read_quoted (c # cs) =
     (if c = CHR 0x22 then Some ([], cs)
      else if c = CHR 0x5C then
        (if cs = [] then None
         else if hd cs = CHR ''u''
         then (if length cs < 5 then None else put (utf8 (read_hex (take 4 (tl cs)))) (read_quoted (drop 5 cs)))
         else put [unescape (hd cs)] (read_quoted (tl cs)))
      else put [c] (read_quoted cs))"
  by pat_completeness auto
termination by (relation "measure length") auto

declare read_quoted.simps [simp del]

text \<open>What a string becomes on its way: bytes that are not UTF-8 are replaced.\<close>

function repair :: "string \<Rightarrow> string" where
  "repair [] = []"
| "repair (c # cs) =
     (if (of_char c :: nat) < 128 then c # repair cs
      else let n = rune_size (c # cs)
           in if n = 0 then utf8 0xFFFD @ repair cs else take n (c # cs) @ repair (drop n (c # cs)))"
  by pat_completeness auto
termination by (relation "measure length") auto

declare repair.simps [simp del]

definition ascii :: "string \<Rightarrow> bool" where
  "ascii s \<longleftrightarrow> (\<forall>c \<in> set s. (of_char c :: nat) < 128)"

lemma repair_ascii: "ascii s \<Longrightarrow> repair s = s"
  by (induction s) (simp_all add: ascii_def repair.simps)

lemma read_quoted_plain:
  "\<forall>c \<in> set p. c \<noteq> CHR 0x22 \<and> c \<noteq> CHR 0x5C \<Longrightarrow> read_quoted (p @ r) = put p (read_quoted r)"
proof (induction p)
  case Nil
  show ?case by (cases "read_quoted r") auto
next
  case (Cons c p)
  then show ?case by (simp add: read_quoted.simps)
qed

lemma read_quoted_escape: "d \<noteq> CHR ''u'' \<Longrightarrow> read_quoted (CHR 0x5C # d # r) = put [unescape d] (read_quoted r)"
  by (simp add: read_quoted.simps)

lemma read_quoted_hex:
  "read_quoted (CHR 0x5C # CHR ''u'' # a # b # c # d # r) = put (utf8 (read_hex [a, b, c, d])) (read_quoted r)"
  by (simp add: read_quoted.simps)

lemma hex_value_digit: "n < 16 \<Longrightarrow> hex_value (hex_digit n) = n"
  by (simp add: hex_value_def hex_digit_def Let_def)

lemma read_quoted_ascii:
  assumes "(of_char c :: nat) < 128"
  shows "read_quoted (quote_ascii c @ r) = put [c] (read_quoted r)"
proof -
  let ?n = "of_char c :: nat"
  have control: "?n = 8 \<Longrightarrow> c = CHR 0x08" "?n = 9 \<Longrightarrow> c = CHR 0x09" "?n = 10 \<Longrightarrow> c = CHR 0x0A"
      "?n = 12 \<Longrightarrow> c = CHR 0x0C" "?n = 13 \<Longrightarrow> c = CHR 0x0D"
    by (simp_all add: of_char_eq_iff [symmetric, where 'a = nat])
  have "hex_value (hex_digit (?n div 16)) = ?n div 16" "hex_value (hex_digit (?n mod 16)) = ?n mod 16"
    using assms by (auto intro!: hex_value_digit)
  then have hex: "read_hex [CHR ''0'', CHR ''0'', hex_digit (?n div 16), hex_digit (?n mod 16)] = ?n"
    by (simp add: read_hex_def) (simp add: hex_value_def)
  have "utf8 ?n = [c]" using assms by (simp add: utf8_def)
  then show ?thesis
    using hex control
    by (auto simp: quote_ascii_def Let_def read_quoted_escape read_quoted_hex unescape_def read_quoted.simps(2) [of c])
qed

lemma rune_bytes:
  assumes "rune_size s \<noteq> 0" "c \<in> set (take (rune_size s) s)"
  shows "128 \<le> (of_char c :: nat)"
proof -
  obtain i where i: "i < rune_size s" "i < length s" "c = s ! i"
    using assms(2) by (auto simp: in_set_conv_nth)
  have size: "rune_size s \<in> {2, 3, 4}" using assms(1) by (auto simp: rune_size_def Let_def split: if_splits)
  then have "i = 0 \<or> i = 1 \<or> i = 2 \<and> 3 \<le> rune_size s \<or> i = 3 \<and> rune_size s = 4" using i(1) by auto
  then have "128 \<le> byte s i"
    using size by (auto simp: rune_size_def Let_def continues_def split: if_splits)
  then show ?thesis using i by (simp add: byte_def)
qed

lemma rune_bytes_plain:
  assumes "rune_size s \<noteq> 0" "c \<in> set (take (rune_size s) s)"
  shows "c \<noteq> CHR 0x22 \<and> c \<noteq> CHR 0x5C"
  using rune_bytes [OF assms] by auto

lemma escaped_code_points:
  "utf8 (read_hex ''2028'') = [CHR 0xE2, CHR 0x80, CHR 0xA8]" "utf8 (read_hex ''2029'') = [CHR 0xE2, CHR 0x80, CHR 0xA9]"
  "read_hex ''fffd'' = 0xFFFD"
  by (simp_all add: read_hex_def hex_value_def utf8_def of_char_eq_iff [symmetric, where 'a = nat])

lemma read_quoted_rune:
  assumes "\<forall>c \<in> set p. c \<noteq> CHR 0x22 \<and> c \<noteq> CHR 0x5C"
  shows "read_quoted (quote_rune p @ r) = put p (read_quoted r)"
proof -
  show ?thesis
    using read_quoted_plain [OF assms] escaped_code_points by (auto simp: quote_rune_def read_quoted_hex)
qed

lemma read_quoted_bytes: "read_quoted (quote_bytes s @ r) = put (repair s) (read_quoted r)"
proof (induction s arbitrary: r rule: quote_bytes.induct)
  case 1
  show ?case by (cases "read_quoted r") (auto simp: quote_bytes.simps repair.simps)
next
  case (2 c cs)
  consider (low) "(of_char c :: nat) < 128" | (bad) "128 \<le> (of_char c :: nat)" "rune_size (c # cs) = 0"
    | (rune) "128 \<le> (of_char c :: nat)" "rune_size (c # cs) \<noteq> 0" by linarith
  then show ?case
  proof cases
    case low
    then show ?thesis using 2(1) by (simp add: quote_bytes.simps repair.simps read_quoted_ascii)
  next
    case bad
    then show ?thesis using 2(2) escaped_code_points(3) by (simp add: quote_bytes.simps repair.simps read_quoted_hex)
  next
    case rune
    have plain: "\<forall>x \<in> set (take (rune_size (c # cs)) (c # cs)). x \<noteq> CHR 0x22 \<and> x \<noteq> CHR 0x5C"
      using rune_bytes_plain [OF rune(2)] by blast
    show ?thesis using rune 2(3) [OF _ refl rune(2)] read_quoted_rune [OF plain]
      by (simp add: quote_bytes.simps repair.simps Let_def del: take_Cons' drop_Cons')
  qed
qed

section \<open>Reading documents\<close>

definition is_digit :: "char \<Rightarrow> bool" where
  "is_digit c \<longleftrightarrow> 48 \<le> (of_char c :: nat) \<and> (of_char c :: nat) \<le> 57"

definition read_number :: "string \<Rightarrow> (nat \<times> string) option" where
  "read_number s = (let ds = takeWhile is_digit s in if ds = [] then None else Some (read_nat ds, dropWhile is_digit s))"

definition read_int :: "string \<Rightarrow> (int \<times> string) option" where
  "read_int s =
     (if s \<noteq> [] \<and> hd s = CHR ''-'' then map_option (\<lambda>(n, r). (- int n, r)) (read_number (tl s))
      else map_option (\<lambda>(n, r). (int n, r)) (read_number s))"

text \<open>The fuel bounds the depth plus the number of elements; the length of the text is enough.\<close>

fun read_value :: "nat \<Rightarrow> string \<Rightarrow> (json \<times> string) option"
  and read_elems :: "nat \<Rightarrow> string \<Rightarrow> (json list \<times> string) option"
  and read_members :: "nat \<Rightarrow> string \<Rightarrow> ((string \<times> json) list \<times> string) option"
where
  "read_value 0 s = None"
| "read_value (Suc n) s =
     (if take 4 s = ''null'' then Some (JNull, drop 4 s)
      else if take 4 s = ''true'' then Some (JBool True, drop 4 s)
      else if take 5 s = ''false'' then Some (JBool False, drop 5 s)
      else if s \<noteq> [] \<and> hd s = CHR 0x22 then map_option (\<lambda>(t, r). (JString t, r)) (read_quoted (tl s))
      else if take 2 s = ''[]'' then Some (JArray [], drop 2 s)
      else if s \<noteq> [] \<and> hd s = CHR ''['' then map_option (\<lambda>(xs, r). (JArray xs, r)) (read_elems n (tl s))
      else if take 2 s = ''{}'' then Some (JObject [], drop 2 s)
      else if s \<noteq> [] \<and> hd s = CHR ''{'' then map_option (\<lambda>(ms, r). (JObject ms, r)) (read_members n (tl s))
      else map_option (\<lambda>(i, r). (JInt i, r)) (read_int s))"
| "read_elems 0 s = None"
| "read_elems (Suc n) s =
     (case read_value n s of
        Some (x, c # r) \<Rightarrow>
          if c = CHR '']'' then Some ([x], r)
          else if c = CHR '','' then put [x] (read_elems n r) else None
      | _ \<Rightarrow> None)"
| "read_members 0 s = None"
| "read_members (Suc n) s =
     (if s \<noteq> [] \<and> hd s = CHR 0x22
      then (case read_quoted (tl s) of
         Some (k, d # u) \<Rightarrow>
           if d = CHR '':''
           then (case read_value n u of
                Some (x, c # r) \<Rightarrow>
                  if c = CHR ''}'' then Some ([(k, x)], r)
                  else if c = CHR '','' then put [(k, x)] (read_members n r) else None
              | _ \<Rightarrow> None)
           else None
       | _ \<Rightarrow> None)
      else None)"

definition read_document :: "string \<Rightarrow> json option" where
  "read_document s = (case read_value (length s) s of Some (j, []) \<Rightarrow> Some j | _ \<Rightarrow> None)"

section \<open>What is read of a rendered document\<close>

fun plain :: "json \<Rightarrow> json"
  and plain_all :: "json list \<Rightarrow> json list"
  and plain_members :: "(string \<times> json) list \<Rightarrow> (string \<times> json) list"
where
  "plain JNull = JNull"
| "plain (JBool b) = JBool b"
| "plain (JInt i) = JInt i"
| "plain (JString s) = JString (repair s)"
| "plain (JArray xs) = JArray (plain_all xs)"
| "plain (JObject ms) = JObject (plain_members ms)"
| "plain_all [] = []"
| "plain_all (x # xs) = plain x # plain_all xs"
| "plain_members [] = []"
| "plain_members ((k, x) # ms) = (repair k, plain x) # plain_members ms"

definition no_digit :: "string \<Rightarrow> bool" where
  "no_digit r \<longleftrightarrow> r = [] \<or> \<not> is_digit (hd r)"

lemma show_nat_nonempty: "show_nat n \<noteq> []"
  by (simp add: show_nat.simps [of n])

lemma read_number_show:
  assumes "no_digit r"
  shows "read_number (show_nat n @ r) = Some (n, r)"
proof -
  have "\<forall>c \<in> set (show_nat n). is_digit c" using show_nat_digits by (simp add: is_digit_def)
  then have "takeWhile is_digit (show_nat n @ r) = show_nat n" "dropWhile is_digit (show_nat n @ r) = r"
    using assms by (cases r; auto simp: no_digit_def takeWhile_append dropWhile_append)+
  then show ?thesis using show_nat_nonempty read_show_nat by (simp add: read_number_def del: read_nat.simps)
qed

lemma show_int_head: "\<exists>c t. show_int i = c # t \<and> (c = CHR ''-'' \<or> is_digit c)"
proof (cases "i < 0")
  case False
  obtain c t where "show_nat (nat i) = c # t" using show_nat_nonempty by (meson neq_Nil_conv)
  then show ?thesis using False show_nat_digits [of c "nat i"] by (simp add: show_int_def is_digit_def)
qed (simp add: show_int_def)

lemma read_int_show:
  assumes "no_digit r"
  shows "read_int (show_int i @ r) = Some (i, r)"
proof (cases "i < 0")
  case True
  then show ?thesis using read_number_show [OF assms] by (simp add: read_int_def show_int_def)
next
  case False
  obtain c t where c: "show_nat (nat i) = c # t" "is_digit c"
    using show_nat_nonempty show_nat_digits unfolding is_digit_def by (metis list.exhaust list.set_intros(1))
  then have "c \<noteq> CHR ''-''" by (auto simp: is_digit_def)
  then show ?thesis
    using False c read_number_show [OF assms, of "nat i"] by (simp add: read_int_def show_int_def)
qed

lemma read_value_int:
  assumes "no_digit r"
  shows "read_value (Suc n) (show_int i @ r) = Some (JInt i, r)"
proof -
  obtain c t where c: "show_int i = c # t" "c = CHR ''-'' \<or> is_digit c" using show_int_head by blast
  then have "c \<notin> {CHR ''n'', CHR ''t'', CHR ''f'', CHR 0x22, CHR ''['', CHR ''{''}" by (auto simp: is_digit_def)
  then show ?thesis using read_int_show [OF assms, of i] c(1) by simp
qed

lemma read_value_constant:
  "read_value (Suc n) (''null'' @ r) = Some (JNull, r)" "read_value (Suc n) (''true'' @ r) = Some (JBool True, r)"
  "read_value (Suc n) (''false'' @ r) = Some (JBool False, r)"
  by simp_all

lemma read_value_string: "read_value (Suc n) (quote s @ r) = Some (JString (repair s), r)"
  using read_quoted_bytes [of s "CHR 0x22 # r"] by (simp add: quote_def read_quoted.simps)

lemma render_head: "\<exists>c t. render j = c # t \<and> c \<noteq> CHR '']''"
proof (cases j)
  case (JInt i)
  then show ?thesis using show_int_head [of i] by (auto simp: is_digit_def)
qed (auto simp: quote_def)

lemma read_value_array:
  assumes "read_elems n (s @ '']'' @ r) = Some (xs, r)" and "s = c # t" "c \<noteq> CHR '']''"
  shows "read_value (Suc n) (''['' @ s @ '']'' @ r) = Some (JArray xs, r)"
  using assms by simp

lemma read_value_object:
  assumes "read_members n (s @ ''}'' @ r) = Some (ms, r)" and "s = CHR 0x22 # t"
  shows "read_value (Suc n) (''{'' @ s @ ''}'' @ r) = Some (JObject ms, r)"
  using assms by simp

lemma render_all_empty [simp]: "render_all xs = [] \<longleftrightarrow> xs = []"
  by (cases xs) simp_all

lemma render_members_empty [simp]: "render_members ms = [] \<longleftrightarrow> ms = []"
  by (cases ms) auto

lemma no_digit_punct [simp]:
  "no_digit (CHR '','' # r)" "no_digit (CHR '']'' # r)" "no_digit (CHR ''}'' # r)" "no_digit []"
  by (simp_all add: no_digit_def is_digit_def)

lemma read_render:
  "length (render j) \<le> n \<Longrightarrow> no_digit r \<Longrightarrow> read_value n (render j @ r) = Some (plain j, r)"
  "xs \<noteq> [] \<Longrightarrow> length (join '','' (render_all xs)) < n \<Longrightarrow>
     read_elems n (join '','' (render_all xs) @ '']'' @ r) = Some (plain_all xs, r)"
  "ms \<noteq> [] \<Longrightarrow> length (join '','' (render_members ms)) < n \<Longrightarrow>
     read_members n (join '','' (render_members ms) @ ''}'' @ r) = Some (plain_members ms, r)"
proof (induction j and xs and ms arbitrary: n r and n r and n r rule: render_render_all_render_members.induct)
  case 1
  then obtain m where "n = Suc m" by (cases n) simp_all
  then show ?case using read_value_constant(1) by simp
next
  case (2 b)
  then obtain m where "n = Suc m" by (cases n) (simp_all split: if_splits)
  then show ?case using read_value_constant(2,3) by simp
next
  case (3 i)
  obtain c t where "show_int i = c # t" using show_int_head by blast
  then obtain m where "n = Suc m" using 3(1) by (cases n) simp_all
  then show ?case using read_value_int [OF 3(2)] by simp
next
  case (4 s)
  then obtain m where "n = Suc m" by (cases n) (simp_all add: quote_def)
  then show ?case using read_value_string by simp
next
  case (5 xs)
  obtain m where n: "n = Suc m" using 5(2) by (cases n) simp_all
  show ?case
  proof (cases xs)
    case Nil
    then show ?thesis by (simp add: n)
  next
    case (Cons x ys)
    obtain c t where c: "render x = c # t" "c \<noteq> CHR '']''" using render_head by blast
    have "read_elems m (join '','' (render_all xs) @ '']'' @ r) = Some (plain_all xs, r)"
      using 5(1) [of m r] 5(2) Cons n by simp
    from read_value_array [OF this _ c(2), of "t @ (if ys = [] then [] else '','' @ join '','' (render_all ys))"]
    show ?thesis using c(1) by (simp add: n Cons join_Cons)
  qed
next
  case (6 ms)
  obtain m where n: "n = Suc m" using 6(2) by (cases n) simp_all
  show ?case
  proof (cases ms)
    case Nil
    then show ?thesis by (simp add: n)
  next
    case (Cons kx ys)
    obtain k x where kx: "kx = (k, x)" by (cases kx)
    have "read_members m (join '','' (render_members ms) @ ''}'' @ r) = Some (plain_members ms, r)"
      using 6(1) [of m r] 6(2) Cons n by simp
    from read_value_object [OF this, of "quote_bytes k @ CHR 0x22 # CHR '':'' # render x @
        (if ys = [] then [] else '','' @ join '','' (render_members ys))"]
    show ?thesis by (simp add: n Cons kx join_Cons quote_def)
  qed
next
  case (8 x xs)
  obtain m where n: "n = Suc m" using 8(4) by (cases n) simp_all
  show ?case
  proof (cases "xs = []")
    case True
    then show ?thesis using 8(1) [of m "CHR '']'' # r"] 8(4) by (simp add: n)
  next
    case False
    then show ?thesis
      using 8(1) [of m "CHR '','' # join '','' (render_all xs) @ '']'' @ r"] 8(2) [of m r] 8(4)
      by (simp add: n join_Cons)
  qed
next
  case (10 k x ms)
  obtain m where n: "n = Suc m" using 10(4) by (cases n) simp_all
  have key: "read_quoted (quote_bytes k @ CHR 0x22 # u) = Some (repair k, u)" for u
    using read_quoted_bytes [of k "CHR 0x22 # u"] by (simp add: read_quoted.simps)
  show ?case
  proof (cases "ms = []")
    case True
    then show ?thesis using 10(1) [of m "CHR ''}'' # r"] 10(4) key by (simp add: n quote_def)
  next
    case False
    then show ?thesis
      using 10(1) [of m "CHR '','' # join '','' (render_members ms) @ ''}'' @ r"] 10(2) [of m r] 10(4) key
      by (simp add: n join_Cons quote_def)
  qed
qed simp_all

text \<open>A payload read back is the marshalled value, with its invalid bytes replaced.\<close>

lemma read_document_render: "read_document (render j) = Some (plain j)"
  using read_render(1) [of j "length (render j)" "[]"] by (simp add: read_document_def)

lemma read_document_marshal:
  "marshal v = Inr s \<Longrightarrow> \<exists>j. tree v = Inr j \<and> read_document s = Some (plain j)"
  by (auto simp: marshal_def read_document_render split: sum.splits)

section \<open>No markup in a payload\<close>

definition harmless :: "char \<Rightarrow> bool" where
  "harmless c \<longleftrightarrow> 32 \<le> (of_char c :: nat) \<and> \<not> is_html c"

lemma harmless_code:
  "harmless c \<longleftrightarrow> (let n = of_char c :: nat in 32 \<le> n \<and> n \<noteq> 60 \<and> n \<noteq> 62 \<and> n \<noteq> 38)"
  by (simp add: harmless_def is_html_def Let_def of_char_eq_iff [symmetric, where 'a = nat] del: of_char_eq_iff)

lemma harmless_hex: "n < 16 \<Longrightarrow> harmless (hex_digit n)"
  by (simp add: harmless_code hex_digit_def Let_def)

lemma harmless_chars [simp]:
  "harmless (CHR 0x22)" "harmless (CHR 0x5C)" "harmless (CHR ''b'')" "harmless (CHR ''f'')" "harmless (CHR ''n'')"
  "harmless (CHR ''r'')" "harmless (CHR ''t'')" "harmless (CHR ''u'')" "harmless (CHR ''0'')" "harmless (CHR ''2'')"
  "harmless (CHR ''8'')" "harmless (CHR ''9'')" "harmless (CHR ''d'')" "harmless (CHR '':'')" "harmless (CHR '','')"
  "harmless (CHR ''['')" "harmless (CHR '']'')" "harmless (CHR ''{'')" "harmless (CHR ''}'')" "harmless (CHR ''-'')"
  "harmless (CHR ''l'')" "harmless (CHR ''e'')" "harmless (CHR ''a'')" "harmless (CHR ''s'')"
  by (simp_all add: harmless_def is_html_def)

lemma harmless_ascii: "(of_char c :: nat) < 128 \<Longrightarrow> list_all harmless (quote_ascii c)"
proof -
  assume "(of_char c :: nat) < 128"
  then have "(of_char c :: nat) div 16 < 16" "(of_char c :: nat) mod 16 < 16" by simp_all
  then have "harmless (hex_digit ((of_char c :: nat) div 16))" "harmless (hex_digit ((of_char c :: nat) mod 16))"
    by (simp_all only: harmless_hex)
  then show ?thesis
    by (cases "(of_char c :: nat) < 32 \<or> is_html c") (auto simp: quote_ascii_def Let_def harmless_def [of c] is_html_def [of "CHR 0x22"] is_html_def [of "CHR 0x5C"])
qed

lemma harmless_high: "128 \<le> (of_char c :: nat) \<Longrightarrow> harmless c"
  by (auto simp: harmless_code Let_def)

lemma harmless_rune:
  assumes "rune_size s \<noteq> 0"
  shows "list_all harmless (quote_rune (take (rune_size s) s))"
proof -
  have "list_all harmless (take (rune_size s) s)"
    using rune_bytes [OF assms] harmless_high by (auto simp: list_all_iff)
  then show ?thesis by (simp add: quote_rune_def)
qed

lemma harmless_bytes: "list_all harmless (quote_bytes s)"
proof (induction s rule: quote_bytes.induct)
  case 1
  show ?case by (simp add: quote_bytes.simps)
next
  case (2 c cs)
  consider (low) "(of_char c :: nat) < 128" | (bad) "128 \<le> (of_char c :: nat)" "rune_size (c # cs) = 0"
    | (rune) "128 \<le> (of_char c :: nat)" "rune_size (c # cs) \<noteq> 0" by linarith
  then show ?case
  proof cases
    case low
    then show ?thesis using 2(1) harmless_ascii by (simp add: quote_bytes.simps)
  next
    case bad
    then show ?thesis using 2(2) by (simp add: quote_bytes.simps)
  next
    case rune
    then show ?thesis using 2(3) [OF _ refl rune(2)] harmless_rune [OF rune(2)]
      by (simp add: quote_bytes.simps Let_def del: take_Cons' drop_Cons')
  qed
qed

lemma harmless_quote: "list_all harmless (quote s)"
  using harmless_bytes by (simp add: quote_def)

lemma harmless_nat: "list_all harmless (show_nat n)"
  using show_nat_digits [of _ n] by (fastforce simp: list_all_iff harmless_code Let_def)

lemma harmless_join: "list_all harmless sep \<Longrightarrow> list_all (list_all harmless) xs \<Longrightarrow> list_all harmless (join sep xs)"
  by (induction sep xs rule: join.induct) simp_all

lemma harmless_render:
  "list_all harmless (render j)" "list_all (list_all harmless) (render_all xs)"
  "list_all (list_all harmless) (render_members ms)"
  by (induction j and xs and ms rule: render_render_all_render_members.induct)
     (simp_all add: harmless_quote harmless_join harmless_nat show_int_def)

end
