(* ===== verification/Json_Types.thy ===== *)
theory Json_Types
  imports Json_Reader
begin

text \<open>
  A type system for JSON payloads: the Go values that have a type marshal without an error, to
  documents that conform to it, and so does what a client reads. The fields of an object have ASCII
  names; a type whose values are Go maps with a fixed set of keys lists them sorted.
\<close>

section \<open>Types\<close>

datatype schema = IntS | BoolS | StringS | SliceS schema | ObjectS "(string \<times> schema) list" | DictS schema

inductive conforms :: "schema \<Rightarrow> json \<Rightarrow> bool" where
  conforms_int: "conforms IntS (JInt i)" if "in_int64 i"
| conforms_bool: "conforms BoolS (JBool b)"
| conforms_string: "conforms StringS (JString s)"
| conforms_null: "conforms (SliceS t) JNull"
| conforms_array: "conforms (SliceS t) (JArray xs)" if "\<And>x. x \<in> set xs \<Longrightarrow> conforms t x"
| conforms_object: "conforms (ObjectS fs) (JObject ms)"
    if "list_all2 (\<lambda>f m. ascii (fst f) \<and> fst m = fst f \<and> conforms (snd f) (snd m)) fs ms"
| conforms_dict: "conforms (DictS t) (JObject ms)" if "\<And>m. m \<in> set ms \<Longrightarrow> conforms t (snd m)"

inductive typed :: "schema \<Rightarrow> go_value \<Rightarrow> bool" where
  typed_int: "typed IntS (GoInt i)" if "in_int64 i"
| typed_bool: "typed BoolS (GoBool b)"
| typed_string: "typed StringS (GoString s)"
| typed_nil: "typed (SliceS t) (GoSlice None)"
| typed_slice: "typed (SliceS t) (GoSlice (Some vs))" if "\<And>v. v \<in> set vs \<Longrightarrow> typed t v"
| typed_struct: "typed (ObjectS fs) (GoStruct vs)"
    if "list_all2 (\<lambda>f v. ascii (fst f) \<and> fst v = fst f \<and> typed (snd f) (snd v)) fs vs"
| typed_fixed: "typed (ObjectS (sort_slice fst fs)) (GoMap es)"
    if "list_all2 (\<lambda>f v. ascii (fst f) \<and> fst v = fst f \<and> typed (snd f) (snd v)) fs es"
| typed_map: "typed (DictS t) (GoMap es)" if "\<And>e. e \<in> set es \<Longrightarrow> typed t (snd e)"

inductive_simps typed_simps [simp]:
  "typed IntS (GoInt i)" "typed BoolS (GoBool b)" "typed StringS (GoString s)" "typed (SliceS t) (GoSlice vs)"
  "typed (ObjectS fs) (GoStruct vs)" "typed (DictS t) (GoMap es)"

inductive_simps conforms_simps:
  "conforms IntS j" "conforms BoolS j" "conforms StringS j" "conforms (SliceS t) j" "conforms (ObjectS fs) j"
  "conforms (DictS t) j"

section \<open>Well-typed values marshal\<close>

lemma collect_all2:
  "collect rs = Inr xs \<longleftrightarrow> list_all2 (\<lambda>r x. fst r = fst x \<and> snd r = Inr (snd x)) rs xs"
  by (induction rs arbitrary: xs rule: collect.induct) (auto split: sum.splits simp: list_all2_Cons1)

lemma trees_map: "trees vs = map (\<lambda>v. ((), tree v)) vs"
  by (induction vs) simp_all

lemma entries_map: "entries es = map (\<lambda>e. (fst e, tree (snd e))) es"
  by (induction es) auto

lemma list_all2_choose:
  "\<forall>x \<in> set xs. \<exists>y. P x y \<Longrightarrow> \<exists>ys. list_all2 P xs ys"
proof (induction xs)
  case (Cons x xs)
  then obtain y ys where "P x y" "list_all2 P xs ys" by auto
  then have "list_all2 P (x # xs) (y # ys)" by simp
  then show ?case by blast
qed auto

lemma list_all2_right: "list_all2 P xs ys \<Longrightarrow> y \<in> set ys \<Longrightarrow> \<exists>x. P x y"
  by (induction rule: list_all2_induct) auto

lemma collect_map:
  assumes "\<forall>x \<in> set xs. \<exists>j. f x = Inr j \<and> P x j"
  shows "\<exists>js. collect (map (\<lambda>x. (g x, f x)) xs) = Inr js \<and> list_all2 (\<lambda>x m. fst m = g x \<and> f x = Inr (snd m) \<and> P x (snd m)) xs js"
proof -
  have "\<forall>x \<in> set xs. \<exists>m. fst m = g x \<and> f x = Inr (snd m) \<and> P x (snd m)" using assms by fastforce
  from list_all2_choose [OF this] obtain js
    where js: "list_all2 (\<lambda>x m. fst m = g x \<and> f x = Inr (snd m) \<and> P x (snd m)) xs js" by blast
  then have "collect (map (\<lambda>x. (g x, f x)) xs) = Inr js"
    unfolding collect_all2 list_all2_map1 by (rule list_all2_mono) auto
  then show ?thesis using js by blast
qed

text \<open>Sorting by key commutes with anything done value by value.\<close>

lemma insort_all2:
  assumes "list_all2 (\<lambda>x y. key' y = key x \<and> P x y) xs ys" "key' b = key a" "P a b"
  shows "list_all2 (\<lambda>x y. key' y = key x \<and> P x y) (insort_key key a xs) (insort_key key' b ys)"
  using assms by (induction rule: list_all2_induct) auto

lemma sort_all2:
  "list_all2 (\<lambda>x y. key' y = key x \<and> P x y) xs ys \<Longrightarrow>
   list_all2 (\<lambda>x y. key' y = key x \<and> P x y) (sort_slice key xs) (sort_slice key' ys)"
  unfolding sort_slice_def by (induction rule: list_all2_induct) (auto intro: insort_all2)

lemma sort_entries: "sort_slice fst (entries es) = entries (sort_slice fst es)"
proof -
  have "list_all2 (\<lambda>e r. fst r = fst e \<and> r = (fst e, tree (snd e))) es (entries es)"
    by (simp add: entries_map list_all2_map2 list.rel_refl)
  from sort_all2 [OF this]
  have "list_all2 (\<lambda>e r. r = (fst e, tree (snd e))) (sort_slice fst es) (sort_slice fst (entries es))"
    by (rule list_all2_mono) simp
  then have "list_all2 (\<lambda>r r'. r = r') (sort_slice fst (entries es)) (entries (sort_slice fst es))"
    unfolding entries_map list_all2_map2 list_all2_conv_all_nth by auto
  then show ?thesis by (simp add: list.rel_eq)
qed

lemma object_conforms:
  assumes "list_all2 (\<lambda>f v. ascii (fst f) \<and> fst v = fst f \<and> (\<exists>j. tree (snd v) = Inr j \<and> conforms (snd f) j)) fs es"
  shows "\<exists>j. wrap JObject (collect (entries es)) = Inr j \<and> conforms (ObjectS fs) j"
proof -
  have "\<forall>e \<in> set es. \<exists>j. tree (snd e) = Inr j \<and> True"
    using list_all2_right [OF assms] by blast
  from collect_map [OF this, where g = fst] obtain ms where ms: "collect (entries es) = Inr ms"
      "list_all2 (\<lambda>e m. fst m = fst e \<and> tree (snd e) = Inr (snd m) \<and> True) es ms"
    unfolding entries_map by blast
  have "list_all2 (\<lambda>f m. ascii (fst f) \<and> fst m = fst f \<and> conforms (snd f) (snd m)) fs ms"
    by (rule list_all2_trans [OF _ assms ms(2)]) auto
  then show ?thesis using ms(1) by (auto simp: wrap_def intro: conforms_object)
qed

lemma typed_marshals: "typed t v \<Longrightarrow> \<exists>j. tree v = Inr j \<and> conforms t j"
proof (induction rule: typed.induct)
  case (typed_slice vs t)
  have "\<forall>v \<in> set vs. \<exists>j. tree v = Inr j \<and> conforms t j" using typed_slice.IH by blast
  from collect_map [OF this, where g = "\<lambda>_. ()"] obtain xs
    where xs: "collect (trees vs) = Inr xs" "list_all2 (\<lambda>v m. fst m = () \<and> tree v = Inr (snd m) \<and> conforms t (snd m)) vs xs"
    unfolding trees_map by blast
  have "conforms t x" if "x \<in> set (map snd xs)" for x
    using list_all2_right [OF xs(2)] that by auto
  then show ?case using xs(1) by (auto simp: wrap_def intro: conforms_array)
next
  case (typed_struct fs vs)
  have "list_all2 (\<lambda>f v. ascii (fst f) \<and> fst v = fst f \<and> (\<exists>j. tree (snd v) = Inr j \<and> conforms (snd f) j)) fs vs"
    by (rule list_all2_mono [OF typed_struct]) blast
  from object_conforms [OF this] show ?case by simp
next
  case (typed_fixed fs es)
  have "list_all2 (\<lambda>f v. fst v = fst f \<and> (ascii (fst f) \<and> (\<exists>j. tree (snd v) = Inr j \<and> conforms (snd f) j))) fs es"
    by (rule list_all2_mono [OF typed_fixed]) blast
  from sort_all2 [OF this]
  have "list_all2 (\<lambda>f v. ascii (fst f) \<and> fst v = fst f \<and> (\<exists>j. tree (snd v) = Inr j \<and> conforms (snd f) j))
      (sort_slice fst fs) (sort_slice fst es)"
    by (rule list_all2_mono) blast
  from object_conforms [OF this] show ?case by (simp add: sort_entries)
next
  case (typed_map es t)
  have "\<forall>e \<in> set (sort_slice fst es). \<exists>j. tree (snd e) = Inr j \<and> conforms t j"
    using typed_map.IH by simp
  from collect_map [OF this, where g = fst] obtain ms
    where ms: "collect (entries (sort_slice fst es)) = Inr ms"
      "list_all2 (\<lambda>e m. fst m = fst e \<and> tree (snd e) = Inr (snd m) \<and> conforms t (snd m)) (sort_slice fst es) ms"
    unfolding entries_map by blast
  have "conforms t (snd m)" if "m \<in> set ms" for m
    using list_all2_right [OF ms(2) that] by blast
  then show ?case using ms(1) by (auto simp: wrap_def sort_entries intro: conforms_dict)
qed (auto intro: conforms.intros)

section \<open>What the client reads has the type\<close>

lemma plain_all_map: "plain_all xs = map plain xs"
  by (induction xs) simp_all

lemma plain_members_map: "plain_members ms = map (\<lambda>m. (repair (fst m), plain (snd m))) ms"
  by (induction ms) auto

lemma conforms_plain: "conforms t j \<Longrightarrow> conforms t (plain j)"
proof (induction rule: conforms.induct)
  case (conforms_object fs ms)
  then have "list_all2 (\<lambda>f m. ascii (fst f) \<and> fst m = fst f \<and> conforms (snd f) (snd m)) fs (plain_members ms)"
    unfolding plain_members_map list_all2_map2 by (rule list_all2_mono) (auto simp: repair_ascii)
  then show ?case by (simp add: conforms.conforms_object)
next
  case (conforms_array xs t)
  then show ?case by (auto simp: plain_all_map intro!: conforms.conforms_array)
next
  case (conforms_dict ms t)
  then show ?case by (force simp: plain_members_map intro: conforms.conforms_dict)
qed (simp_all add: conforms.intros)

lemma typed_payload:
  assumes "typed t v"
  shows "\<exists>s j. marshal v = Inr s \<and> read_document s = Some j \<and> conforms t j"
proof -
  obtain j where "tree v = Inr j" "conforms t j" using typed_marshals [OF assms] by blast
  then show ?thesis using conforms_plain by (auto simp: marshal_def read_document_render)
qed

section \<open>Reading a map back\<close>

lemma map_of_sort:
  assumes "distinct (map fst es)"
  shows "map_of (sort_slice fst es) = map_of es"
proof (rule map_of_eqI)
  show "set (map fst (sort_slice fst es)) = set (map fst es)" by simp
  have d: "distinct (map fst (sort_slice fst es))"
    using assms by (metis mset_eq_imp_distinct_iff mset_map sort_slice_facts(1))
  show "\<forall>k \<in> set (map fst (sort_slice fst es)). map_of (sort_slice fst es) k = map_of es k"
  proof
    fix k assume "k \<in> set (map fst (sort_slice fst es))"
    then obtain v where "(k, v) \<in> set es" by auto
    then show "map_of (sort_slice fst es) k = map_of es k" using d assms by simp
  qed
qed

definition reading :: "go_value \<Rightarrow> json option" where
  "reading v = (case tree v of Inl _ \<Rightarrow> None | Inr j \<Rightarrow> Some (plain j))"

lemma collect_lookup:
  assumes "collect (entries es) = Inr ms" "\<forall>e \<in> set es. ascii (fst e)"
  shows "map fst (plain_members ms) = map fst es"
    "map_of (plain_members ms) k = (case map_of es k of None \<Rightarrow> None | Some v \<Rightarrow> reading v)"
proof -
  have all: "list_all2 (\<lambda>r x. fst r = fst x \<and> snd r = Inr (snd x)) (entries es) ms"
    using assms(1) by (simp add: collect_all2)
  then show "map fst (plain_members ms) = map fst es" using assms(2)
  proof (induction es arbitrary: ms)
    case (Cons e es)
    then show ?case by (cases e) (auto simp: list_all2_Cons1 repair_ascii)
  qed simp
  show "map_of (plain_members ms) k = (case map_of es k of None \<Rightarrow> None | Some v \<Rightarrow> reading v)"
    using all assms(2)
  proof (induction es arbitrary: ms)
    case (Cons e es)
    then show ?case by (cases e) (auto simp: list_all2_Cons1 repair_ascii reading_def)
  qed simp
qed

lemma reading_struct:
  assumes "reading (GoStruct fs) = Some j" "\<forall>e \<in> set fs. ascii (fst e)"
  obtains ms where "j = JObject ms" "map fst ms = map fst fs"
    "\<And>k. map_of ms k = (case map_of fs k of None \<Rightarrow> None | Some v \<Rightarrow> reading v)"
  using assms collect_lookup [of fs] by (auto simp: reading_def wrap_def split: sum.splits)

text \<open>A map is read back entry by entry, sorted by key, whatever the order of its iteration.\<close>

lemma reading_map:
  assumes "reading (GoMap es) = Some j" "\<forall>e \<in> set es. ascii (fst e)" "distinct (map fst es)"
  obtains ms where "j = JObject ms" "map fst ms = sort (map fst es)"
    "\<And>k. map_of ms k = (case map_of es k of None \<Rightarrow> None | Some v \<Rightarrow> reading v)"
proof -
  have "\<forall>e \<in> set (sort_slice fst es). ascii (fst e)" using assms(2) by simp
  moreover obtain ms where ms: "collect (entries (sort_slice fst es)) = Inr ms" "j = JObject (plain_members ms)"
    using assms(1) by (auto simp: reading_def wrap_def sort_entries split: sum.splits)
  moreover have "sort (map fst es) = map fst (sort_slice fst es)"
    by (rule properties_for_sort) simp_all
  ultimately show thesis
    using that [OF ms(2)] collect_lookup [OF ms(1)] map_of_sort [OF assms(3)] by simp
qed

lemma reading_marshal: "marshal v = Inr s \<Longrightarrow> read_document s = reading v"
  by (auto simp: marshal_def reading_def read_document_render split: sum.splits)

text \<open>What is read of a marshalled Go map is determined by the map.\<close>

lemma list_of_map: "distinct (map fst ms) \<Longrightarrow> ms = map (\<lambda>k. (k, the (map_of ms k))) (map fst ms)"
  by (simp add: comp_def) (rule sym, rule map_idI, auto)

lemma reading_total:
  assumes "\<forall>e \<in> set es. \<exists>j. reading (snd e) = Some j"
  shows "\<exists>j. reading (GoMap es) = Some j"
proof -
  have "\<forall>e \<in> set (sort_slice fst es). \<exists>j. tree (snd e) = Inr j \<and> True"
    using assms by (auto simp: reading_def split: sum.splits) (metis snd_conv sumE)
  from collect_map [OF this, where g = fst] obtain ms where "collect (entries (sort_slice fst es)) = Inr ms"
    unfolding entries_map by blast
  then show ?thesis by (simp add: reading_def wrap_def sort_entries)
qed

end
