(* ===== verification/Paths.thy ===== *)
theory Paths
  imports Prelude
begin

text \<open>
  The slash-separated paths of the HTTP server: \<^verbatim>\<open>path.Clean\<close> (which
  \<^verbatim>\<open>filepath.Clean\<close> is on Unix), \<^verbatim>\<open>filepath.Join\<close>, and the form
  into which \<^verbatim>\<open>http.ServeMux\<close> brings the path of a request.
\<close>

section \<open>Operations\<close>

abbreviation slash :: char where
  "slash \<equiv> CHR 0x2F"

fun split_path :: "string \<Rightarrow> string list" where
  "split_path [] = [[]]"
| "split_path (c # cs) = (if c = slash then [] # split_path cs
     else (case split_path cs of e # es \<Rightarrow> (c # e) # es | [] \<Rightarrow> [[c]]))"

definition elements :: "string \<Rightarrow> string list" where
  "elements s = filter (\<lambda>e. e \<noteq> [] \<and> e \<noteq> ''.'') (split_path s)"

text \<open>The stack holds the elements so far, last first.\<close>

definition clean_element :: "bool \<Rightarrow> string \<Rightarrow> string list \<Rightarrow> string list" where
  "clean_element rooted e st =
     (if e = ''..'' then
        (case st of x # st' \<Rightarrow> if x = ''..'' then e # st else st' | [] \<Rightarrow> if rooted then [] else [e])
      else e # st)"

definition clean_elements :: "bool \<Rightarrow> string list \<Rightarrow> string list" where
  "clean_elements rooted es = rev (fold (clean_element rooted) es [])"

definition path_clean :: "string \<Rightarrow> string" where
  "path_clean s =
     (if s = [] then ''.''
      else let rooted = hd s = slash; es = clean_elements rooted (elements s)
           in if rooted then slash # join [slash] es else if es = [] then ''.'' else join [slash] es)"

definition path_join :: "string \<Rightarrow> string \<Rightarrow> string" where
  "path_join dir name = (if dir = [] then path_clean name else path_clean (dir @ [slash] @ name))"

definition mux_clean :: "string \<Rightarrow> string" where
  "mux_clean s =
     (if s = [] then [slash]
      else let p = (if hd s = slash then s else slash # s); np = path_clean p
           in if last p = slash \<and> np \<noteq> [slash] then np @ [slash] else np)"

text \<open>The percent encoding of a path. The mux works on the encoded path of a request and its handlers on
  the decoded one; the location of a redirect is encoded once more.\<close>

definition upper_hex :: "nat \<Rightarrow> char" where
  "upper_hex n = (if n < 10 then char_of (48 + n) else char_of (55 + n))"

definition path_char :: "char \<Rightarrow> bool" where
  "path_char c \<longleftrightarrow> (let n = of_char c :: nat in 48 \<le> n \<and> n \<le> 57 \<or> 65 \<le> n \<and> n \<le> 90 \<or> 97 \<le> n \<and> n \<le> 122) \<or>
     c \<in> set ''-_.~$&+,/:;=@''"

definition escape_char :: "char \<Rightarrow> string" where
  "escape_char c = (if path_char c then [c]
     else [CHR ''%'', upper_hex (of_char c div 16), upper_hex (of_char c mod 16)])"

definition escape_path :: "string \<Rightarrow> string" where
  "escape_path s = concat (map escape_char s)"

definition hex_number :: "char \<Rightarrow> nat option" where
  "hex_number c = (let n = of_char c :: nat
     in if 48 \<le> n \<and> n \<le> 57 then Some (n - 48) else if 65 \<le> n \<and> n \<le> 70 then Some (n - 55)
        else if 97 \<le> n \<and> n \<le> 102 then Some (n - 87) else None)"

fun unescape_path :: "string \<Rightarrow> string" where
  "unescape_path (c # a # b # s) =
     (if c \<noteq> CHR ''%'' then c # unescape_path (a # b # s)
      else case (hex_number a, hex_number b) of
        (Some x, Some y) \<Rightarrow> char_of (16 * x + y) # unescape_path s
      | _ \<Rightarrow> c # unescape_path (a # b # s))"
| "unescape_path s = s"

text \<open>The file that \<^verbatim>\<open>http.Dir\<close> opens for a name.\<close>

definition tree_file :: "string \<Rightarrow> string \<Rightarrow> string" where
  "tree_file dir name = path_join dir (path_clean (slash # name))"

section \<open>Clean paths\<close>

definition element_ok :: "string \<Rightarrow> bool" where
  "element_ok e \<longleftrightarrow> e \<noteq> [] \<and> e \<noteq> ''.'' \<and> e \<noteq> ''..'' \<and> slash \<notin> set e"

lemma split_path_nonempty [simp]: "split_path s \<noteq> []"
  by (cases s) (auto split: list.splits)

lemma split_path_no_slash: "e \<in> set (split_path s) \<Longrightarrow> slash \<notin> set e"
proof (induction s arbitrary: e)
  case (Cons c s)
  then show ?case by (cases "split_path s") (auto split: if_splits)
qed simp

lemma split_path_plain: "slash \<notin> set e \<Longrightarrow> split_path e = [e]"
  by (induction e) auto

lemma split_path_append: "slash \<notin> set e \<Longrightarrow> split_path (e @ slash # s) = e # split_path s"
  by (induction e) auto

lemma split_path_join: "es \<noteq> [] \<Longrightarrow> \<forall>e \<in> set es. slash \<notin> set e \<Longrightarrow> split_path (join [slash] es) = es"
  by (induction "[slash]" es rule: join.induct) (simp_all add: split_path_plain split_path_append)

lemma clean_elements_ok:
  assumes "\<forall>e \<in> set es. e \<noteq> [] \<and> e \<noteq> ''.'' \<and> slash \<notin> set e"
  shows "\<forall>e \<in> set (clean_elements True es). element_ok e"
proof -
  have keep: "\<forall>e \<in> set (fold (clean_element True) es st). element_ok e" if "\<forall>e \<in> set st. element_ok e" for st
    using assms that
  proof (induction es arbitrary: st)
    case (Cons x es)
    have "\<forall>e \<in> set (clean_element True x st). element_ok e"
      using Cons.prems by (cases st) (auto simp: clean_element_def element_ok_def)
    then show ?case using Cons.IH Cons.prems(1) by simp
  qed simp
  show ?thesis using keep [of "[]"] by (simp add: clean_elements_def)
qed

lemma clean_elements_same: "\<forall>e \<in> set es. element_ok e \<Longrightarrow> clean_elements rooted es = es"
proof -
  assume ok: "\<forall>e \<in> set es. element_ok e"
  then have "fold (clean_element rooted) es st = rev es @ st" for st
    by (induction es arbitrary: st) (simp_all add: clean_element_def element_ok_def)
  then show ?thesis by (simp add: clean_elements_def)
qed

lemma elements_ok: "\<forall>e \<in> set (elements s). e \<noteq> [] \<and> e \<noteq> ''.'' \<and> slash \<notin> set e"
  using split_path_no_slash by (auto simp: elements_def)

text \<open>A rooted path is clean when it is a sequence of proper elements.\<close>

definition rooted_path :: "string list \<Rightarrow> string" where
  "rooted_path es = slash # join [slash] es"

lemma elements_rooted:
  assumes "\<forall>e \<in> set es. element_ok e"
  shows "elements (rooted_path es) = es" "elements (rooted_path es @ [slash]) = es"
proof -
  have split: "split_path (join [slash] es) = (if es = [] then [[]] else es)"
    using assms split_path_join [of es] by (auto simp: element_ok_def)
  have tail: "split_path (s @ [slash]) = split_path s @ [[]]" for s
    by (induction s) (auto split: list.splits)
  have keep: "filter (\<lambda>e. e \<noteq> [] \<and> e \<noteq> ''.'') es = es"
    using assms by (intro filter_True) (simp add: element_ok_def)
  show "elements (rooted_path es) = es" "elements (rooted_path es @ [slash]) = es"
    using split keep by (auto simp: elements_def rooted_path_def tail)
qed

lemma path_clean_rooted:
  assumes "\<forall>e \<in> set es. element_ok e"
  shows "path_clean (rooted_path es) = rooted_path es" "path_clean (rooted_path es @ [slash]) = rooted_path es"
proof -
  have "clean_elements True es = es" by (rule clean_elements_same [OF assms])
  moreover have "hd (rooted_path es) = slash" "rooted_path es \<noteq> []" "hd (rooted_path es @ [slash]) = slash"
    by (simp_all add: rooted_path_def)
  ultimately show "path_clean (rooted_path es) = rooted_path es" "path_clean (rooted_path es @ [slash]) = rooted_path es"
    using elements_rooted [OF assms] by (simp_all add: path_clean_def Let_def) (simp_all add: rooted_path_def)
qed

lemma mux_clean_form:
  obtains es where "\<forall>e \<in> set es. element_ok e" "mux_clean s = rooted_path es \<or> es \<noteq> [] \<and> mux_clean s = rooted_path es @ [slash]"
proof -
  define p where "p = (if s = [] then [slash] else if hd s = slash then s else slash # s)"
  let ?es = "clean_elements True (elements p)"
  have "p \<noteq> []" "hd p = slash" by (auto simp: p_def)
  then have np: "path_clean p = rooted_path ?es" by (simp add: path_clean_def rooted_path_def)
  have ok: "\<forall>e \<in> set ?es. element_ok e" by (rule clean_elements_ok [OF elements_ok])
  have one: "clean_elements True (elements [slash]) = []" by (simp add: elements_def clean_elements_def)
  have "mux_clean s = rooted_path ?es \<or> ?es \<noteq> [] \<and> mux_clean s = rooted_path ?es @ [slash]"
  proof (cases "s = []")
    case True
    then show ?thesis using one by (simp add: mux_clean_def p_def rooted_path_def)
  next
    case False
    then have "mux_clean s = (if last p = slash \<and> path_clean p \<noteq> [slash] then path_clean p @ [slash] else path_clean p)"
      by (simp add: mux_clean_def p_def Let_def)
    then show ?thesis by (auto simp: np rooted_path_def)
  qed
  with ok that show thesis by blast
qed

lemma join_last:
  "es \<noteq> [] \<Longrightarrow> last es \<noteq> [] \<Longrightarrow> join sep es \<noteq> [] \<and> last (join sep es) = last (last es)"
  by (induction sep es rule: join.induct) auto

lemma rooted_path_last:
  assumes "\<forall>e \<in> set es. element_ok e" "es \<noteq> []"
  shows "last (rooted_path es) \<noteq> slash"
proof -
  have e: "element_ok (last es)" using assms by simp
  then have "join [slash] es \<noteq> []" "last (join [slash] es) = last (last es)"
    using join_last [OF assms(2)] by (simp_all add: element_ok_def)
  moreover have "last (last es) \<noteq> slash"
  proof
    assume "last (last es) = slash"
    moreover have "last (last es) \<in> set (last es)" using e by (intro last_in_set) (simp add: element_ok_def)
    ultimately have "slash \<in> set (last es)" by simp
    then show False using e by (simp add: element_ok_def)
  qed
  ultimately show ?thesis by (simp add: rooted_path_def)
qed

text \<open>Clean paths, with or without a trailing slash, stay what they are.\<close>

lemma mux_clean_fixed:
  assumes ok: "\<forall>e \<in> set es. element_ok e"
  shows "mux_clean (rooted_path es) = rooted_path es"
    "es \<noteq> [] \<Longrightarrow> mux_clean (rooted_path es @ [slash]) = rooted_path es @ [slash]"
proof -
  have root: "rooted_path es \<noteq> []" "hd (rooted_path es) = slash" "hd (rooted_path es @ [slash]) = slash"
    by (simp_all add: rooted_path_def)
  show "mux_clean (rooted_path es) = rooted_path es"
  proof (cases "es = []")
    case True
    then show ?thesis using path_clean_rooted(1) [of "[]"] by (simp add: mux_clean_def rooted_path_def)
  next
    case False
    then show ?thesis
      using root path_clean_rooted [OF ok] rooted_path_last [OF ok] by (simp add: mux_clean_def Let_def)
  qed
  assume "es \<noteq> []"
  then have "rooted_path es \<noteq> [slash]" using rooted_path_last [OF ok] by (metis last.simps)
  then show "mux_clean (rooted_path es @ [slash]) = rooted_path es @ [slash]"
    using root path_clean_rooted [OF ok] by (simp add: mux_clean_def Let_def)
qed

lemma mux_clean_idem: "mux_clean (mux_clean s) = mux_clean s"
proof -
  obtain es where es: "\<forall>e \<in> set es. element_ok e"
      "mux_clean s = rooted_path es \<or> es \<noteq> [] \<and> mux_clean s = rooted_path es @ [slash]"
    by (rule mux_clean_form)
  then show ?thesis using mux_clean_fixed [OF es(1)] by auto
qed

text \<open>No request climbs out of the served directory.\<close>

lemma mux_clean_inside: "''..'' \<notin> set (split_path (mux_clean s))"
proof -
  obtain es where es: "\<forall>e \<in> set es. element_ok e"
      "mux_clean s = rooted_path es \<or> es \<noteq> [] \<and> mux_clean s = rooted_path es @ [slash]"
    by (rule mux_clean_form)
  then have "elements (mux_clean s) = es" using elements_rooted [OF es(1)] by auto
  then have "''..'' \<in> set (split_path (mux_clean s)) \<Longrightarrow> ''..'' \<in> set es" by (auto simp: elements_def)
  then show ?thesis using es(1) by (auto simp: element_ok_def)
qed

section \<open>Redirects\<close>

lemma upper_hex_plain: "n < 16 \<Longrightarrow> upper_hex n \<noteq> slash \<and> upper_hex n \<noteq> CHR ''.''"
  by (simp add: upper_hex_def of_char_eq_iff [symmetric, where 'a = nat] del: of_char_eq_iff)

lemma escape_slash: "escape_char slash = [slash]"
  by (simp add: escape_char_def path_char_def)

lemma escape_char_cases:
  "escape_char c = [c] \<and> path_char c \<or>
   (\<exists>a b. escape_char c = [CHR ''%'', a, b] \<and> a \<noteq> slash \<and> b \<noteq> slash \<and> \<not> path_char c)"
proof -
  have "(of_char c :: nat) div 16 < 16" by (rule less_mult_imp_div_less) simp
  moreover have "(of_char c :: nat) mod 16 < 16" by simp
  ultimately show ?thesis using upper_hex_plain by (simp add: escape_char_def)
qed

lemma escape_char_plain: "c \<noteq> slash \<Longrightarrow> slash \<notin> set (escape_char c)"
  using escape_char_cases [of c] by auto

lemma escape_path_simps [simp]:
  "escape_path [] = []" "escape_path (c # s) = escape_char c @ escape_path s"
  "escape_path (s @ t) = escape_path s @ escape_path t"
  by (simp_all add: escape_path_def)

lemma escape_path_Nil [simp]: "escape_path s = [] \<longleftrightarrow> s = []"
proof (cases s)
  case (Cons c r)
  then show ?thesis using escape_char_cases [of c] by auto
qed simp

lemma escape_dot: "escape_path s = CHR ''.'' # t \<longleftrightarrow> (\<exists>r. s = CHR ''.'' # r \<and> escape_path r = t)"
proof (cases s)
  case (Cons c r)
  have "path_char (CHR ''.'')" by (simp add: path_char_def)
  then show ?thesis using escape_char_cases [of c] by (auto simp: Cons)
qed simp

lemma escape_element: "element_ok e \<Longrightarrow> element_ok (escape_path e)"
proof -
  assume e: "element_ok e"
  have "slash \<notin> set e \<Longrightarrow> slash \<notin> set (escape_path e)"
    by (induction e) (auto simp: escape_char_plain)
  then show ?thesis using e by (auto simp: element_ok_def escape_dot)
qed

lemma escape_join: "escape_path (join [slash] es) = join [slash] (map escape_path es)"
  by (induction "[slash]" es rule: join.induct) (simp_all add: escape_slash)

lemma escape_rooted: "escape_path (rooted_path es) = rooted_path (map escape_path es)"
  by (simp add: rooted_path_def escape_slash escape_join)

lemma unescape_plain: "CHR ''%'' \<notin> set s \<Longrightarrow> unescape_path s = s"
proof (induction s rule: unescape_path.induct)
  case (1 c a b s)
  then have "c \<noteq> CHR ''%''" by auto
  with 1 show ?case by simp
qed simp_all

text \<open>A client that follows a redirect is not redirected again.\<close>

lemma mux_clean_redirect: "mux_clean (escape_path (mux_clean s)) = escape_path (mux_clean s)"
proof -
  obtain es where es: "\<forall>e \<in> set es. element_ok e"
      "mux_clean s = rooted_path es \<or> es \<noteq> [] \<and> mux_clean s = rooted_path es @ [slash]"
    by (rule mux_clean_form)
  have "\<forall>e \<in> set (map escape_path es). element_ok e" using es(1) escape_element by simp
  from mux_clean_fixed [OF this] es(2) show ?thesis by (auto simp: escape_rooted escape_slash)
qed

section \<open>The tree of files\<close>

text \<open>The path of the elements below a clean directory.\<close>

definition below :: "string \<Rightarrow> string list \<Rightarrow> string" where
  "below dir es = (if es = [] then dir else if dir = ''.'' then join [slash] es
     else if dir = [slash] then slash # join [slash] es else dir @ slash # join [slash] es)"

definition stack_ok :: "bool \<Rightarrow> string list \<Rightarrow> bool" where
  "stack_ok rooted es \<longleftrightarrow> (\<exists>n oks. es = replicate n ''..'' @ oks \<and> (\<forall>e \<in> set oks. element_ok e) \<and> (rooted \<longrightarrow> n = 0))"

lemma stack_ok_clean:
  assumes "\<forall>e \<in> set es. e \<noteq> [] \<and> e \<noteq> ''.'' \<and> slash \<notin> set e"
  shows "stack_ok rooted (clean_elements rooted es)"
proof -
  have step: "stack_ok rooted (rev (clean_element rooted e st))"
    if st: "stack_ok rooted (rev st)" and e: "e \<noteq> []" "e \<noteq> ''.''" "slash \<notin> set e" for e st
  proof -
    obtain n oks where n: "rev st = replicate n ''..'' @ oks" "\<forall>e \<in> set oks. element_ok e" "rooted \<longrightarrow> n = 0"
      using st by (auto simp: stack_ok_def)
    show ?thesis
    proof (cases "e = ''..''")
      case False
      then have "rev (clean_element rooted e st) = replicate n ''..'' @ (oks @ [e])" using n(1) by (simp add: clean_element_def)
      moreover have "\<forall>x \<in> set (oks @ [e]). element_ok x" using n(2) e False by (simp add: element_ok_def)
      ultimately show ?thesis unfolding stack_ok_def using n(3) by blast
    next
      case True
      have st': "st = rev oks @ replicate n ''..''" using n(1) by (metis rev_append rev_replicate rev_rev_ident)
      show ?thesis
      proof (cases oks rule: rev_cases)
        case Nil
        have "rev (clean_element rooted e st) = (if rooted then [] else replicate (Suc n) ''..'')"
          using n(3) by (cases n) (auto simp: clean_element_def st' Nil True replicate_append_same)
        then show ?thesis unfolding stack_ok_def by (cases rooted) (auto intro: exI [of _ "Suc n"])
      next
        case (snoc ys y)
        then have "rev (clean_element rooted e st) = replicate n ''..'' @ ys"
          using n(2) by (simp add: clean_element_def st' True element_ok_def)
        then show ?thesis unfolding stack_ok_def using n(2,3) snoc by auto
      qed
    qed
  qed
  have "stack_ok rooted (rev (fold (clean_element rooted) es st))" if "stack_ok rooted (rev st)" for st
    using assms that step by (induction es arbitrary: st) simp_all
  moreover have "stack_ok rooted (rev [])" by (auto simp: stack_ok_def)
  ultimately show ?thesis unfolding clean_elements_def by blast
qed

lemma clean_elements_stack:
  assumes "stack_ok rooted es" "\<forall>e \<in> set more. element_ok e"
  shows "clean_elements rooted (es @ more) = es @ more"
proof -
  obtain n oks where n: "es = replicate n ''..'' @ oks" "\<forall>e \<in> set oks. element_ok e" "rooted \<longrightarrow> n = 0"
    using assms(1) by (auto simp: stack_ok_def)
  have up: "fold (clean_element rooted) (replicate n ''..'') (replicate k ''..'') = replicate (n + k) ''..''" for k
    using n(3)
  proof (induction n arbitrary: k)
    case (Suc n)
    have "clean_element rooted ''..'' (replicate k ''..'') = replicate (Suc k) ''..''"
      using Suc.prems by (cases k) (simp_all add: clean_element_def)
    then show ?case using Suc.IH [of "Suc k"] Suc.prems by simp
  qed simp
  have plain: "fold (clean_element rooted) xs st = rev xs @ st" if "\<forall>e \<in> set xs. element_ok e" for xs st
    using that by (induction xs arbitrary: st) (simp_all add: clean_element_def element_ok_def)
  show ?thesis
    using up [of 0] plain [of oks] plain [OF assms(2)] n(1,2) by (simp add: clean_elements_def)
qed

lemma elements_append: "elements (s @ slash # t) = elements s @ elements t"
proof -
  have "split_path (s @ slash # t) = split_path s @ split_path t"
    by (induction s) (auto split: list.splits)
  then show ?thesis by (simp add: elements_def)
qed

lemma elements_join:
  assumes "\<forall>e \<in> set es. e \<noteq> [] \<and> e \<noteq> ''.'' \<and> slash \<notin> set e"
  shows "elements (join [slash] es) = es"
proof (cases "es = []")
  case False
  then have "split_path (join [slash] es) = es" using assms by (simp add: split_path_join)
  then show ?thesis using assms by (simp add: elements_def)
qed (simp add: elements_def)

lemma stack_ok_plain: "stack_ok rooted es \<Longrightarrow> \<forall>e \<in> set es. e \<noteq> [] \<and> e \<noteq> ''.'' \<and> slash \<notin> set e"
proof -
  assume "stack_ok rooted es"
  then obtain n oks where n: "es = replicate n ''..'' @ oks" "\<forall>e \<in> set oks. element_ok e" unfolding stack_ok_def by blast
  have "e \<noteq> [] \<and> e \<noteq> ''.'' \<and> slash \<notin> set e" if "e \<in> set es" for e
  proof (cases "e = ''..''")
    case False
    then have "element_ok e" using that n by (simp add: in_set_replicate)
    then show ?thesis by (simp only: element_ok_def) simp
  qed simp
  then show ?thesis by blast
qed

lemma elements_dot: "elements ''.'' = []"
  by (simp add: elements_def)

lemma path_clean_is:
  "s \<noteq> [] \<Longrightarrow> (hd s = slash) = r \<Longrightarrow> clean_elements r (elements s) = es \<Longrightarrow>
   path_clean s = (if r then slash # join [slash] es else if es = [] then ''.'' else join [slash] es)"
  by (cases r) (auto simp: path_clean_def Let_def)

text \<open>Whatever the name, the file lies in the tree of the directory: the elements after the
  directory's own are proper ones, without a step upwards.\<close>

lemma tree_file_below:
  "\<exists>es. (\<forall>e \<in> set es. element_ok e) \<and> tree_file (path_clean dir) name = below (path_clean dir) es"
proof -
  define r where "r \<longleftrightarrow> dir \<noteq> [] \<and> hd dir = slash"
  define a where "a = (if dir = [] then [] else clean_elements r (elements dir))"
  let ?d = "path_clean dir" and ?es = "clean_elements True (elements (slash # name))"
  have d: "?d = (if r then slash # join [slash] a else if a = [] then ''.'' else join [slash] a)"
    by (cases "dir = []") (simp_all add: path_clean_def a_def r_def Let_def)
  have st: "stack_ok r a"
    using stack_ok_clean [OF elements_ok] by (auto simp: a_def stack_ok_def)
  note plain = stack_ok_plain [OF st]
  have es: "\<forall>e \<in> set ?es. element_ok e" by (rule clean_elements_ok [OF elements_ok])
  have n: "path_clean (slash # name) = slash # join [slash] ?es" by (simp add: path_clean_def)
  have "elements ?d = a"
    using elements_join [OF plain] elements_append [of "[]" "join [slash] a"] elements_dot
    by (auto simp: d) (simp add: elements_def)
  moreover have "elements (slash # join [slash] ?es) = ?es"
    using elements_rooted(1) [OF es] by (simp add: rooted_path_def)
  ultimately have el: "elements (?d @ slash # slash # join [slash] ?es) = a @ ?es"
    by (simp add: elements_append)
  have j: "join [slash] a \<noteq> []" "hd (join [slash] a) \<noteq> slash" "join [slash] a \<noteq> ''.''" if ne: "a \<noteq> []"
  proof -
    obtain x xs where a: "a = x # xs" using ne by (cases a) simp_all
    then obtain c cs where x: "x = c # cs" "slash \<noteq> c" using plain by (cases x) simp_all
    show "join [slash] a \<noteq> []" "hd (join [slash] a) \<noteq> slash" using x(2) by (auto simp: a x(1) join_Cons)
    show "join [slash] a \<noteq> ''.''" using ne elements_join [OF plain] elements_dot by metis
  qed
  then have head: "?d \<noteq> []" "hd ?d = slash \<longleftrightarrow> r" by (auto simp: d)
  have "tree_file ?d name = path_clean (?d @ slash # slash # join [slash] ?es)"
    using head(1) by (simp add: tree_file_def path_join_def n)
  also have "\<dots> = (if r then slash # join [slash] (a @ ?es) else if a @ ?es = [] then ''.'' else join [slash] (a @ ?es))"
  proof (rule path_clean_is)
    show "clean_elements r (elements (?d @ slash # slash # join [slash] ?es)) = a @ ?es"
      using clean_elements_stack [OF st es] by (simp only: el)
  qed (use head in simp_all)
  also have "\<dots> = below ?d ?es"
    using j join_append [of a ?es "[slash]"] by (cases "a = []"; cases "?es = []") (auto simp: below_def d)
  finally show ?thesis using es by blast
qed

end
