(* ===== verification/Http_Server.thy ===== *)
theory Http_Server
  imports Status Json_Types Paths
begin

text \<open>
  \<^verbatim>\<open>cmd/streamengine/http.go\<close>: the routes of the server and its handlers,
  which write the metrics and the status as JSON. \<^verbatim>\<open>encoding/json\<close>,
  \<^verbatim>\<open>path\<close> and the mux of \<^verbatim>\<open>net/http\<close> are the standard
  library's; a response is what the handler makes of a request, before the transport.
\<close>

section \<open>Routes\<close>

datatype endpoint = Health | MetricsApi | StatusApi | Page | FileTree string

text \<open>A response carries its status code, content type and body; of a file, the path that is served;
  of a redirect, the new path. A panic in a handler is the left summand: the transport closes that
  connection, the server goes on.\<close>

datatype response = Reply nat string string | ServeFile string | MovedTo string | NotFound

record http_server =
  sv_addr :: string
  sv_web_dir :: string
  sv_routes :: "(string \<times> endpoint) list"

definition new_http_server :: "string \<Rightarrow> string \<Rightarrow> http_server" where
  "new_http_server addr web_dir =
     \<lparr>sv_addr = addr, sv_web_dir = web_dir,
      sv_routes = [(''/health'', Health), (''/metrics'', MetricsApi), (''/api/status'', StatusApi),
        (''/topology'', Page), (''/'', FileTree (path_clean web_dir))]\<rparr>"

text \<open>A pattern with a trailing slash stands for all paths below it, any other for itself; segments are
  compared decoded, and the longest pattern wins.\<close>

definition segments :: "string \<Rightarrow> string list" where
  "segments path = map unescape_path (split_path (tl path))"

definition matches :: "string \<Rightarrow> string \<Rightarrow> bool" where
  "matches pattern path =
     (if last pattern = slash
      then take (length (segments pattern) - 1) (segments path) = butlast (segments pattern) \<and>
        length (segments pattern) \<le> length (segments path)
      else segments path = segments pattern)"

fun route_for :: "(string \<times> endpoint) list \<Rightarrow> string \<Rightarrow> (string \<times> endpoint) option" where
  "route_for [] path = None"
| "route_for ((pattern, e) # rs) path =
     (case route_for rs path of
        Some (pattern', e') \<Rightarrow>
          if matches pattern path \<and> length pattern' < length pattern then Some (pattern, e) else Some (pattern', e')
      | None \<Rightarrow> if matches pattern path then Some (pattern, e) else None)"

section \<open>The values that are marshalled\<close>

definition int_value :: "int64 \<Rightarrow> go_value" where
  "int_value w = GoInt (sint w)"

definition count_value :: "nat \<Rightarrow> go_value" where
  "count_value n = int_value (of_nat n)"

definition map_value :: "('v \<Rightarrow> go_value) \<Rightarrow> string list \<Rightarrow> (string \<rightharpoonup> 'v) \<Rightarrow> go_value" where
  "map_value f order m = GoMap (concat (map (\<lambda>k. case m k of None \<Rightarrow> [] | Some v \<Rightarrow> [(k, f v)]) order))"

definition watermark_value :: "watermark \<Rightarrow> go_value" where
  "watermark_value wm = GoStruct [(''Current'', int_value (wm_current wm)), (''Confirmed'', int_value (wm_confirmed wm))]"

definition partition_state_value :: "partition_state \<Rightarrow> go_value" where
  "partition_state_value ps = GoStruct [(''ID'', int_value (ps_id ps)), (''Count'', int_value (ps_count ps))]"

definition log_entry_value :: "log_entry \<Rightarrow> go_value" where
  "log_entry_value e = GoStruct [(''Offset'', int_value (le_offset e)), (''Seq'', int_value (le_seq e)),
     (''Kind'', GoString (le_kind e))]"

definition manifest_value :: "manifest \<Rightarrow> go_value" where
  "manifest_value m = GoStruct [(''Seq'', int_value (mf_seq m)), (''Offset'', int_value (mf_offset m))]"

definition catalog_entry_value :: "catalog_entry \<Rightarrow> go_value" where
  "catalog_entry_value e = GoStruct [(''Window'', GoString (ce_window e)), (''State'', GoString (ce_state e)),
     (''Events'', int_value (ce_events e)), (''Late'', int_value (ce_late e)),
     (''OpenedAt'', int_value (ce_opened_at e)), (''ClosedAt'', int_value (ce_closed_at e))]"

text \<open>The recent log is a copy made by appending to a nil slice, so an empty one is nil; the summary of the
  catalog is made with \<^verbatim>\<open>make\<close>.\<close>

definition recent_value :: "log_entry list \<Rightarrow> go_value" where
  "recent_value es = GoSlice (if es = [] then None else Some (map log_entry_value es))"

definition catalog_value :: "catalog_entry list \<Rightarrow> go_value" where
  "catalog_value es = GoSlice (Some (map catalog_entry_value es))"

text \<open>The map that \<^verbatim>\<open>Status\<close> returns. The inner maps are listed in an order of
  their own, given by the name of the entry.\<close>

type_synonym map_orders = "string \<Rightarrow> string list"

definition status_entries :: "map_orders \<Rightarrow> engine_status \<Rightarrow> (string \<times> go_value) list" where
  "status_entries mo st =
    [(''watermark'', watermark_value (sa_watermark st)),
     (''watermark_current'', int_value (sa_watermark_current st)),
     (''windows'', map_value GoString (mo ''windows'') (sa_windows st)),
     (''window_kind'', GoString (sa_window_kind st)),
     (''sessions'', map_value GoString (mo ''sessions'') (sa_sessions st)),
     (''sink'', map_value int_value (mo ''sink'') (sa_sink st)),
     (''sink_pending'', count_value (sa_sink_pending st)),
     (''sink_committed'', count_value (sa_sink_committed st)),
     (''sink_records'', count_value (sa_sink_records st)),
     (''sink_last_seq'', int_value (sa_sink_last_seq st)),
     (''state_keys'', count_value (sa_state_keys st)),
     (''state_applied'', count_value (sa_state_applied st)),
     (''partitions'', partition_state_value (sa_partitions st)),
     (''max_key_partitions'', count_value (sa_max_key_partitions st)),
     (''key_total'', int_value (sa_key_total st)),
     (''operators'', map_value GoString (mo ''operators'') (sa_operators st)),
     (''node_window'', map_value GoString (mo ''node_window'') (sa_node_window st)),
     (''dag'', GoString (sa_dag st)),
     (''buffered'', count_value (sa_buffered st)),
     (''paused'', GoBool (sa_paused st)),
     (''open_windows'', count_value (sa_open_windows st)),
     (''session_count'', count_value (sa_session_count st)),
     (''session_active'', GoBool (sa_session_active st)),
     (''result_count'', count_value (sa_result_count st)),
     (''emitted_results'', count_value (sa_emitted_results st)),
     (''drained'', int_value (sa_drained st)),
     (''source_last_offset'', int_value (sa_source_last_offset st)),
     (''watermark_lag'', int_value (sa_watermark_lag st)),
     (''metrics'', map_value int_value (mo ''metrics'') (sa_metrics st)),
     (''last_offset'', int_value (sa_last_offset st)),
     (''idle_fired'', int_value (sa_idle_fired st)),
     (''checkpoint_log'', recent_value (sa_checkpoint_log st)),
     (''checkpoint_attempts'', int_value (sa_checkpoint_attempts st)),
     (''last_manifest'', manifest_value (sa_last_manifest st)),
     (''window_catalog'', catalog_value (sa_window_catalog st)),
     (''backpressure'', GoBool (sa_backpressure st))]"

definition status_value :: "map_orders \<Rightarrow> engine_status \<Rightarrow> go_value" where
  "status_value mo st = GoMap (status_entries mo st)"

definition metrics_value :: "string list \<Rightarrow> metrics \<Rightarrow> go_value" where
  "metrics_value order ms = map_value int_value order (metrics_snapshot ms)"

section \<open>Handlers\<close>

definition text_type :: string where
  "text_type = ''text/plain; charset=utf-8''"

definition json_type :: string where
  "json_type = ''application/json; charset=utf-8''"

definition handle_health :: response where
  "handle_health = Reply 200 text_type ''ok''"

text \<open>The end of the two JSON handlers; \<^verbatim>\<open>http.Error\<close> ends the message with a
  line break.\<close>

definition reply_json :: "string + string \<Rightarrow> response" where
  "reply_json payload = (case payload of
     Inl err \<Rightarrow> Reply 500 text_type (err @ [CHR 0x0A])
   | Inr body \<Rightarrow> Reply 200 json_type body)"

definition handle_metrics :: "map_orders \<Rightarrow> pipeline \<Rightarrow> response go" where
  "handle_metrics mo p = (case en_metrics (pl_engine p) of
     None \<Rightarrow> Inl NilDereference
   | Some ms \<Rightarrow> Inr (reply_json (marshal (metrics_value (mo ''metrics'') ms))))"

definition handle_status :: "status_orders \<Rightarrow> map_orders \<Rightarrow> pipeline \<Rightarrow> response go" where
  "handle_status so mo p =
     go_bind (status so p) (\<lambda>st. Inr (reply_json (marshal (status_value mo st))))"

definition handle_page :: "http_server \<Rightarrow> response" where
  "handle_page sv = ServeFile (path_join (sv_web_dir sv) ''topology.html'')"

text \<open>The request is given by its encoded path.\<close>

definition handle :: "http_server \<Rightarrow> status_orders \<Rightarrow> map_orders \<Rightarrow> pipeline \<Rightarrow> string \<Rightarrow> endpoint \<Rightarrow> response go" where
  "handle sv so mo p path e = (case e of
     Health \<Rightarrow> Inr handle_health
   | MetricsApi \<Rightarrow> handle_metrics mo p
   | StatusApi \<Rightarrow> handle_status so mo p
   | Page \<Rightarrow> Inr (handle_page sv)
   | FileTree dir \<Rightarrow> Inr (ServeFile (tree_file dir (unescape_path path))))"

definition serve :: "http_server \<Rightarrow> status_orders \<Rightarrow> map_orders \<Rightarrow> pipeline \<Rightarrow> string \<Rightarrow> response go" where
  "serve sv so mo p path =
     (if mux_clean path \<noteq> path then Inr (MovedTo (escape_path (mux_clean path)))
      else case route_for (sv_routes sv) path of
        None \<Rightarrow> Inr NotFound
      | Some (_, e) \<Rightarrow> handle sv so mo p path e)"

end
