(* ===== verification/Status_Page.thy ===== *)
theory Status_Page
  imports Http_Server
begin

text \<open>
  What the clients of the HTTP server get: the type of the JSON payloads, what is read back from
  them, and what the page \<^verbatim>\<open>web/topology.html\<close> shows of the status.
\<close>

section \<open>The type of the status\<close>

text \<open>The entries in the order of the code.\<close>

definition status_fields :: "(string \<times> schema) list" where
  "status_fields =
    [(''watermark'', ObjectS [(''Current'', IntS), (''Confirmed'', IntS)]), (''watermark_current'', IntS),
     (''windows'', DictS StringS), (''window_kind'', StringS), (''sessions'', DictS StringS), (''sink'', DictS IntS),
     (''sink_pending'', IntS), (''sink_committed'', IntS), (''sink_records'', IntS), (''sink_last_seq'', IntS),
     (''state_keys'', IntS), (''state_applied'', IntS), (''partitions'', ObjectS [(''ID'', IntS), (''Count'', IntS)]),
     (''max_key_partitions'', IntS), (''key_total'', IntS), (''operators'', DictS StringS),
     (''node_window'', DictS StringS), (''dag'', StringS), (''buffered'', IntS), (''paused'', BoolS),
     (''open_windows'', IntS), (''session_count'', IntS), (''session_active'', BoolS), (''result_count'', IntS),
     (''emitted_results'', IntS), (''drained'', IntS), (''source_last_offset'', IntS), (''watermark_lag'', IntS),
     (''metrics'', DictS IntS), (''last_offset'', IntS), (''idle_fired'', IntS),
     (''checkpoint_log'', SliceS (ObjectS [(''Offset'', IntS), (''Seq'', IntS), (''Kind'', StringS)])),
     (''checkpoint_attempts'', IntS), (''last_manifest'', ObjectS [(''Seq'', IntS), (''Offset'', IntS)]),
     (''window_catalog'', SliceS (ObjectS [(''Window'', StringS), (''State'', StringS), (''Events'', IntS),
        (''Late'', IntS), (''OpenedAt'', IntS), (''ClosedAt'', IntS)])),
     (''backpressure'', BoolS)]"

definition status_schema :: schema where
  "status_schema = ObjectS (sort_slice fst status_fields)"

definition metrics_schema :: schema where
  "metrics_schema = DictS IntS"

lemma typed_ints [simp]: "typed IntS (int_value w)" "typed IntS (count_value n)"
  using sint_range64 by (simp_all add: int_value_def count_value_def)

lemma typed_map_value: "(\<And>v. typed t (f v)) \<Longrightarrow> typed (DictS t) (map_value f order m)"
  by (auto simp: map_value_def split: option.splits)

lemmas value_defs = watermark_value_def partition_state_value_def log_entry_value_def manifest_value_def
  catalog_entry_value_def recent_value_def catalog_value_def

lemma status_typed: "typed status_schema (status_value mo st)"
  unfolding status_schema_def status_value_def
  by (rule typed_fixed) (auto simp: status_fields_def status_entries_def value_defs ascii_def intro!: typed_map_value)

lemma metrics_typed: "typed metrics_schema (metrics_value order ms)"
  by (simp add: metrics_schema_def metrics_value_def typed_map_value)

section \<open>Routing\<close>

lemma route_api:
  "mux_clean ''/health'' = ''/health''" "mux_clean ''/metrics'' = ''/metrics''"
  "mux_clean ''/api/status'' = ''/api/status''" "mux_clean ''/topology'' = ''/topology''"
  by code_simp+

lemma serve_routes:
  "serve (new_http_server addr dir) so mo p ''/health'' = Inr handle_health"
  "serve (new_http_server addr dir) so mo p ''/metrics'' = handle_metrics mo p"
  "serve (new_http_server addr dir) so mo p ''/api/status'' = handle_status so mo p"
  "serve (new_http_server addr dir) so mo p ''/topology'' = Inr (handle_page (new_http_server addr dir))"
  by (simp_all add: serve_def route_api handle_def new_http_server_def matches_def segments_def unescape_plain)

section \<open>Reading the payloads\<close>

lemma reading_simps [simp]:
  "reading (int_value w) = Some (JInt (sint w))" "reading (GoInt i) = Some (JInt i)" "reading (GoBool b) = Some (JBool b)"
  "reading (GoString s) = Some (JString (repair s))"
  by (simp_all add: reading_def int_value_def)

lemma map_of_entries:
  "map_of (concat (map (\<lambda>k. case m k of None \<Rightarrow> [] | Some v \<Rightarrow> [(k, f v)]) order)) k =
     (if k \<in> set order then map_option f (m k) else None)"
  by (induction order) (auto split: option.splits)

lemma keys_of_entries:
  "set order \<subseteq> dom m \<Longrightarrow> map fst (concat (map (\<lambda>k. case m k of None \<Rightarrow> [] | Some v \<Rightarrow> [(k, f v)]) order)) = order"
  by (induction order) auto

text \<open>A map is read back as the list of its entries sorted by key, whatever the order in which Go iterated it.\<close>

definition object_of :: "('v \<Rightarrow> json) \<Rightarrow> (string \<rightharpoonup> 'v) \<Rightarrow> json" where
  "object_of g m = JObject (map (\<lambda>k. (k, g (the (m k)))) (sorted_list_of_set (dom m)))"

lemma reading_map_value:
  assumes order: "enum_of order m" and keys: "\<forall>k \<in> dom m. ascii k" and f: "\<And>v. reading (f v) = Some (g v)"
  shows "reading (map_value f order m) = Some (object_of g m)"
proof -
  let ?es = "concat (map (\<lambda>k. case m k of None \<Rightarrow> [] | Some v \<Rightarrow> [(k, f v)]) order)"
  have sub: "set order \<subseteq> dom m" and dist: "distinct order" using order by (simp_all add: enum_of_def)
  have fst: "map fst ?es = order" by (rule keys_of_entries [OF sub])
  then have asc: "\<forall>e \<in> set ?es. ascii (fst e)" using keys sub by (metis (no_types, lifting) image_eqI list.set_map subsetD)
  have "\<forall>e \<in> set ?es. \<exists>j. reading (snd e) = Some j" using f by (auto split: option.splits)
  from reading_total [OF this] obtain j where r: "reading (GoMap ?es) = Some j" by blast
  have "distinct (map fst ?es)" using fst dist by simp
  from reading_map [OF r asc this] obtain ms where ms: "j = JObject ms" "map fst ms = sort order"
      "\<And>k. map_of ms k = (case map_of ?es k of None \<Rightarrow> None | Some v \<Rightarrow> reading v)"
    unfolding fst by blast
  have sorted: "sorted_list_of_set (dom m) = sort order"
    using order sorted_list_of_set_sort_remdups [of order] by (simp add: enum_of_def distinct_remdups_id)
  have "map_of ms k = Some (g (the (m k)))" if "k \<in> set order" for k
    using that sub by (auto simp: ms(3) map_of_entries f)
  then have "map (\<lambda>k. (k, the (map_of ms k))) (sort order) = map (\<lambda>k. (k, g (the (m k)))) (sort order)" by simp
  moreover have "ms = map (\<lambda>k. (k, the (map_of ms k))) (sort order)"
    using list_of_map [of ms] dist by (simp add: ms(2))
  ultimately have "ms = map (\<lambda>k. (k, g (the (m k)))) (sort order)" by (rule trans [rotated])
  then show ?thesis using r ms(1) by (simp add: map_value_def object_of_def sorted)
qed

lemma metrics_reading:
  assumes "enum_of order (metrics_snapshot ms)"
  shows "reading (metrics_value order ms) = Some (object_of (\<lambda>w. JInt (sint w)) (metrics_snapshot ms))"
  unfolding metrics_value_def
  by (rule reading_map_value [OF assms]) (auto simp: metrics_snapshot_def ascii_def)

lemma metrics_object:
  "object_of (\<lambda>w. JInt (sint w)) (metrics_snapshot ms) = JObject
     [(''aggregated'', JInt (sint (m_aggregated ms))), (''checkpoints'', JInt (sint (m_checkpoints ms))),
      (''emitted'', JInt (sint (m_emitted ms))), (''ingested'', JInt (sint (m_ingested ms))),
      (''late_dropped'', JInt (sint (m_late_dropped ms))), (''restores'', JInt (sint (m_restores ms)))]"
proof -
  have "sorted_list_of_set (dom (metrics_snapshot ms)) =
      [''aggregated'', ''checkpoints'', ''emitted'', ''ingested'', ''late_dropped'', ''restores'']"
    by (rule sorted_list_of_set_unique [THEN iffD1]) (auto simp: metrics_snapshot_def)
  then show ?thesis by (simp add: object_of_def metrics_snapshot_def)
qed

section \<open>The monitoring page\<close>

text \<open>
  What \<^verbatim>\<open>refresh\<close> in \<^verbatim>\<open>web/topology.html\<close> shows of a status. A
  property that is missing is \<open>Undefined\<close>, a property of \<open>Undefined\<close> throws, which is \<open>None\<close> here: the page
  then shows the error instead. Rows are only taken of objects, which is what the payload holds there.
\<close>

datatype js = Undefined | Js json

fun js_get :: "string \<Rightarrow> js \<Rightarrow> js option" where
  "js_get k Undefined = None"
| "js_get k (Js JNull) = None"
| "js_get k (Js (JObject ms)) = Some (case map_of ms k of None \<Rightarrow> Undefined | Some j \<Rightarrow> Js j)"
| "js_get k (Js j) = Some Undefined"

fun js_entries :: "js \<Rightarrow> (string \<times> json) list option" where
  "js_entries (Js (JObject ms)) = Some ms"
| "js_entries _ = None"

fun cell_text :: "json \<Rightarrow> string" where
  "cell_text JNull = ''null''"
| "cell_text (JBool b) = (if b then ''true'' else ''false'')"
| "cell_text (JInt i) = show_int i"
| "cell_text (JString s) = s"
| "cell_text (JArray xs) = join '','' (map (\<lambda>x. if x = JNull then '''' else cell_text x) xs)"
| "cell_text (JObject ms) = ''[object Object]''"

definition row_html :: "string \<times> json \<Rightarrow> string" where
  "row_html row = ''<td>'' @ fst row @ ''</td><td>'' @ cell_text (snd row) @ ''</td>''"

record page_view =
  pv_watermark :: "js \<times> js"
  pv_partitions :: js
  pv_buffered :: js
  pv_state_keys :: js
  pv_metrics :: "(string \<times> json) list"
  pv_operators :: "(string \<times> json) list"
  pv_windows :: "(string \<times> json) list"

definition js_rows :: "string \<Rightarrow> js \<Rightarrow> (string \<times> json) list option" where
  "js_rows k data = Option.bind (js_get k data) js_entries"

definition refresh :: "json \<Rightarrow> page_view option" where
  "refresh j = (let data = Js j in
     Option.bind (js_get ''watermark'' data) (\<lambda>watermark.
     Option.bind (js_get ''current'' watermark) (\<lambda>current.
     Option.bind (js_get ''confirmed'' watermark) (\<lambda>confirmed.
     Option.bind (js_get ''partitions'' data) (\<lambda>partitions.
     Option.bind (js_get ''count'' partitions) (\<lambda>count.
     Option.bind (js_get ''buffered'' data) (\<lambda>buffered.
     Option.bind (js_get ''state_keys'' data) (\<lambda>state_keys.
     Option.bind (js_rows ''metrics'' data) (\<lambda>metrics.
     Option.bind (js_rows ''operators'' data) (\<lambda>operators.
     Option.bind (js_rows ''windows'' data) (\<lambda>windows.
     Some \<lparr>pv_watermark = (current, confirmed), pv_partitions = count, pv_buffered = buffered,
       pv_state_keys = state_keys, pv_metrics = metrics, pv_operators = operators, pv_windows = windows\<rparr>)))))))))))"

text \<open>The rows of the three tables, which the page sets as HTML.\<close>

definition page_rows :: "page_view \<Rightarrow> (string \<times> json) list" where
  "page_rows v = pv_metrics v @ pv_operators v @ pv_windows v"

lemma status_reading:
  obtains ms where "reading (status_value mo st) = Some (JObject ms)"
    "\<And>k. map_of ms k = (case map_of (status_entries mo st) k of None \<Rightarrow> None | Some v \<Rightarrow> reading v)"
proof -
  obtain j where r: "reading (status_value mo st) = Some j"
    using typed_marshals [OF status_typed [of mo st]] by (auto simp: reading_def)
  have asc: "\<forall>e \<in> set (status_entries mo st). ascii (fst e)" by (simp add: status_entries_def ascii_def)
  have dist: "distinct (map fst (status_entries mo st))" by (simp add: status_entries_def)
  from reading_map [OF r [unfolded status_value_def] asc dist] that r show thesis by metis
qed

text \<open>The entries of a map as a client reads them.\<close>

lemma map_value_rows:
  assumes "\<And>v. reading (f v) = Some (g v)"
  obtains ms where "reading (map_value f order m) = Some (JObject ms)"
    "\<forall>row \<in> set ms. \<exists>k v. m k = Some v \<and> row = (repair k, g v)"
proof -
  let ?es = "concat (map (\<lambda>k. case m k of None \<Rightarrow> [] | Some v \<Rightarrow> [(k, f v)]) order)"
  have "\<forall>e \<in> set (sort_slice fst ?es). \<exists>j. tree (snd e) = Inr j \<and> (\<exists>k v. m k = Some v \<and> fst e = k \<and> plain j = g v)"
  proof
    fix e assume "e \<in> set (sort_slice fst ?es)"
    then obtain k where "e \<in> set (case m k of None \<Rightarrow> [] | Some v \<Rightarrow> [(k, f v)])" by auto
    then obtain v where e: "m k = Some v" "e = (k, f v)" by (cases "m k") auto
    then show "\<exists>j. tree (snd e) = Inr j \<and> (\<exists>k v. m k = Some v \<and> fst e = k \<and> plain j = g v)"
      using assms [of v] by (auto simp: reading_def split: sum.splits)
  qed
  from collect_map [OF this, where g = fst] obtain ms where ms: "collect (entries (sort_slice fst ?es)) = Inr ms"
      "list_all2 (\<lambda>e x. fst x = fst e \<and> tree (snd e) = Inr (snd x) \<and> (\<exists>k v. m k = Some v \<and> fst e = k \<and> plain (snd x) = g v))
         (sort_slice fst ?es) ms"
    unfolding entries_map by blast
  have "\<forall>row \<in> set (plain_members ms). \<exists>k v. m k = Some v \<and> row = (repair k, g v)"
    using list_all2_right [OF ms(2)] by (fastforce simp: plain_members_map)
  then show thesis
    using that [of "plain_members ms"] ms(1) by (simp add: map_value_def reading_def wrap_def sort_entries)
qed

lemma struct_reading:
  "reading (watermark_value wm) = Some (JObject [(''Current'', JInt (sint (wm_current wm))), (''Confirmed'', JInt (sint (wm_confirmed wm)))])"
  "reading (partition_state_value ps) = Some (JObject [(''ID'', JInt (sint (ps_id ps))), (''Count'', JInt (sint (ps_count ps)))])"
  by (simp_all add: watermark_value_def partition_state_value_def int_value_def reading_def wrap_def repair_ascii ascii_def)

lemma refresh_status:
  assumes r: "reading (status_value mo st) = Some j"
  obtains v where "refresh j = Some v"
    "pv_watermark v = (Undefined, Undefined)" "pv_partitions v = Undefined"
    "pv_buffered v = Js (JInt (sint (of_nat (sa_buffered st) :: int64)))"
    "pv_state_keys v = Js (JInt (sint (of_nat (sa_state_keys st) :: int64)))"
    "\<forall>row \<in> set (pv_metrics v). \<exists>k w. sa_metrics st k = Some w \<and> row = (repair k, JInt (sint w))"
    "\<forall>row \<in> set (pv_operators v). \<exists>k s. sa_operators st k = Some s \<and> row = (repair k, JString (repair s))"
    "\<forall>row \<in> set (pv_windows v). \<exists>k s. sa_windows st k = Some s \<and> row = (repair k, JString (repair s))"
proof -
  obtain ms where ms: "reading (status_value mo st) = Some (JObject ms)"
      "\<And>k. map_of ms k = (case map_of (status_entries mo st) k of None \<Rightarrow> None | Some v \<Rightarrow> reading v)"
    using status_reading [of mo st] by metis
  obtain me where me: "reading (map_value int_value (mo ''metrics'') (sa_metrics st)) = Some (JObject me)"
      "\<forall>row \<in> set me. \<exists>k w. sa_metrics st k = Some w \<and> row = (repair k, JInt (sint w))"
    using map_value_rows [of int_value "\<lambda>w. JInt (sint w)" "mo ''metrics''" "sa_metrics st"] by auto
  obtain op' where op': "reading (map_value GoString (mo ''operators'') (sa_operators st)) = Some (JObject op')"
      "\<forall>row \<in> set op'. \<exists>k s. sa_operators st k = Some s \<and> row = (repair k, JString (repair s))"
    using map_value_rows [of GoString "\<lambda>s. JString (repair s)" "mo ''operators''" "sa_operators st"] by auto
  obtain wi where wi: "reading (map_value GoString (mo ''windows'') (sa_windows st)) = Some (JObject wi)"
      "\<forall>row \<in> set wi. \<exists>k s. sa_windows st k = Some s \<and> row = (repair k, JString (repair s))"
    using map_value_rows [of GoString "\<lambda>s. JString (repair s)" "mo ''windows''" "sa_windows st"] by auto
  have at: "map_of ms ''watermark'' = Some (JObject [(''Current'', JInt (sint (wm_current (sa_watermark st)))),
        (''Confirmed'', JInt (sint (wm_confirmed (sa_watermark st))))])"
      "map_of ms ''partitions'' = Some (JObject [(''ID'', JInt (sint (ps_id (sa_partitions st)))),
        (''Count'', JInt (sint (ps_count (sa_partitions st))))])"
      "map_of ms ''buffered'' = Some (JInt (sint (of_nat (sa_buffered st) :: int64)))"
      "map_of ms ''state_keys'' = Some (JInt (sint (of_nat (sa_state_keys st) :: int64)))"
      "map_of ms ''metrics'' = Some (JObject me)" "map_of ms ''operators'' = Some (JObject op')"
      "map_of ms ''windows'' = Some (JObject wi)"
    by (simp_all add: ms(2) status_entries_def struct_reading count_value_def me(1) op'(1) wi(1))
  define v where "v = \<lparr>pv_watermark = (Undefined, Undefined), pv_partitions = Undefined,
    pv_buffered = Js (JInt (sint (of_nat (sa_buffered st) :: int64))),
    pv_state_keys = Js (JInt (sint (of_nat (sa_state_keys st) :: int64))),
    pv_metrics = me, pv_operators = op', pv_windows = wi\<rparr>"
  have "j = JObject ms" using r ms(1) by simp
  then have "refresh j = Some v" by (simp add: refresh_def js_rows_def at v_def)
  from that [OF this] show thesis using me(2) op'(2) wi(2) by (simp add: v_def)
qed

section \<open>Names of the reachable pipelines\<close>

text \<open>The operators are those of the construction.\<close>

definition operator_names :: "string set" where
  "operator_names = {''window-aggregate'', ''session-track'', ''sink-commit''}"

lemma advance_instances:
  assumes "pl_advance orders ts p = Inr p'"
  shows "mg_instances (pl_topology p') = mg_instances (pl_topology p)"
proof -
  obtain s t m e where adv: "advance_to topology_process ts (pl_source p, pl_tracker p, (pl_topology p, pl_engine p)) = Inr (s, t, m, e)"
      and p': "pl_topology p' = m"
    using assms by (auto simp: pl_advance_def Let_def fanout_notify_def fanout_add_def new_fanout_def
        on_watermark_confirmed_def trigger_frame elim!: go_bind_InrE)
  have "mg_instances (fst mw') = mg_instances (fst mw)" if "topology_process ev mw = Inr mw'" for ev mw mw'
    using that by (cases mw) (auto simp: mg_process_def split: if_splits elim!: go_bind_InrE)
  from drain_keeps [where view = "\<lambda>mw. mg_instances (fst mw)", OF this] adv p' show ?thesis
    by (auto simp: advance_to_def Let_def split: if_splits elim!: go_bind_InrE)
qed

lemma operators_kept:
  "pl_emit ev p = Inr p' \<Longrightarrow> dom (mg_instances (pl_topology p')) = dom (mg_instances (pl_topology p))"
  "pl_advance orders ts p = Inr p' \<Longrightarrow> dom (mg_instances (pl_topology p')) = dom (mg_instances (pl_topology p))"
  "pl_apply_now ev p = Inr p' \<Longrightarrow> dom (mg_instances (pl_topology p')) = dom (mg_instances (pl_topology p))"
  "pl_resume order p = Inr p' \<Longrightarrow> dom (mg_instances (pl_topology p')) = dom (mg_instances (pl_topology p))"
  "run_checkpoint offset p = Inr p' \<Longrightarrow> dom (mg_instances (pl_topology p')) = dom (mg_instances (pl_topology p))"
  "pl_resize parts n p = Inr p' \<Longrightarrow> dom (mg_instances (pl_topology p')) = dom (mg_instances (pl_topology p))"
  "dom (mg_instances (pl_topology (pl_pause p))) = dom (mg_instances (pl_topology p))"
  "dom (mg_instances (pl_topology (snd (pl_should_advance now p)))) = dom (mg_instances (pl_topology p))"
  by (auto simp: pl_emit_def advance_instances run_checkpoint_frame(2) pl_pause_def mg_pause_def pl_resume_def
      mg_resume_def pl_apply_now_def apply_now_def pl_should_advance_def pl_resize_def Let_def dom_map_option
      split: if_splits prod.splits elim!: go_bind_InrE)

lemma run_operators:
  "pipeline_run p0 fed lost p \<Longrightarrow> dom (mg_instances (pl_topology p)) = dom (mg_instances (pl_topology p0))"
  by (induction rule: pipeline_run.induct) (simp_all add: operators_kept)

lemma reached_operators:
  assumes "reached cfg fed lost p"
  shows "dom (mg_instances (pl_topology p)) = operator_names"
proof -
  obtain p0 where p0: "starts cfg p0" "pipeline_run p0 fed lost p" using assms by (auto simp: reached_def)
  have "pl_topology p0 = engine_topology (c_partitions cfg)"
    using p0(1) by (auto simp: starts_def new_pipeline_def elim!: go_bind_InrE)
  then show ?thesis
    using run_operators [OF p0(2)]
    by (auto simp: operator_names_def engine_topology_def add_operator_def mg_connect_def new_manager_def Let_def)
qed

text \<open>Windows of the manager have no key, so their names show two numbers only.\<close>

lemma reached_window_key:
  assumes "reached cfg fed lost p" "wn_windows (en_windows (pl_engine p)) w \<noteq> None"
  shows "w_key w = ''''"
proof -
  obtain log hist rs where "chain_shows (c_window_size_ms cfg) log hist rs (pl_engine p)"
    by (rule reached_ledger [OF assms(1)])
  then show ?thesis using assms(2) by (auto simp: chain_shows_def win_shows_def)
qed

lemma window_snapshot_entry:
  assumes "window_snapshot order m k = Some s"
  shows "\<exists>w mw. wn_windows m w = Some mw \<and> k = window_string w \<and> s = window_state_string (mw_state mw)"
proof -
  let ?put = "\<lambda>w mw out. out(window_string w \<mapsto> window_state_string (mw_state mw))"
  have "range_fold ?put ws (wn_windows m) out k = Some s \<Longrightarrow> out k = Some s \<or>
      (\<exists>w mw. wn_windows m w = Some mw \<and> k = window_string w \<and> s = window_state_string (mw_state mw))" for ws out
    by (induction ws arbitrary: out) (fastforce simp: range_fold_def split: option.splits if_splits)+
  from this [of order Map.empty] show ?thesis using assms by (simp add: window_snapshot_def)
qed

section \<open>Text without markup\<close>

definition markup_free :: "string \<Rightarrow> bool" where
  "markup_free s \<longleftrightarrow> (\<forall>c \<in> set s. \<not> is_html c) \<and> ascii s"

lemma markup_free_simps [simp]:
  "markup_free []" "markup_free (c # s) \<longleftrightarrow> \<not> is_html c \<and> (of_char c :: nat) < 128 \<and> markup_free s"
  "markup_free (s @ t) \<longleftrightarrow> markup_free s \<and> markup_free t"
  by (auto simp: markup_free_def ascii_def)

lemma markup_free_nat [simp]: "markup_free (show_nat n)"
proof -
  have "\<not> is_html c \<and> (of_char c :: nat) < 128" if "c \<in> set (show_nat n)" for c
    using show_nat_digits [OF that] by (auto simp: is_html_def)
  then show ?thesis by (simp add: markup_free_def ascii_def)
qed

lemma markup_free_int [simp]: "markup_free (show_int i)" "markup_free (show_int64 w)"
  by (simp_all add: show_int_def show_int64_int is_html_def)

lemma markup_free_repair: "markup_free s \<Longrightarrow> repair s = s"
  by (simp add: markup_free_def repair_ascii)

lemma markup_free_names:
  "k \<in> operator_names \<Longrightarrow> markup_free k" "markup_free (operator_state_string os)" "markup_free (window_state_string ws)"
  "w_key w = '''' \<Longrightarrow> markup_free (window_string w)" "metrics_snapshot ms k = Some v \<Longrightarrow> markup_free k"
  by (cases os; cases ws;
      auto simp: operator_names_def is_html_def window_string_def metrics_snapshot_def split: if_splits)+

lemma status_maps:
  assumes "status so p = Inr st"
  shows "\<exists>ms. sa_metrics st = metrics_snapshot ms" "sa_operators st = instance_states (pl_topology p)"
    "sa_windows st = window_snapshot (ro_windows so) (en_windows (pl_engine p))"
    "sa_buffered st = buffered_count (pl_topology p)" "sa_state_keys st = latest_count (en_state (pl_engine p))"
  using assms by (auto simp: status_def Let_def split: option.splits)

lemma status_markup_free:
  assumes "reached cfg fed lost p" "status so p = Inr st"
  shows "sa_metrics st k = Some w \<Longrightarrow> markup_free k" "sa_operators st k = Some s \<Longrightarrow> markup_free k \<and> markup_free s"
    "sa_windows st k = Some s \<Longrightarrow> markup_free k \<and> markup_free s"
proof -
  show "sa_metrics st k = Some w \<Longrightarrow> markup_free k"
    using status_maps(1) [OF assms(2)] markup_free_names(5) by auto
  show "sa_operators st k = Some s \<Longrightarrow> markup_free k \<and> markup_free s"
    using reached_operators [OF assms(1)] markup_free_names(1,2)
    by (auto simp: status_maps(2) [OF assms(2)] instance_states_def)
  show "sa_windows st k = Some s \<Longrightarrow> markup_free k \<and> markup_free s"
    using window_snapshot_entry [of "ro_windows so" "en_windows (pl_engine p)" k s] reached_window_key [OF assms(1)]
      markup_free_names(3,4)
    by (auto simp: status_maps(3) [OF assms(2)])
qed

section \<open>Properties\<close>

lemma reply_reading: "reply_json (marshal v) = Reply 200 json_type body \<Longrightarrow> read_document body = reading v"
  by (auto simp: reply_json_def dest: reading_marshal split: sum.splits)

lemma payload_of:
  assumes "typed t v"
  obtains body j where "reply_json (marshal v) = Reply 200 json_type body" "read_document body = Some j"
    "reading v = Some j" "conforms t j" "list_all harmless body"
proof -
  obtain body j where s: "marshal v = Inr body" "read_document body = Some j" "conforms t j"
    using typed_payload [OF assms] by blast
  moreover have "list_all harmless body" using s(1) harmless_render(1) by (auto simp: marshal_def split: sum.splits)
  ultimately show thesis using that reading_marshal [OF s(1)] by (simp add: reply_json_def)
qed

text \<open>C16: the status and the metrics are always answered with a well-typed document: a successful reply
  whose body a client reads as an object with exactly the 36 keys of the schema, sorted, each of the type
  given there, and a dictionary of integers. No value makes the marshalling fail, the body holds no
  control characters and no markup. The only other outcome is the nil dereference of a pipeline without metrics.\<close>

theorem payloads_conform:
  "case (serve (new_http_server addr dir) so mo p ''/api/status'', serve (new_http_server addr dir) so mo p ''/metrics'') of
     (Inr st, Inr ms) \<Rightarrow> \<exists>body body' j j'. st = Reply 200 json_type body \<and> ms = Reply 200 json_type body' \<and>
        read_document body = Some j \<and> conforms status_schema j \<and> list_all harmless body \<and>
        read_document body' = Some j' \<and> conforms metrics_schema j' \<and> list_all harmless body'
   | (Inl e, Inl e') \<Rightarrow> en_metrics (pl_engine p) = None \<and> e = NilDereference \<and> e' = NilDereference
   | _ \<Rightarrow> False"
proof (cases "en_metrics (pl_engine p)")
  case None
  then show ?thesis by (simp add: serve_routes handle_status_def handle_metrics_def status_def Let_def)
next
  case (Some ms)
  then obtain st where st: "status so p = Inr st" by (simp add: status_def Let_def)
  obtain body j where "reply_json (marshal (status_value mo st)) = Reply 200 json_type body"
      "read_document body = Some j" "conforms status_schema j" "list_all harmless body"
    using payload_of [OF status_typed [of mo st]] by metis
  moreover obtain body' j' where "reply_json (marshal (metrics_value (mo ''metrics'') ms)) = Reply 200 json_type body'"
      "read_document body' = Some j'" "conforms metrics_schema j'" "list_all harmless body'"
    using payload_of [OF metrics_typed [of "mo ''metrics''" ms]] by metis
  ultimately show ?thesis using Some st by (simp add: serve_routes handle_status_def handle_metrics_def)
qed

text \<open>C17: the metrics arrive: whatever the order in which Go iterates the map, a client reads back the six
  counters, each under its name and with its exact value.\<close>

theorem metrics_read_back:
  assumes "en_metrics (pl_engine p) = Some ms" and "enum_of (mo ''metrics'') (metrics_snapshot ms)"
  shows "\<exists>body. serve (new_http_server addr dir) so mo p ''/metrics'' = Inr (Reply 200 json_type body) \<and>
     read_document body = Some (JObject
       [(''aggregated'', JInt (sint (m_aggregated ms))), (''checkpoints'', JInt (sint (m_checkpoints ms))),
        (''emitted'', JInt (sint (m_emitted ms))), (''ingested'', JInt (sint (m_ingested ms))),
        (''late_dropped'', JInt (sint (m_late_dropped ms))), (''restores'', JInt (sint (m_restores ms)))])"
proof -
  obtain body j where "reply_json (marshal (metrics_value (mo ''metrics'') ms)) = Reply 200 json_type body"
      "read_document body = Some j" "reading (metrics_value (mo ''metrics'') ms) = Some j"
    using payload_of [OF metrics_typed [of "mo ''metrics''" ms]] by metis
  then show ?thesis
    using assms(1) metrics_reading [OF assms(2)] by (simp add: serve_routes handle_metrics_def metrics_object)
qed

text \<open>C38: the page never shows the watermark nor the number of partitions: it reads
  \<^verbatim>\<open>watermark.current\<close>, \<^verbatim>\<open>watermark.confirmed\<close> and
  \<^verbatim>\<open>partitions.count\<close>, which no status has, since the structs are marshalled under
  the Go names of their fields. The fields next to them are shown.\<close>

theorem page_misses_watermark:
  "case serve (new_http_server addr dir) so mo p ''/api/status'' of
     Inr (Reply code ctype body) \<Rightarrow> \<exists>j v. read_document body = Some j \<and> refresh j = Some v \<and>
        pv_watermark v = (Undefined, Undefined) \<and> pv_partitions v = Undefined \<and>
        pv_buffered v = Js (JInt (sint (of_nat (buffered_count (pl_topology p)) :: int64))) \<and>
        pv_state_keys v = Js (JInt (sint (of_nat (latest_count (en_state (pl_engine p))) :: int64)))
   | Inr _ \<Rightarrow> False | Inl _ \<Rightarrow> en_metrics (pl_engine p) = None"
proof (cases "status so p")
  case (Inl e)
  then have "en_metrics (pl_engine p) = None" by (auto simp: status_def Let_def split: option.splits)
  then show ?thesis using Inl by (simp add: serve_routes handle_status_def)
next
  case (Inr st)
  obtain body j where b: "reply_json (marshal (status_value mo st)) = Reply 200 json_type body"
      "read_document body = Some j" "reading (status_value mo st) = Some j"
    using payload_of [OF status_typed [of mo st]] by metis
  obtain v where "refresh j = Some v" "pv_watermark v = (Undefined, Undefined)" "pv_partitions v = Undefined"
      "pv_buffered v = Js (JInt (sint (of_nat (sa_buffered st) :: int64)))"
      "pv_state_keys v = Js (JInt (sint (of_nat (sa_state_keys st) :: int64)))"
    by (rule refresh_status [OF b(3)])
  then show ?thesis using Inr b(1,2) by (simp add: serve_routes handle_status_def status_maps(4,5) [OF Inr])
qed

text \<open>C19: what the page sets as HTML is free of markup in every reachable state, although it escapes
  nothing: no key of an event reaches its tables.\<close>

theorem page_rows_hold_no_markup:
  assumes "reached cfg fed lost p"
    and "serve (new_http_server addr dir) so mo p ''/api/status'' = Inr (Reply 200 json_type body)"
    and "read_document body = Some j"
  shows "\<exists>v. refresh j = Some v \<and> (\<forall>row \<in> set (page_rows v). \<exists>name text.
     row_html row = ''<td>'' @ name @ ''</td><td>'' @ text @ ''</td>'' \<and> markup_free name \<and> markup_free text)"
proof -
  obtain st where st: "status so p = Inr st" and reply: "reply_json (marshal (status_value mo st)) = Reply 200 json_type body"
    using assms(2) by (auto simp: serve_routes handle_status_def elim!: go_bind_InrE)
  then have j: "reading (status_value mo st) = Some j"
    using reply_reading [OF reply] assms(3) by simp
  obtain v where v: "refresh j = Some v"
      "\<forall>row \<in> set (pv_metrics v). \<exists>k w. sa_metrics st k = Some w \<and> row = (repair k, JInt (sint w))"
      "\<forall>row \<in> set (pv_operators v). \<exists>k s. sa_operators st k = Some s \<and> row = (repair k, JString (repair s))"
      "\<forall>row \<in> set (pv_windows v). \<exists>k s. sa_windows st k = Some s \<and> row = (repair k, JString (repair s))"
    by (rule refresh_status [OF j])
  have "markup_free (fst row) \<and> markup_free (cell_text (snd row))" if "row \<in> set (page_rows v)" for row
    using that v(2-4) status_markup_free [OF assms(1) st] markup_free_repair by (fastforce simp: page_rows_def)
  then show ?thesis using v(1) unfolding row_html_def by blast
qed

lemma route_always:
  obtains pattern e where "route_for (sv_routes (new_http_server addr dir)) path = Some (pattern, e)"
    "e \<in> {Health, MetricsApi, StatusApi, Page, FileTree (path_clean dir)}"
    "e = Health \<longrightarrow> segments path = [''health'']" "e = MetricsApi \<longrightarrow> segments path = [''metrics'']"
    "e = StatusApi \<longrightarrow> segments path = [''api'', ''status'']"
proof -
  have "1 \<le> length (split_path (tl path))" by (simp add: Suc_le_eq)
  then have "\<exists>pattern e. route_for (sv_routes (new_http_server addr dir)) path = Some (pattern, e) \<and>
      e \<in> {Health, MetricsApi, StatusApi, Page, FileTree (path_clean dir)} \<and>
      (e = Health \<longrightarrow> segments path = [''health'']) \<and> (e = MetricsApi \<longrightarrow> segments path = [''metrics'']) \<and>
      (e = StatusApi \<longrightarrow> segments path = [''api'', ''status''])"
    by (simp add: new_http_server_def matches_def segments_def unescape_plain)
  then show thesis using that by blast
qed

lemma json_handlers:
  "handle_metrics mo p = Inl e \<Longrightarrow> en_metrics (pl_engine p) = None"
  "handle_status so mo p = Inl e \<Longrightarrow> en_metrics (pl_engine p) = None"
  "handle_metrics mo p = Inr r \<Longrightarrow> \<exists>code ctype body. r = Reply code ctype body"
  "handle_status so mo p = Inr r \<Longrightarrow> \<exists>code ctype body. r = Reply code ctype body"
  by (auto simp: handle_metrics_def handle_status_def status_def Let_def reply_json_def
      split: option.splits sum.splits)

text \<open>C18: the mux answers every request: by a handler, a file or one redirect. A client that
  follows the redirect of the mux is not redirected by it again, and a file that is served is the page itself
  or lies in the tree of the web directory, however the path is encoded. What is sent for the path of a file
  (its content, a listing, the file server's own redirect of a directory, an error) depends on the disk.\<close>

theorem requests_stay_inside:
  "case serve (new_http_server addr dir) so mo p path of
     Inr (MovedTo path') \<Rightarrow> path' \<noteq> path \<and>
       (\<forall>so' mo' p' path''. serve (new_http_server addr dir) so' mo' p' path' \<noteq> Inr (MovedTo path''))
   | Inr (ServeFile file) \<Rightarrow> file = path_join dir ''topology.html'' \<or>
       (\<exists>es. list_all element_ok es \<and> file = below (path_clean dir) es)
   | Inr (Reply code ctype body) \<Rightarrow> segments path \<in> {[''health''], [''metrics''], [''api'', ''status'']}
   | Inr NotFound \<Rightarrow> False
   | Inl panic \<Rightarrow> en_metrics (pl_engine p) = None"
proof -
  let ?sv = "new_http_server addr dir"
  have handled: "handle ?sv so mo p path e \<noteq> Inr (MovedTo path')" for so mo p path e path'
    using json_handlers by (cases e) (fastforce simp: handle_def handle_health_def handle_page_def)+
  have direct: "serve ?sv so' mo' p' q \<noteq> Inr (MovedTo path'')" if "mux_clean q = q" for so' mo' p' q path''
    using that handled by (auto simp: serve_def split: option.splits)
  show ?thesis
  proof (cases "mux_clean path = path")
    case False
    then have "escape_path (mux_clean path) \<noteq> path" using mux_clean_redirect [of path] by metis
    then show ?thesis using False direct [OF mux_clean_redirect] by (simp add: serve_def)
  next
    case True
    obtain pattern e where e: "route_for (sv_routes ?sv) path = Some (pattern, e)"
        "e \<in> {Health, MetricsApi, StatusApi, Page, FileTree (path_clean dir)}"
        "e = Health \<longrightarrow> segments path = [''health'']" "e = MetricsApi \<longrightarrow> segments path = [''metrics'']"
        "e = StatusApi \<longrightarrow> segments path = [''api'', ''status'']"
      by (rule route_always)
    have s: "serve ?sv so mo p path = handle ?sv so mo p path e" using True e(1) by (simp add: serve_def)
    show ?thesis
    proof (cases e)
      case Health
      then show ?thesis using e(3) by (simp add: s handle_def handle_health_def)
    next
      case MetricsApi
      then have "serve ?sv so mo p path = handle_metrics mo p" by (simp add: s handle_def)
      then show ?thesis
        using e(4) MetricsApi json_handlers(1,3) [of mo p] by (cases "handle_metrics mo p") auto
    next
      case StatusApi
      then have "serve ?sv so mo p path = handle_status so mo p" by (simp add: s handle_def)
      then show ?thesis
        using e(5) StatusApi json_handlers(2,4) [of so mo p] by (cases "handle_status so mo p") auto
    next
      case Page
      moreover have "sv_web_dir ?sv = dir" by (simp add: new_http_server_def)
      ultimately show ?thesis by (simp add: s handle_def handle_page_def)
    next
      case (FileTree d)
      then have "d = path_clean dir" using e(2) by simp
      then have "handle ?sv so mo p path e = Inr (ServeFile (tree_file (path_clean dir) (unescape_path path)))"
        by (simp add: FileTree handle_def)
      then show ?thesis using tree_file_below [of dir "unescape_path path"] by (simp add: s list_all_iff)
    qed
  qed
qed

theorem metrics_read_back_witness:
  "\<exists>p0 body. new_pipeline one_config (Some new_metrics) = Inr p0 \<and>
     read_document body = Some (JObject [(''aggregated'', JInt 0), (''checkpoints'', JInt 0), (''emitted'', JInt 0),
       (''ingested'', JInt 0), (''late_dropped'', JInt 0), (''restores'', JInt 0)])"
proof -
  obtain p0 where p0: "new_pipeline one_config (Some new_metrics) = Inr p0"
    using one_starts by blast
  then have ms: "en_metrics (pl_engine p0) = Some new_metrics"
    by (auto simp: new_pipeline_def new_engine_def elim!: go_bind_InrE)
  let ?mo = "\<lambda>_. [''ingested'', ''aggregated'', ''emitted'', ''late_dropped'', ''checkpoints'', ''restores'']"
  have "enum_of (?mo ''metrics'') (metrics_snapshot new_metrics)"
    by (auto simp: enum_of_def metrics_snapshot_def)
  from metrics_read_back [OF ms this, of "''web''" "'':8080''"] p0 show ?thesis
    by (auto simp: new_metrics_def)
qed

theorem page_rows_hold_no_markup_witness:
  "\<exists>p j v. reached one_config [one_event] [] p \<and> refresh j = Some v \<and> (\<forall>row \<in> set (page_rows v). \<exists>name text.
     row_html row = ''<td>'' @ name @ ''</td><td>'' @ text @ ''</td>'' \<and> markup_free name \<and> markup_free text)"
proof -
  let ?so = "\<lparr>ro_keys = [''k''], ro_windows = [one_window], ro_sessions = [''k''], ro_results = [], ro_catalog = [one_window]\<rparr>"
  obtain p where p: "reached one_config [one_event] [] p"
      "en_metrics (pl_engine p) = Some (add_aggregated (add_ingested new_metrics))"
    using one_reached by blast
  then obtain st where st: "status ?so p = Inr st" by (simp add: status_def Let_def)
  obtain body j where body: "reply_json (marshal (status_value (\<lambda>_. [''window[0,5000)'']) st)) = Reply 200 json_type body"
      "read_document body = Some j"
    using payload_of [OF status_typed [of "\<lambda>_. [''window[0,5000)'']" st]] by metis
  then have "serve (new_http_server '':8080'' ''web'') ?so (\<lambda>_. [''window[0,5000)'']) p ''/api/status'' =
      Inr (Reply 200 json_type body)"
    using st by (simp add: serve_routes handle_status_def)
  from page_rows_hold_no_markup [OF p(1) this body(2)] p(1) show ?thesis by blast
qed

end
