(* ===== verification/Spec2Isabelle.thy ===== *)
theory Spec2Isabelle
  imports Results Watermark Reorder_Buffer Generator Source Agg_Store Partitions Router State_Store
    Sink Checkpoint Windows Sessions Dag Topology Pipeline Pipeline_Runs Status Demo Demo_Runs Lifecycle XXHash_Marshal
    Json Json_Reader Json_Types Paths Http_Server Status_Page
begin

text \<open>
  A model of StreamEngine, the stream processing engine of this repository. Events enter a source
  that reorders them by event time; an advance of the watermark drains the due ones through the
  topology manager, which applies each offset once or buffers it while paused; the operator chain
  routes an event to a partition, records it in the state backend, puts it into its tumbling window
  and its session, writes it to the sink and batches its delta; the confirmed watermark closes
  windows and sessions into the aggregation store; checkpoints commit the sink and the source
  position. The theories follow the packages.

  \<^bold>\<open>Prelude\<close>: 64-bit words read by \<^const>\<open>sint\<close>, Go's division and remainder, panics as the left
  summand of \<open>'a go\<close>, Go maps as partial functions visited in an explicit order, the slice sort.
  \<^bold>\<open>Model\<close> and \<^bold>\<open>Results\<close>: \<^verbatim>\<open>internal/model\<close>. \<^bold>\<open>Watermark\<close>: \<^verbatim>\<open>internal/watermark\<close>, with the
  locale \<open>frontier\<close>. \<^bold>\<open>Go_Heap\<close> and \<^bold>\<open>Reorder_Buffer\<close>: \<^verbatim>\<open>container/heap\<close> as the source uses it and
  \<^verbatim>\<open>internal/source/buffer.go\<close>, locale \<open>event_queue\<close>. \<^bold>\<open>Source\<close>: \<^verbatim>\<open>internal/source/source.go\<close>, the
  sequential calls and the concurrent advance handshake as a step relation. \<^bold>\<open>Generator\<close>:
  \<^verbatim>\<open>internal/source/generator.go\<close>. \<^bold>\<open>Agg_Store\<close>: \<^verbatim>\<open>internal/agg\<close>, locale \<open>result_sink\<close>; \<^bold>\<open>Partitions\<close>:
  the partitioned store, locale \<open>partitioner\<close>. \<^bold>\<open>XXHash\<close>: the vendored
  hash, one-shot and streaming. \<^bold>\<open>Router\<close>: \<^verbatim>\<open>internal/topology/repartition.go\<close>.
  \<^bold>\<open>State_Store\<close>: \<^verbatim>\<open>internal/state\<close>. \<^bold>\<open>Sink\<close>: \<^verbatim>\<open>internal/sink\<close>. \<^bold>\<open>Checkpoint\<close>:
  \<^verbatim>\<open>internal/checkpoint\<close> and \<^verbatim>\<open>internal/source/offset.go\<close>, locales \<open>versioned_store\<close> and
  \<open>barrier_log\<close>. \<^bold>\<open>Windows\<close> and \<^bold>\<open>Sessions\<close>: \<^verbatim>\<open>internal/window\<close>. \<^bold>\<open>Dag\<close> and
  \<^bold>\<open>Topology\<close>: \<^verbatim>\<open>dag.go\<close> and \<^verbatim>\<open>topology.go\<close>, locale \<open>applier\<close>. \<^bold>\<open>Pipeline\<close>:
  \<^verbatim>\<open>pipeline.go\<close>, the composition; \<^bold>\<open>Pipeline_Runs\<close>: what holds of every run of it;
  \<^bold>\<open>Status\<close>: the status page's readings; \<^bold>\<open>Demo\<close>: the start-up and the feed of \<^verbatim>\<open>cmd/streamengine\<close>;
  \<^bold>\<open>XXHash_Marshal\<close>: the digest's binary form and the rest of its methods.
  \<^bold>\<open>Demo_Runs\<close>: no tick of the feed loses an event. \<^bold>\<open>Lifecycle\<close>: \<^verbatim>\<open>main.go\<close> after the
  configuration, the goroutines of feed, signal and server as one step relation \<open>program_step\<close>.
  \<^bold>\<open>Http_Server\<close>: \<^verbatim>\<open>http.go\<close>, routes and handlers; \<^bold>\<open>Status_Page\<close>: what its clients read, the
  script of \<^verbatim>\<open>web/topology.html\<close> among them. These rest on models of what the server uses of the
  standard library: \<^bold>\<open>Json\<close>, the encoder of \<^verbatim>\<open>encoding/json\<close>; \<^bold>\<open>Json_Reader\<close>, a reader of
  documents, and \<^bold>\<open>Json_Types\<close>, their types, with the round trip of typed values; \<^bold>\<open>Paths\<close>, the
  cleaning and the percent encoding of paths.

  State and operations. Each Go struct is a record with a field per field of the code and a prefix
  per component; a method is a function that returns the updated record. Mutexes do not appear: a
  method that holds its component's lock throughout is one step. The two places where the code
  releases a lock in the middle are modelled by their steps: the advance handshake of the source
  (\<open>call_step\<close>, with the sleeping and waking of its condition variable) and the retry loop of
  \<^verbatim>\<open>SnapshotState\<close>, whose argument lists the mutations that run between its two reads. Components shared by pointer occur once, in \<open>engine\<close> and \<open>pipeline\<close>;
  callbacks are function arguments (the sink of the windows, the apply function of the manager, the
  ingest function of the source). Go's unspecified map order is an argument that lists the keys
  (\<open>enum_of\<close>), over which the properties quantify.

  Lemma groups. Per component: an invariant and its preservation (\<open>inv_intro\<close>), what an
  operation leaves alone (\<open>frame\<close>), the equality of each loop with its specification, then the
  properties over arbitrary runs. Across components: \<open>chain_shows\<close> relates the engine to the list
  of processed events, \<open>ledger_shows\<close> to the marked offsets, \<open>pipeline_shows\<close> to all events the
  pipeline was given; each operation of the pipeline preserves the last one.

  Bounds and fuel. \<open>visit\<close> recurses with fuel, \<open>dag_validate\<close> gives it twice the number of edges
  plus one, and \<open>cycle_check_terminates\<close> shows that this always suffices. Sequence numbers wrap at
  64 bits; properties that compare them assume fewer than \<open>2^63\<close> operations. \<^verbatim>\<open>SnapshotState\<close>
  may retry forever under constant mutation; its schedule is finite and the result \<open>None\<close> when it
  is used up. A slice has at most \<open>max_parts\<close> elements, what the runtime allows for pointers on a 64-bit
  platform; beyond it \<^verbatim>\<open>make\<close> panics.

  Restrictions of the pipeline's runs. Events have a non-empty key: a session of the empty key would
  share the identities of the tumbling windows in the aggregation store. Restores are modelled
  (\<open>pl_restore\<close>, shown not to panic) but are not steps of \<open>pipeline_run\<close>, whose totals they reset.

  Life cycle. A step of \<open>program_step\<close> is a whole tick of the feed, its stop, or one action of the
  signal goroutine, the server or \<^verbatim>\<open>main\<close>; its label tells the ticks, which \<open>program_run\<close> counts. The
  theorems assume fewer than \<open>2^50\<close> ticks (some 700,000 years of them at 20 ms each), so that the time stamps of
  the feed do not wrap.

  Documents. The reader covers the documents the encoder writes: integers (no fractions), strings
  with their escapes, objects, arrays and literals. Its fuel is the length of the document, which
  suffices for every document of a typed value (\<open>payloads_conform\<close>). The page's numbers are those of the
  document; JavaScript would round beyond \<open>2^53\<close>.

  Not modelled: the parsing of the flags and the writing of log lines (of the feed's, the text is
  modelled); the transport of \<^verbatim>\<open>net/http\<close>, what the file server sends for a path, requests of
  method \<^verbatim>\<open>CONNECT\<close> and for \<^verbatim>\<open>*\<close>; layout and polling of the page; the assembly and
  \<^verbatim>\<open>appengine\<close> variants of xxhash (the portable code they stand for is modelled); interleavings
  inside single method calls other than the two above, among them those of a request with the feed; the
  runtime's fatal errors, such as the exhaustion of the memory.
\<close>

end
